(* ===== verification/Ppose_Prelude.thy ===== *)
theory Ppose_Prelude
  imports Main "HOL-Library.Word"
begin

text \<open>
  Shared vocabulary of the development: the machine integers and byte strings of
  the Rust code, time values, big-endian byte encodings
  (\<^verbatim>\<open>to_be_bytes\<close> / \<^verbatim>\<open>from_be_bytes\<close>), slices, and the \<^verbatim>\<open>?\<close>
  operator on results.  \<^verbatim>\<open>Instant\<close> and \<^verbatim>\<open>Duration\<close> are natural
  numbers of nanoseconds; \<^verbatim>\<open>saturating_duration_since\<close> is then subtraction
  on \<^typ>\<open>nat\<close>.  The generic lemmas on byte encodings are collected in
  \<open>codec_simps\<close>.
\<close>

named_theorems codec_simps "equations for byte encodings and decodings"

section \<open>Types\<close>

type_synonym u8 = "8 word"
type_synonym u16 = "16 word"
type_synonym u32 = "32 word"
type_synonym u64 = "64 word"
type_synonym bytes = "u8 list"
type_synonym instant = nat
type_synonym duration = nat

definition from_millis :: "nat \<Rightarrow> duration" where
  "from_millis n = n * 1000000"

definition from_secs :: "nat \<Rightarrow> duration" where
  "from_secs n = n * 1000000000"

section \<open>Results\<close>

text \<open>A Rust \<^verbatim>\<open>Result\<close> is a sum, \<open>Inl\<close> the error.  \<open>res_bind\<close> is
  the \<^verbatim>\<open>?\<close> operator followed by the rest of the function, \<open>map_err\<close> the
  \<^verbatim>\<open>From\<close> conversion it applies to the error.\<close>

definition res_bind :: "'e + 'a \<Rightarrow> ('a \<Rightarrow> 'e + 'b) \<Rightarrow> 'e + 'b" where
  "res_bind r f = (case r of Inl e \<Rightarrow> Inl e | Inr a \<Rightarrow> f a)"

definition map_err :: "('e \<Rightarrow> 'f) \<Rightarrow> 'e + 'a \<Rightarrow> 'f + 'a" where
  "map_err g r = (case r of Inl e \<Rightarrow> Inl (g e) | Inr a \<Rightarrow> Inr a)"

definition ok_or :: "'e \<Rightarrow> 'a option \<Rightarrow> 'e + 'a" where
  "ok_or e r = (case r of None \<Rightarrow> Inl e | Some a \<Rightarrow> Inr a)"

lemma res_bind_simps [simp]:
  "res_bind (Inl e) f = Inl e"
  "res_bind (Inr a) f = f a"
  by (simp_all add: res_bind_def)

lemma map_err_simps [simp]:
  "map_err g (Inl e) = Inl (g e)"
  "map_err g (Inr a) = Inr a"
  by (simp_all add: map_err_def)

lemma ok_or_simps [simp]:
  "ok_or e None = Inl e"
  "ok_or e (Some a) = Inr a"
  by (simp_all add: ok_or_def)

lemma res_bind_Inr_iff:
  "res_bind r f = Inr b \<longleftrightarrow> (\<exists>a. r = Inr a \<and> f a = Inr b)"
  by (cases r) auto

lemma map_err_Inr_iff [simp]: "map_err g r = Inr a \<longleftrightarrow> r = Inr a"
  by (cases r) auto

lemma ok_or_Inr_iff [simp]: "ok_or e r = Inr a \<longleftrightarrow> r = Some a"
  by (cases r) auto

section \<open>Slices\<close>

text \<open>\<open>slice a b xs\<close> is \<^verbatim>\<open>xs[a..b]\<close>; every use below stands behind the
  length check of the code, so the Rust slice does not panic there.\<close>

definition slice :: "nat \<Rightarrow> nat \<Rightarrow> 'a list \<Rightarrow> 'a list" where
  "slice a b xs = take (b - a) (drop a xs)"

lemma length_slice [simp]: "b \<le> length xs \<Longrightarrow> length (slice a b xs) = b - a"
  by (simp add: slice_def)

lemma slice_append_left [codec_simps]:
  "length xs = a \<Longrightarrow> a \<le> b \<Longrightarrow> slice a b (xs @ ys) = take (b - a) ys"
  by (simp add: slice_def)

lemma take_append_exact [codec_simps]: "length xs = n \<Longrightarrow> take n (xs @ ys) = xs"
  by simp

lemma drop_append_exact [codec_simps]: "length xs = n \<Longrightarrow> drop n (xs @ ys) = ys"
  by simp

section \<open>Big-endian encodings\<close>

fun be_digits :: "nat \<Rightarrow> nat \<Rightarrow> bytes" where
  "be_digits 0 k = []"
| "be_digits (Suc n) k = of_nat (k div 256 ^ n) # be_digits n k"

fun be_value :: "bytes \<Rightarrow> nat" where
  "be_value [] = 0"
| "be_value (b # bs) = unat b * 256 ^ length bs + be_value bs"

definition to_be :: "nat \<Rightarrow> 'a::len word \<Rightarrow> bytes" where
  "to_be n w = be_digits n (unat w)"

definition from_be :: "bytes \<Rightarrow> 'a::len word" where
  "from_be bs = of_nat (be_value bs)"

abbreviation u16_to_be_bytes :: "u16 \<Rightarrow> bytes" where
  "u16_to_be_bytes w \<equiv> to_be 2 w"

abbreviation u32_to_be_bytes :: "u32 \<Rightarrow> bytes" where
  "u32_to_be_bytes w \<equiv> to_be 4 w"

abbreviation u64_to_be_bytes :: "u64 \<Rightarrow> bytes" where
  "u64_to_be_bytes w \<equiv> to_be 8 w"

lemma be_digits_numeral [simp]:
  "be_digits (numeral n) k =
     of_nat (k div 256 ^ pred_numeral n) # be_digits (pred_numeral n) k"
  by (simp add: numeral_eq_Suc)

lemma length_be_digits [simp]: "length (be_digits n k) = n"
  by (induction n) auto

lemma length_to_be [simp]: "length (to_be n w) = n"
  by (simp add: to_be_def)

lemma be_value_less: "be_value bs < 256 ^ length bs"
proof (induction bs)
  case (Cons b bs)
  have "unat b < 256" using unsigned_less [of b] by simp
  then have "unat b * 256 ^ length bs + 256 ^ length bs \<le> 256 * 256 ^ length bs"
    using mult_le_mono1 [of "Suc (unat b)" 256 "256 ^ length bs"] by simp
  moreover have "be_value (b # bs) < unat b * 256 ^ length bs + 256 ^ length bs"
    using Cons by simp
  ultimately show ?case by (simp only: length_Cons power_Suc)
qed simp

lemma unat_of_nat_u8: "unat (of_nat k :: u8) = k mod 256"
  by (simp add: unat_of_nat)

lemma be_value_be_digits: "be_value (be_digits n k) = k mod 256 ^ n"
proof (induction n)
  case (Suc n)
  have "k mod (256 ^ n * 256) = 256 ^ n * (k div 256 ^ n mod 256) + k mod 256 ^ n"
    by (rule mod_mult2_eq)
  with Suc show ?case by (simp add: unat_of_nat_u8 mult.commute)
qed simp

lemma be_digits_mod: "be_digits n (k + m * 256 ^ n) = be_digits n k"
proof (induction n arbitrary: m)
  case (Suc n)
  have "(k + m * 256 ^ Suc n) div 256 ^ n = k div 256 ^ n + m * 256"
    by (simp add: mult.assoc [symmetric] div_add1_eq)
  moreover have "(of_nat (m * 256) :: u8) = 0"
    using unat_of_nat_u8 [of "m * 256"] by (simp only: unat_eq_0 mod_mult_self2_is_0)
  ultimately show ?case
    using Suc [of "m * 256"] by (simp add: mult.assoc)
qed simp

lemma be_digits_be_value: "be_digits (length bs) (be_value bs) = bs"
proof (induction bs)
  case (Cons b bs)
  have "be_value bs div 256 ^ length bs = 0"
    using be_value_less [of bs] by simp
  then have "be_value (b # bs) div 256 ^ length bs = unat b"
    by simp
  moreover have "be_digits (length bs) (be_value (b # bs)) = bs"
    using be_digits_mod [of "length bs" "be_value bs" "unat b"] Cons
    by (simp add: add.commute)
  ultimately show ?case by simp
qed simp

lemma from_be_to_be [codec_simps]:
  fixes w :: "'a::len word"
  assumes "LENGTH('a) = 8 * n"
  shows "from_be (to_be n w) = w"
proof -
  have "(256::nat) ^ n = 2 ^ LENGTH('a)"
    by (simp add: assms power_mult)
  then have "unat w mod 256 ^ n = unat w"
    using unsigned_less [of w, where ?'a = nat] by simp
  then show ?thesis
    by (simp add: from_be_def to_be_def be_value_be_digits)
qed

lemma to_be_from_be [codec_simps]:
  assumes "LENGTH('a::len) = 8 * n" and "length bs = n"
  shows "to_be n (from_be bs :: 'a word) = bs"
proof -
  have "(256::nat) ^ n = 2 ^ LENGTH('a)"
    by (simp add: assms power_mult)
  then have "unat (from_be bs :: 'a word) = be_value bs"
    using be_value_less [of bs] by (simp add: from_be_def unat_of_nat assms)
  then show ?thesis
    using be_digits_be_value [of bs] by (simp add: to_be_def assms)
qed

lemma to_be_inj:
  fixes v w :: "'a::len word"
  assumes "LENGTH('a) = 8 * n"
  shows "to_be n v = to_be n w \<longleftrightarrow> v = w"
  using from_be_to_be [OF assms] by metis

section \<open>Socket addresses\<close>

text \<open>\<^verbatim>\<open>std::net::SocketAddr\<close>: an IPv4 address is its four octets; the IPv6
  variant carries its address, port, flow information and scope.\<close>

datatype ipv4_addr = Ipv4Addr u8 u8 u8 u8

datatype socket_addr =
    V4 ipv4_addr u16
  | V6 "128 word" u16 u32 u32

fun octets :: "ipv4_addr \<Rightarrow> bytes" where
  "octets (Ipv4Addr a b c d) = [a, b, c, d]"

lemma length_octets [simp]: "length (octets ip) = 4"
  by (cases ip) simp

text \<open>The six bytes \<^verbatim>\<open>ip | port\<close> that the forward wrapper, the onion layer and the
  rendezvous reply share.\<close>

definition addr_bytes :: "ipv4_addr \<Rightarrow> u16 \<Rightarrow> bytes" where
  "addr_bytes ip port = octets ip @ u16_to_be_bytes port"

definition read_addr :: "bytes \<Rightarrow> socket_addr" where
  "read_addr bs = V4 (Ipv4Addr (bs ! 0) (bs ! 1) (bs ! 2) (bs ! 3)) (from_be (slice 4 6 bs))"

lemma length_addr_bytes [simp]: "length (addr_bytes ip port) = 6"
  by (simp add: addr_bytes_def)

lemma read_addr_bytes [codec_simps]: "read_addr (addr_bytes ip port @ rest) = V4 ip port"
proof (cases ip)
  case (Ipv4Addr a b c d)
  have "slice 4 6 ([a, b, c, d] @ u16_to_be_bytes port @ rest) = u16_to_be_bytes port"
    by (simp add: slice_def)
  then show ?thesis
    by (simp add: Ipv4Addr read_addr_def addr_bytes_def from_be_to_be)
qed

lemma addr_bytes_read:
  assumes "6 \<le> length bs" and "read_addr bs = V4 ip port"
  shows "bs = addr_bytes ip port @ drop 6 bs"
proof -
  from assms(1) obtain a b c d e f rest where bs: "bs = a # b # c # d # e # f # rest"
    by (auto simp: numeral_eq_Suc Suc_le_length_iff)
  from assms(2) have "ip = Ipv4Addr a b c d" and "port = from_be [e, f]"
    by (simp_all add: bs read_addr_def slice_def)
  then show ?thesis
    by (simp add: bs addr_bytes_def to_be_from_be)
qed

lemma length_filter_filter: "length (filter P (filter Q xs)) \<le> length (filter P xs)"
  by (induction xs) auto

section \<open>Interface: a wire codec\<close>

text \<open>
  An encoder with its decoder.  \<open>valid\<close> are the values the encoder is used on.  The
  laws are what every codec of the crate promises its callers: what was encoded is read
  back.  A \<open>strict_codec\<close> also accepts nothing but encodings, so that a byte
  string has at most one reading and no malleable variants.
\<close>

locale wire_codec =
  fixes valid :: "'a \<Rightarrow> bool"
    and enc :: "'a \<Rightarrow> bytes"
    and dec :: "bytes \<Rightarrow> 'e + 'a"
  assumes dec_enc: "valid a \<Longrightarrow> dec (enc a) = Inr a"
begin

lemma enc_inj: "valid a \<Longrightarrow> valid b \<Longrightarrow> enc a = enc b \<Longrightarrow> a = b"
  using dec_enc by (metis sum.inject(2))

lemma enc_never_rejected: "valid a \<Longrightarrow> dec (enc a) \<noteq> Inl e"
  by (simp add: dec_enc)

end

locale strict_codec = wire_codec +
  assumes dec_valid: "dec bs = Inr a \<Longrightarrow> valid a"
    and enc_dec: "dec bs = Inr a \<Longrightarrow> enc a = bs"
begin

lemma dec_iff: "dec bs = Inr a \<longleftrightarrow> valid a \<and> bs = enc a"
  using dec_enc dec_valid enc_dec by blast

lemma dec_inj: "dec bs = Inr a \<Longrightarrow> dec cs = Inr a \<Longrightarrow> bs = cs"
  using enc_dec by blast

end

section \<open>Interface: a state machine and its invariant\<close>

text \<open>
  The stateful components are step relations, one rule per operation.  \<open>reach\<close> is
  reachability from the constructor's state; a component's invariant is interpreted as
  an instance of \<open>step_invariant\<close>.
\<close>

inductive reach :: "'s \<Rightarrow> ('s \<Rightarrow> 's \<Rightarrow> bool) \<Rightarrow> 's \<Rightarrow> bool" for init step where
  reach_init: "reach init step init"
| reach_step: "reach init step s \<Longrightarrow> step s t \<Longrightarrow> reach init step t"

lemma reach_steps: "step\<^sup>*\<^sup>* s t \<Longrightarrow> reach init step s \<Longrightarrow> reach init step t"
  by (induction rule: rtranclp_induct) (auto intro: reach_step)

locale step_invariant =
  fixes init :: 's and step :: "'s \<Rightarrow> 's \<Rightarrow> bool" and inv :: "'s \<Rightarrow> bool"
  assumes inv_init: "inv init"
    and inv_step: "step s t \<Longrightarrow> inv s \<Longrightarrow> inv t"
begin

lemma reach_inv: "reach init step s \<Longrightarrow> inv s"
  by (induction rule: reach.induct) (auto intro: inv_init inv_step)

end

end
