(* ===== verification/Ppose_Containers.thy ===== *)
theory Ppose_Containers
  imports Ppose_Prelude "HOL-Library.AList"
begin

text \<open>
  The two standard maps of the code.  A \<^verbatim>\<open>HashMap\<close> is an association list with
  distinct keys whose order stands for the iteration order, which Rust leaves
  unspecified: results that must not depend on it are proved for every list with the
  same entries.  A \<^verbatim>\<open>BTreeMap\<close> is an association list in strictly ascending key
  order.  Both are instances of the locale \<open>finite_map\<close>, whose lemmas the
  components use.
\<close>

section \<open>Interface: a finite map with an entry list\<close>

locale finite_map =
  fixes wf :: "('k \<times> 'v) list \<Rightarrow> bool"
    and ins :: "'k \<Rightarrow> 'v \<Rightarrow> ('k \<times> 'v) list \<Rightarrow> ('k \<times> 'v) list"
    and del :: "'k \<Rightarrow> ('k \<times> 'v) list \<Rightarrow> ('k \<times> 'v) list"
  assumes wf_empty: "wf []"
    and wf_distinct: "wf m \<Longrightarrow> distinct (map fst m)"
    and wf_ins: "wf m \<Longrightarrow> wf (ins k v m)"
    and wf_del: "wf m \<Longrightarrow> wf (del k m)"
    and wf_filter: "wf m \<Longrightarrow> wf (filter p m)"
    and map_of_ins: "wf m \<Longrightarrow> map_of (ins k v m) = (map_of m)(k \<mapsto> v)"
    and map_of_del: "wf m \<Longrightarrow> map_of (del k m) = (map_of m)(k := None)"
begin

lemma length_card: "wf m \<Longrightarrow> length m = card (dom (map_of m))"
  using wf_distinct by (metis distinct_card dom_map_of_conv_image_fst length_map list.set_map)

lemma set_ins: "wf m \<Longrightarrow> set (ins k v m) = insert (k, v) {e \<in> set m. fst e \<noteq> k}"
proof -
  assume wf: "wf m"
  have "e \<in> set (ins k v m) \<longleftrightarrow> e \<in> insert (k, v) {e \<in> set m. fst e \<noteq> k}" for e
  proof (cases e)
    case (Pair a b)
    have "(a, b) \<in> set (ins k v m) \<longleftrightarrow> map_of (ins k v m) a = Some b"
      using wf wf_ins wf_distinct by simp
    moreover have "(a, b) \<in> set m \<longleftrightarrow> map_of m a = Some b"
      using wf wf_distinct by simp
    ultimately show ?thesis using Pair wf by (auto simp: map_of_ins)
  qed
  then show ?thesis by blast
qed

lemma set_del: "wf m \<Longrightarrow> set (del k m) = {e \<in> set m. fst e \<noteq> k}"
proof -
  assume wf: "wf m"
  have "e \<in> set (del k m) \<longleftrightarrow> e \<in> {e \<in> set m. fst e \<noteq> k}" for e
  proof (cases e)
    case (Pair a b)
    have "(a, b) \<in> set (del k m) \<longleftrightarrow> map_of (del k m) a = Some b"
      using wf wf_del wf_distinct by simp
    moreover have "(a, b) \<in> set m \<longleftrightarrow> map_of m a = Some b"
      using wf wf_distinct by simp
    ultimately show ?thesis using Pair wf by (auto simp: map_of_del)
  qed
  then show ?thesis by blast
qed

lemma length_ins:
  assumes "wf m"
  shows "length (ins k v m) = (if map_of m k = None then Suc (length m) else length m)"
proof -
  have "dom (map_of (ins k v m)) = insert k (dom (map_of m))"
    using assms by (simp add: map_of_ins)
  moreover have "finite (dom (map_of m))" by (rule finite_dom_map_of)
  ultimately show ?thesis
    using assms wf_ins by (auto simp: length_card card_insert_if domIff)
qed

lemma length_del:
  assumes "wf m"
  shows "length (del k m) = (if map_of m k = None then length m else length m - 1)"
proof -
  have "dom (map_of (del k m)) = dom (map_of m) - {k}"
    using assms by (simp add: map_of_del)
  then show ?thesis
    using assms wf_del by (auto simp: length_card card_Diff_singleton_if domIff)
qed

lemma map_of_filter:
  assumes "wf m"
  shows "map_of (filter p m) k =
    (case map_of m k of None \<Rightarrow> None | Some v \<Rightarrow> if p (k, v) then Some v else None)"
proof -
  have d: "distinct (map fst m)" and d': "distinct (map fst (filter p m))"
    using assms wf_filter wf_distinct by blast+
  have "map_of (filter p m) k = Some v \<longleftrightarrow> map_of m k = Some v \<and> p (k, v)" for v
    using d d' by (simp add: map_of_eq_Some_iff)
  then show ?thesis
    by (metis (mono_tags, lifting) not_None_eq option.case(1) option.case(2))
qed

end

section \<open>HashMap\<close>

definition hm_wf :: "('k \<times> 'v) list \<Rightarrow> bool" where
  "hm_wf m \<longleftrightarrow> distinct (map fst m)"

abbreviation hm_get :: "('k \<times> 'v) list \<Rightarrow> 'k \<Rightarrow> 'v option" where
  "hm_get m k \<equiv> map_of m k"

definition hm_insert :: "'k \<Rightarrow> 'v \<Rightarrow> ('k \<times> 'v) list \<Rightarrow> ('k \<times> 'v) list" where
  "hm_insert k v m = AList.update k v m"

definition hm_remove :: "'k \<Rightarrow> ('k \<times> 'v) list \<Rightarrow> ('k \<times> 'v) list" where
  "hm_remove k m = filter (\<lambda>e. fst e \<noteq> k) m"

definition hm_retain :: "('k \<Rightarrow> 'v \<Rightarrow> bool) \<Rightarrow> ('k \<times> 'v) list \<Rightarrow> ('k \<times> 'v) list" where
  "hm_retain p m = filter (\<lambda>(k, v). p k v) m"

lemma map_of_remove: "map_of (filter (\<lambda>e. fst e \<noteq> k) m) = (map_of m)(k := None)"
  by (induction m) (auto simp: fun_eq_iff)

interpretation hm: finite_map hm_wf hm_insert hm_remove
proof unfold_locales
  fix m :: "('k \<times> 'v) list" and k v p
  assume "hm_wf m"
  then show "hm_wf (hm_insert k v m)"
    by (simp add: hm_wf_def hm_insert_def distinct_update)
  show "hm_wf (filter p m)"
    using \<open>hm_wf m\<close> by (simp add: hm_wf_def distinct_map_filter)
  then show "hm_wf (hm_remove k m)"
    using \<open>hm_wf m\<close> by (simp add: hm_wf_def hm_remove_def distinct_map_filter)
qed (auto simp: hm_wf_def hm_insert_def hm_remove_def update_conv' map_of_remove)

lemma hm_wf_retain [simp]: "hm_wf m \<Longrightarrow> hm_wf (hm_retain p m)"
  by (simp add: hm_retain_def hm.wf_filter)

lemma hm_get_retain:
  "hm_wf m \<Longrightarrow> hm_get (hm_retain p m) k =
    (case hm_get m k of None \<Rightarrow> None | Some v \<Rightarrow> if p k v then Some v else None)"
  by (simp add: hm_retain_def hm.map_of_filter split: option.splits)

section \<open>BTreeMap\<close>

definition bt_wf :: "('k::linorder \<times> 'v) list \<Rightarrow> bool" where
  "bt_wf m \<longleftrightarrow> sorted_wrt (<) (map fst m)"

fun bt_insert :: "'k::linorder \<Rightarrow> 'v \<Rightarrow> ('k \<times> 'v) list \<Rightarrow> ('k \<times> 'v) list" where
  "bt_insert k v [] = [(k, v)]"
| "bt_insert k v ((a, b) # m) =
     (if k < a then (k, v) # (a, b) # m
      else if k = a then (k, v) # m
      else (a, b) # bt_insert k v m)"

definition bt_remove :: "'k::linorder \<Rightarrow> ('k \<times> 'v) list \<Rightarrow> ('k \<times> 'v) list" where
  "bt_remove k m = filter (\<lambda>e. fst e \<noteq> k) m"

abbreviation bt_keys :: "('k \<times> 'v) list \<Rightarrow> 'k list" where
  "bt_keys m \<equiv> map fst m"

abbreviation bt_values :: "('k \<times> 'v) list \<Rightarrow> 'v list" where
  "bt_values m \<equiv> map snd m"

lemma keys_bt_insert: "set (map fst (bt_insert k v m)) = insert k (set (map fst m))"
  by (induction k v m rule: bt_insert.induct) auto

lemma bt_wf_insert: "bt_wf m \<Longrightarrow> bt_wf (bt_insert k v m)"
proof (induction k v m rule: bt_insert.induct)
  case (2 k v a b m)
  have "\<And>x. x \<in> set (map fst (bt_insert k v m)) \<Longrightarrow> x = k \<or> x \<in> fst ` set m"
    using keys_bt_insert [of k v m] by simp
  with 2 show ?case by (fastforce simp: bt_wf_def)
qed (simp add: bt_wf_def)

lemma bt_wf_distinct: "bt_wf m \<Longrightarrow> distinct (map fst m)"
  by (simp add: bt_wf_def strict_sorted_iff)

lemma bt_wf_filter: "bt_wf m \<Longrightarrow> bt_wf (filter p m)"
  by (auto simp: bt_wf_def sorted_wrt_map sorted_wrt_filter)

lemma map_of_bt_insert: "map_of (bt_insert k v m) = (map_of m)(k \<mapsto> v)"
  by (induction k v m rule: bt_insert.induct) (auto simp: fun_eq_iff)

interpretation bt: finite_map bt_wf bt_insert bt_remove
  by unfold_locales
    (simp_all add: bt_wf_insert bt_wf_distinct bt_wf_filter map_of_bt_insert
      bt_remove_def map_of_remove, simp add: bt_wf_def)

text \<open>An insertion behind all present keys appends: the case of a fresh sequence number.\<close>

lemma bt_insert_greatest:
  "(\<And>x. x \<in> set (map fst m) \<Longrightarrow> x < k) \<Longrightarrow> bt_insert k v m = m @ [(k, v)]"
proof (induction m)
  case (Cons e m)
  obtain a b where e: "e = (a, b)" by (cases e)
  from Cons.prems [of a] have "\<not> k < a" "k \<noteq> a" by (auto simp: e)
  with Cons show ?case by (simp add: e)
qed simp

end
