(* ===== verification/Ppose_Arq.thy ===== *)
theory Ppose_Arq
  imports Ppose_Frame Ppose_Containers
begin

text \<open>
  The selective-repeat ARQ of \<^verbatim>\<open>src/reliability/arq.rs\<close>: the endpoint state
  \<open>arq\<close> with every operation of \<^verbatim>\<open>impl Arq\<close>.  Operations on \<^verbatim>\<open>&mut self\<close>
  return their result paired with the new state; where the code calls
  \<^verbatim>\<open>expect("key")\<close> the model returns \<open>None\<close> for the panic, and it is shown that this
  never happens.  The theorems about one endpoint are in \<open>Ppose_Arq_Window\<close>, those
  about two endpoints and a network in \<open>Ppose_Arq_System\<close>.
\<close>

unbundle bit_operations_syntax

section \<open>State\<close>

definition WINDOW_SIZE :: u32 where
  "WINDOW_SIZE = 32"

definition DEFAULT_RETX :: duration where
  "DEFAULT_RETX = from_millis 200"

definition DEFAULT_MAX_ATTEMPTS :: u8 where
  "DEFAULT_MAX_ATTEMPTS = 5"

datatype arq_error = ArqTooLarge | ArqFrame frame_error

record outgoing =
  og_plaintext :: bytes
  og_last_sent :: "instant option"
  og_attempts :: u8

record frag_buf =
  fb_total :: u8
  fb_parts :: "bytes option list"

record arq =
  next_seq :: u32
  next_frag_id :: u16
  unacked :: "(u32 \<times> outgoing) list"
  recv_base :: u32
  recv_bits :: u64
  fragments :: "(u16 \<times> frag_buf) list"
  delivered :: "bytes list"
  pending_ack :: bool
  max_attempts :: u8
  retx :: duration

record arq_give_up =
  gu_seq :: u32
  gu_attempts :: u8

definition arq_new :: arq where
  "arq_new = \<lparr>next_seq = 0, next_frag_id = 1, unacked = [], recv_base = 0, recv_bits = 0,
     fragments = [], delivered = [], pending_ack = False,
     max_attempts = DEFAULT_MAX_ATTEMPTS, retx = DEFAULT_RETX\<rparr>"

section \<open>Sending\<close>

text \<open>\<^verbatim>\<open>slice::chunks\<close>.\<close>

function chunks :: "nat \<Rightarrow> 'a list \<Rightarrow> 'a list list" where
  "chunks n xs = (if n = 0 \<or> xs = [] then [] else take n xs # chunks n (drop n xs))"
  by pat_completeness auto
termination
  by (relation "measure (\<lambda>(n, xs). length xs)") auto

declare chunks.simps [simp del]

fun enqueue_chunks :: "u16 \<Rightarrow> u8 \<Rightarrow> nat \<Rightarrow> bytes list \<Rightarrow> arq \<Rightarrow> arq" where
  "enqueue_chunks frag_id tot i [] a = a"
| "enqueue_chunks frag_id tot i (chunk # cs) a =
     (let seq = next_seq a;
          a1 = a\<lparr>next_seq := seq + 1\<rparr>;
          pt = encode_data seq frag_id (of_nat i) tot chunk;
          a2 = a1\<lparr>unacked := bt_insert seq
                 \<lparr>og_plaintext = pt, og_last_sent = None, og_attempts = 0\<rparr> (unacked a1)\<rparr>
      in enqueue_chunks frag_id tot (Suc i) cs a2)"

definition enqueue_one :: "arq \<Rightarrow> bytes \<Rightarrow> (arq_error + unit) \<times> arq" where
  "enqueue_one a message =
     (let seq = next_seq a;
          a1 = a\<lparr>next_seq := seq + 1\<rparr>;
          pt = encode_data seq 0 0 1 message
      in (Inr (), a1\<lparr>unacked := bt_insert seq
            \<lparr>og_plaintext = pt, og_last_sent = None, og_attempts = 0\<rparr> (unacked a1)\<rparr>))"

definition bump_frag_id :: "arq \<Rightarrow> arq" where
  "bump_frag_id a =
     (let a1 = a\<lparr>next_frag_id := next_frag_id a + 1\<rparr>
      in if next_frag_id a1 = 0 then a1\<lparr>next_frag_id := 1\<rparr> else a1)"

definition enqueue :: "arq \<Rightarrow> bytes \<Rightarrow> (arq_error + unit) \<times> arq" where
  "enqueue a message =
     (if message = [] then enqueue_one a message
      else
        let cs = chunks MAX_PAYLOAD message
        in if length cs > 255 then (Inl ArqTooLarge, a)
           else (Inr (), enqueue_chunks (next_frag_id a) (of_nat (length cs)) 0 cs
                   (bump_frag_id a)))"

definition in_flight_sent :: "arq \<Rightarrow> u32" where
  "in_flight_sent a = of_nat (length (filter (\<lambda>o'. og_last_sent o' \<noteq> None) (bt_values (unacked a))))"

fun new_sends_loop ::
  "instant \<Rightarrow> u32 list \<Rightarrow> u32 \<Rightarrow> (u32 \<times> outgoing) list \<Rightarrow> bytes list
     \<Rightarrow> (bytes list \<times> (u32 \<times> outgoing) list) option" where
  "new_sends_loop now [] sent m out = Some (out, m)"
| "new_sends_loop now (seq # ks) sent m out =
     (if sent \<ge> WINDOW_SIZE then Some (out, m)
      else case map_of m seq of
          None \<Rightarrow> None
        | Some slot \<Rightarrow>
            if og_last_sent slot \<noteq> None then new_sends_loop now ks sent m out
            else new_sends_loop now ks (sent + 1)
                   (bt_insert seq (slot\<lparr>og_last_sent := Some now, og_attempts := 1\<rparr>) m)
                   (out @ [og_plaintext slot]))"

definition take_new_sends :: "arq \<Rightarrow> instant \<Rightarrow> (bytes list \<times> arq) option" where
  "take_new_sends a now =
     map_option (\<lambda>(out, m). (out, a\<lparr>unacked := m\<rparr>))
       (new_sends_loop now (bt_keys (unacked a)) (in_flight_sent a) (unacked a) [])"

fun retransmit_loop ::
  "instant \<Rightarrow> duration \<Rightarrow> u8 \<Rightarrow> u32 list \<Rightarrow> (u32 \<times> outgoing) list \<Rightarrow> bytes list
     \<Rightarrow> ((arq_give_up + bytes list) \<times> (u32 \<times> outgoing) list) option" where
  "retransmit_loop now rt ma [] m out = Some (Inr out, m)"
| "retransmit_loop now rt ma (seq # ks) m out =
     (case map_of m seq of
        None \<Rightarrow> None
      | Some slot \<Rightarrow>
          (case og_last_sent slot of
             None \<Rightarrow> retransmit_loop now rt ma ks m out
           | Some last' \<Rightarrow>
               if now - last' < rt then retransmit_loop now rt ma ks m out
               else if og_attempts slot \<ge> ma
               then Some (Inl \<lparr>gu_seq = seq, gu_attempts = og_attempts slot\<rparr>, m)
               else retransmit_loop now rt ma ks
                      (bt_insert seq (slot\<lparr>og_attempts := og_attempts slot + 1,
                                           og_last_sent := Some now\<rparr>) m)
                      (out @ [og_plaintext slot])))"

definition take_retransmits :: "arq \<Rightarrow> instant \<Rightarrow> ((arq_give_up + bytes list) \<times> arq) option" where
  "take_retransmits a now =
     map_option (\<lambda>(r, m). (r, a\<lparr>unacked := m\<rparr>))
       (retransmit_loop now (retx a) (max_attempts a) (bt_keys (unacked a)) (unacked a) [])"

section \<open>Receiving\<close>

definition acked :: "u32 \<Rightarrow> u64 \<Rightarrow> u32 \<Rightarrow> bool" where
  "acked base bitmap seq =
     (let ahead = seq - base
      in if ahead < 64 then drop_bit (unat ahead) bitmap AND 1 = 1
         else let behind = base - seq in behind > 0 \<and> behind < 1000000)"

definition on_ack :: "arq \<Rightarrow> u32 \<Rightarrow> u64 \<Rightarrow> arq" where
  "on_ack a base bitmap =
     a\<lparr>unacked := fold (\<lambda>seq m. if acked base bitmap seq then bt_remove seq m else m)
        (bt_keys (unacked a)) (unacked a)\<rparr>"

text \<open>The loop \<^verbatim>\<open>while recv_bits & 1 == 1\<close>.\<close>

function advance :: "u32 \<Rightarrow> u64 \<Rightarrow> u32 \<times> u64" where
  "advance base bits =
     (if bits AND 1 = 1 then advance (base + 1) (drop_bit 1 bits) else (base, bits))"
  by pat_completeness auto
termination
proof (relation "measure (\<lambda>(base, bits). unat bits)")
  fix base :: u32 and bits :: u64
  assume "bits AND 1 = 1"
  then have "bits \<noteq> 0" by auto
  then have "0 < unat bits" by (simp add: unat_gt_0)
  moreover have "unat (drop_bit 1 bits) = unat bits div 2"
    by (simp add: drop_bit_eq_div unat_div)
  ultimately show "((base + 1, drop_bit 1 bits), base, bits) \<in> measure (\<lambda>(base, bits). unat bits)"
    by simp
qed simp

declare advance.simps [simp del]

definition mark_received :: "arq \<Rightarrow> u32 \<Rightarrow> bool \<times> arq" where
  "mark_received a seq =
     (let ahead = seq - recv_base a
      in if ahead \<ge> 64 then (False, a)
         else
           let bit' = push_bit (unat ahead) (1::u64)
           in if recv_bits a AND bit' \<noteq> 0 then (False, a)
              else case advance (recv_base a) (recv_bits a OR bit') of
                  (base, bits) \<Rightarrow> (True, a\<lparr>recv_base := base, recv_bits := bits\<rparr>))"

definition flatten :: "'a option list \<Rightarrow> 'a list" where
  "flatten ps = List.map_filter (\<lambda>p. p) ps"

definition store_fragment :: "arq \<Rightarrow> u16 \<Rightarrow> u8 \<Rightarrow> u8 \<Rightarrow> bytes \<Rightarrow> arq" where
  "store_fragment a frag_id index tot payload =
     (let buf = (case hm_get (fragments a) frag_id of
                   Some b \<Rightarrow> b
                 | None \<Rightarrow> \<lparr>fb_total = tot, fb_parts = replicate (unat tot) None\<rparr>);
          a1 = a\<lparr>fragments := hm_insert frag_id buf (fragments a)\<rparr>
      in if fb_total buf \<noteq> tot \<or> unat index \<ge> length (fb_parts buf) then a1
         else
           let parts = (fb_parts buf)[unat index := Some payload];
               a2 = a1\<lparr>fragments := hm_insert frag_id (buf\<lparr>fb_parts := parts\<rparr>) (fragments a1)\<rparr>
           in if list_all (\<lambda>p. p \<noteq> None) parts
              then a2\<lparr>fragments := hm_remove frag_id (fragments a2),
                      delivered := delivered a2 @ [concat (flatten parts)]\<rparr>
              else a2)"

definition on_data :: "arq \<Rightarrow> u32 \<Rightarrow> u16 \<Rightarrow> u8 \<Rightarrow> u8 \<Rightarrow> bytes \<Rightarrow> arq" where
  "on_data a seq frag_id index tot payload =
     (case mark_received a seq of
        (False, a1) \<Rightarrow> a1
      | (True, a1) \<Rightarrow>
          if tot = 1 then a1\<lparr>delivered := delivered a1 @ [payload]\<rparr>
          else store_fragment a1 frag_id index tot payload)"

definition ingest :: "arq \<Rightarrow> bytes \<Rightarrow> (arq_error + bytes option) \<times> arq" where
  "ingest a plaintext =
     (case decode_inner plaintext of
        Inl e \<Rightarrow> (Inl (ArqFrame e), a)
      | Inr (AckFrame base bitmap) \<Rightarrow> (Inr None, on_ack a base bitmap)
      | Inr (DataFrame seq frag_id index tot payload) \<Rightarrow>
          let a1 = (on_data a seq frag_id index tot payload)\<lparr>pending_ack := True\<rparr>
          in (Inr (Some (encode_ack (recv_base a1) (recv_bits a1))), a1))"

definition pop_delivered :: "arq \<Rightarrow> bytes option \<times> arq" where
  "pop_delivered a =
     (case delivered a of [] \<Rightarrow> (None, a) | m # ms \<Rightarrow> (Some m, a\<lparr>delivered := ms\<rparr>))"

definition take_ack :: "arq \<Rightarrow> bytes option \<times> arq" where
  "take_ack a =
     (if \<not> pending_ack a then (None, a)
      else (Some (encode_ack (recv_base a) (recv_bits a)), a\<lparr>pending_ack := False\<rparr>))"

definition unacked_len :: "arq \<Rightarrow> nat" where
  "unacked_len a = length (unacked a)"

definition set_retx :: "arq \<Rightarrow> duration \<Rightarrow> arq" where
  "set_retx a d = a\<lparr>retx := d\<rparr>"

end
