(* ===== verification/Ppose_Arq_Window.thy ===== *)
theory Ppose_Arq_Window
  imports Ppose_Arq
begin

text \<open>
  One ARQ endpoint (\<^verbatim>\<open>src/reliability/arq.rs\<close>): fragmentation, the loops over the
  unacknowledged frames in closed form, the receive window as a refinement of the set of
  received sequence numbers, the invariant \<open>arq_inv\<close> kept by every operation, and the
  properties of a single endpoint.
\<close>

unbundle bit_operations_syntax

section \<open>Fragmentation\<close>

lemma chunks_Nil [simp]: "chunks n [] = []"
  by (simp add: chunks.simps)

lemma chunks_nonempty: "0 < n \<Longrightarrow> xs \<noteq> [] \<Longrightarrow> chunks n xs = take n xs # chunks n (drop n xs)"
  by (simp add: chunks.simps)

lemma chunks_eq_Nil_iff: "0 < n \<Longrightarrow> chunks n xs = [] \<longleftrightarrow> xs = []"
  by (subst chunks.simps) simp

lemma concat_chunks: "0 < n \<Longrightarrow> concat (chunks n xs) = xs"
proof (induction n xs rule: chunks.induct)
  case (1 n xs)
  then show ?case by (cases "xs = []") (simp_all add: chunks_nonempty)
qed

lemma chunk_sizes: "0 < n \<Longrightarrow> c \<in> set (chunks n xs) \<Longrightarrow> 0 < length c \<and> length c \<le> n"
proof (induction n xs rule: chunks.induct)
  case (1 n xs)
  then show ?case by (cases "xs = []") (auto simp: chunks_nonempty)
qed

lemma length_chunks_le_iff: "0 < n \<Longrightarrow> length (chunks n xs) \<le> k \<longleftrightarrow> length xs \<le> k * n"
proof (induction n xs arbitrary: k rule: chunks.induct)
  case (1 n xs)
  show ?case
  proof (cases "xs = []")
    case False
    have eq: "chunks n xs = take n xs # chunks n (drop n xs)"
      using "1.prems" False by (rule chunks_nonempty)
    have IH: "length (chunks n (drop n xs)) \<le> k' \<longleftrightarrow> length xs - n \<le> k' * n" for k'
      using "1.IH" [of k'] "1.prems" False by simp
    show ?thesis
    proof (cases k)
      case (Suc k')
      show ?thesis using IH [of k'] by (simp add: eq Suc le_diff_conv add.commute)
    qed (simp add: eq False)
  qed simp
qed

lemma length_chunks_payload: "length (chunks MAX_PAYLOAD m) > 255 \<longleftrightarrow> length m > 261120"
proof -
  have "length (chunks MAX_PAYLOAD m) \<le> 255 \<longleftrightarrow> length m \<le> 255 * MAX_PAYLOAD"
    by (rule length_chunks_le_iff) (simp add: MAX_PAYLOAD_def)
  moreover have "255 * MAX_PAYLOAD = 261120" by (simp add: MAX_PAYLOAD_def)
  ultimately show ?thesis by (metis linorder_not_le)
qed

section \<open>The send loops, entry by entry\<close>

lemma bt_wf_middle:
  "bt_wf (pre @ (k, v) # suf) \<Longrightarrow> k \<notin> fst ` set pre \<and> (\<forall>x \<in> fst ` set pre. x < k)"
  by (auto simp: bt_wf_def sorted_wrt_append)

lemma map_of_middle: "bt_wf (pre @ (k, v) # suf) \<Longrightarrow> map_of (pre @ (k, v) # suf) k = Some v"
  using bt_wf_middle [of pre k v suf] by (simp add: map_add_Some_iff map_of_eq_None_iff)

lemma bt_insert_middle:
  "bt_wf (pre @ (k, v) # suf) \<Longrightarrow> bt_insert k w (pre @ (k, v) # suf) = pre @ (k, w) # suf"
proof (induction pre)
  case (Cons e pre)
  obtain a b where e: "e = (a, b)" by (cases e)
  from Cons.prems have "\<not> k < a" "k \<noteq> a" and "bt_wf (pre @ (k, v) # suf)"
    by (auto simp: e bt_wf_def)
  with Cons show ?case by (simp add: e)
qed simp

lemma bt_wf_replace: "bt_wf (pre @ (k, v) # suf) \<Longrightarrow> bt_wf (pre @ (k, w) # suf)"
  by (simp add: bt_wf_def)

lemma bt_wf_keys_cong: "map fst m = map fst m' \<Longrightarrow> bt_wf m \<longleftrightarrow> bt_wf m'"
  by (simp add: bt_wf_def)

definition unsent :: "outgoing \<Rightarrow> bool" where
  "unsent o' \<longleftrightarrow> og_last_sent o' = None"

definition mark_sent :: "instant \<Rightarrow> outgoing \<Rightarrow> outgoing" where
  "mark_sent now o' = o'\<lparr>og_last_sent := Some now, og_attempts := 1\<rparr>"

text \<open>Marking the first \<open>k\<close> unsent entries.\<close>

fun mark_first :: "instant \<Rightarrow> nat \<Rightarrow> (u32 \<times> outgoing) list \<Rightarrow> (u32 \<times> outgoing) list" where
  "mark_first now 0 m = m"
| "mark_first now (Suc k) [] = []"
| "mark_first now (Suc k) ((q, o') # m) =
     (if unsent o' then (q, mark_sent now o') # mark_first now k m
      else (q, o') # mark_first now (Suc k) m)"

lemma mark_first_Nil [simp]: "mark_first now k [] = []"
  by (cases k) simp_all

lemma map_fst_mark_first [simp]: "map fst (mark_first now k m) = map fst m"
  by (induction now k m rule: mark_first.induct) simp_all

lemma u32_window_step:
  fixes sent :: u32
  assumes "\<not> WINDOW_SIZE \<le> sent"
  shows "32 - unat sent = Suc (32 - unat (sent + 1))"
proof -
  from assms have "unat sent < 32"
    by (simp add: WINDOW_SIZE_def word_le_nat_alt not_le)
  moreover from this have "unat (sent + 1) = unat sent + 1"
    using unat_add_lem [of sent 1] by simp
  ultimately show ?thesis by simp
qed

lemma new_sends_loop_eq:
  assumes "bt_wf (pre @ suf)"
  shows "new_sends_loop now (map fst suf) sent (pre @ suf) out =
    Some (out @ take (32 - unat sent) (map (\<lambda>e. og_plaintext (snd e)) (filter (\<lambda>e. unsent (snd e)) suf)),
          pre @ mark_first now (32 - unat sent) suf)"
  using assms
proof (induction suf arbitrary: pre sent out)
  case (Cons e suf)
  obtain q o' where e: "e = (q, o')" by (cases e)
  note wf = Cons.prems [unfolded e]
  have IH: "new_sends_loop now (map fst suf) s ((pre @ [(q, w)]) @ suf) out' =
    Some (out' @ take (32 - unat s) (map (\<lambda>e. og_plaintext (snd e)) (filter (\<lambda>e. unsent (snd e)) suf)),
          (pre @ [(q, w)]) @ mark_first now (32 - unat s) suf)" for s w out'
    using Cons.IH [of "pre @ [(q, w)]"] bt_wf_replace [OF wf, of w] by simp
  show ?case
  proof (cases "WINDOW_SIZE \<le> sent")
    case True
    then have "32 - unat sent = 0"
      by (simp add: WINDOW_SIZE_def word_le_nat_alt)
    with True show ?thesis by (simp add: e)
  next
    case False
    note step = u32_window_step [OF False]
    show ?thesis
    proof (cases "unsent o'")
      case True
      then show ?thesis
        using False step IH [of "sent + 1" "mark_sent now o'"]
        by (simp add: e map_of_middle [OF wf] bt_insert_middle [OF wf] unsent_def mark_sent_def
            del: map_of_append)
    next
      case unsent: False
      then show ?thesis
        using False step IH [of sent o' out]
        by (auto simp: e map_of_middle [OF wf] unsent_def simp del: map_of_append)
    qed
  qed
qed simp

definition due :: "instant \<Rightarrow> duration \<Rightarrow> outgoing \<Rightarrow> bool" where
  "due now rt o' \<longleftrightarrow> (case og_last_sent o' of None \<Rightarrow> False | Some t \<Rightarrow> rt \<le> now - t)"

definition mark_resent :: "instant \<Rightarrow> outgoing \<Rightarrow> outgoing" where
  "mark_resent now o' = o'\<lparr>og_attempts := og_attempts o' + 1, og_last_sent := Some now\<rparr>"

definition exhausted :: "instant \<Rightarrow> duration \<Rightarrow> u8 \<Rightarrow> outgoing \<Rightarrow> bool" where
  "exhausted now rt ma o' \<longleftrightarrow> due now rt o' \<and> ma \<le> og_attempts o'"

definition mark_due :: "instant \<Rightarrow> duration \<Rightarrow> (u32 \<times> outgoing) list \<Rightarrow> (u32 \<times> outgoing) list" where
  "mark_due now rt m = map (\<lambda>(q, o'). (q, if due now rt o' then mark_resent now o' else o')) m"

definition due_frames :: "instant \<Rightarrow> duration \<Rightarrow> (u32 \<times> outgoing) list \<Rightarrow> bytes list" where
  "due_frames now rt m = map (\<lambda>e. og_plaintext (snd e)) (filter (\<lambda>e. due now rt (snd e)) m)"

lemma map_fst_mark_due [simp]: "map fst (mark_due now rt m) = map fst m"
  by (induction m) (auto simp: mark_due_def)

lemma retransmit_loop_go:
  assumes "bt_wf (pre @ suf)" and "\<And>q o'. (q, o') \<in> set suf \<Longrightarrow> \<not> exhausted now rt ma o'"
  shows "retransmit_loop now rt ma (map fst suf) (pre @ suf) out =
    Some (Inr (out @ due_frames now rt suf), pre @ mark_due now rt suf)"
  using assms
proof (induction suf arbitrary: pre out)
  case (Cons e suf)
  obtain q o' where e: "e = (q, o')" by (cases e)
  note wf = Cons.prems(1) [unfolded e]
  have ex: "\<not> exhausted now rt ma o'" using Cons.prems(2) [of q o'] by (simp add: e)
  have IH: "retransmit_loop now rt ma (map fst suf) (pre @ (q, w) # suf) out' =
    Some (Inr (out' @ due_frames now rt suf), (pre @ [(q, w)]) @ mark_due now rt suf)" for w out'
    using Cons.IH [of "pre @ [(q, w)]"] Cons.prems(2) bt_wf_replace [OF wf, of w] by auto
  show ?case
  proof (cases "og_last_sent o'")
    case None
    then show ?thesis
      using IH [of o']
      by (simp add: e map_of_middle [OF wf] due_frames_def mark_due_def due_def del: map_of_append)
  next
    case (Some t)
    then show ?thesis
      using IH [of o' out] IH [of "mark_resent now o'"] ex
      by (auto simp: e map_of_middle [OF wf] bt_insert_middle [OF wf] due_frames_def mark_due_def
          due_def exhausted_def mark_resent_def not_less not_le simp del: map_of_append)
  qed
qed (simp add: due_frames_def mark_due_def)

lemma retransmit_loop_give_up:
  assumes "bt_wf (pre @ mid @ (q, o') # suf)" and "exhausted now rt ma o'"
    and "\<And>p x. (p, x) \<in> set mid \<Longrightarrow> \<not> exhausted now rt ma x"
  shows "retransmit_loop now rt ma (map fst (mid @ (q, o') # suf)) (pre @ mid @ (q, o') # suf) out =
    Some (Inl \<lparr>gu_seq = q, gu_attempts = og_attempts o'\<rparr>, pre @ mark_due now rt mid @ (q, o') # suf)"
  using assms
proof (induction mid arbitrary: pre out)
  case Nil
  then show ?case
    using map_of_middle [of pre q o' suf]
    by (auto simp: exhausted_def due_def mark_due_def simp del: map_of_append split: option.splits)
next
  case (Cons e mid)
  obtain p x where e: "e = (p, x)" by (cases e)
  note wf = Cons.prems(1) [unfolded e append_Cons]
  have ex: "\<not> exhausted now rt ma x" using Cons.prems(3) [of p x] by (simp add: e)
  have IH: "retransmit_loop now rt ma (map fst (mid @ (q, o') # suf))
      (pre @ (p, w) # mid @ (q, o') # suf) out' =
    Some (Inl \<lparr>gu_seq = q, gu_attempts = og_attempts o'\<rparr>,
      (pre @ [(p, w)]) @ mark_due now rt mid @ (q, o') # suf)" for w out'
    using Cons.IH [of "pre @ [(p, w)]"] Cons.prems(2,3) bt_wf_replace [OF wf, of w] by auto
  show ?case
  proof (cases "og_last_sent x")
    case None
    then show ?thesis
      using IH [of x] by (simp add: e map_of_middle [OF wf] mark_due_def due_def del: map_of_append)
  next
    case (Some t)
    then show ?thesis
      using IH [of x out] IH [of "mark_resent now x"] ex
      by (auto simp: e map_of_middle [OF wf] bt_insert_middle [OF wf] mark_due_def
          due_def exhausted_def mark_resent_def not_less not_le simp del: map_of_append)
  qed
qed

lemma on_ack_filter:
  "unacked (on_ack a base bitmap) = filter (\<lambda>e. \<not> acked base bitmap (fst e)) (unacked a)"
proof -
  have "fold (\<lambda>seq m. if acked base bitmap seq then bt_remove seq m else m) ks m =
      filter (\<lambda>e. \<not> (fst e \<in> set ks \<and> acked base bitmap (fst e))) m" for ks and m :: "(u32 \<times> outgoing) list"
  proof (induction ks arbitrary: m)
    case (Cons k ks)
    show ?case
      by (auto simp: Cons bt_remove_def intro: filter_cong)
  qed simp
  then show ?thesis
    by (auto simp: on_ack_def intro: filter_cong)
qed

section \<open>The receive window\<close>

lemma and_1_eq_1_iff: "(w::'a::len word) AND 1 = 1 \<longleftrightarrow> bit w 0"
  by (simp add: and_one_eq bit_0 odd_iff_mod_2_eq_one)

definition window_rel :: "nat set \<Rightarrow> nat \<Rightarrow> u32 \<Rightarrow> u64 \<Rightarrow> bool" where
  "window_rel S n base bits \<longleftrightarrow>
     base = of_nat n \<and> {..<n} \<subseteq> S \<and> S \<subseteq> {..<n + 64} \<and> (\<forall>i<64. bit bits i \<longleftrightarrow> n + i \<in> S)"

lemma window_rel_empty: "window_rel {} 0 0 0"
  by (simp add: window_rel_def)

lemma window_rel_shift:
  assumes "window_rel S n base bits" and "bit bits 0"
  shows "window_rel S (Suc n) (base + 1) (drop_bit 1 bits)"
proof -
  from assms have n: "n \<in> S" by (auto simp: window_rel_def)
  have "bit (drop_bit 1 bits) i \<longleftrightarrow> Suc n + i \<in> S" if "i < 64" for i
  proof (cases "i = 63")
    case True
    have "n + 64 \<notin> S" using assms(1) by (auto simp: window_rel_def)
    moreover have "\<not> bit bits 64"
      using bit_imp_le_length [of bits 64] by auto
    ultimately show ?thesis using True by (simp add: bit_drop_bit_eq add.commute)
  next
    case False
    with that have "Suc i < 64" by simp
    with assms(1) have "bit bits (Suc i) \<longleftrightarrow> n + Suc i \<in> S"
      unfolding window_rel_def by blast
    then show ?thesis by (simp add: bit_drop_bit_eq)
  qed
  moreover have "{..<Suc n} \<subseteq> S"
    using assms(1) n by (auto simp: window_rel_def less_Suc_eq)
  moreover have "S \<subseteq> {..<Suc n + 64}"
    using assms(1) by (force simp: window_rel_def)
  moreover have "base + 1 = of_nat (Suc n)"
    using assms(1) by (simp add: window_rel_def)
  ultimately show ?thesis by (simp add: window_rel_def)
qed

lemma advance_window_rel:
  assumes "window_rel S n base bits"
  shows "\<exists>n'. window_rel S n' (fst (advance base bits)) (snd (advance base bits)) \<and> n' \<notin> S"
  using assms
proof (induction base bits arbitrary: n rule: advance.induct)
  case (1 base bits)
  show ?case
  proof (cases "bit bits 0")
    case True
    have "\<exists>n'. window_rel S n' (fst (advance (base + 1) (drop_bit 1 bits)))
        (snd (advance (base + 1) (drop_bit 1 bits))) \<and> n' \<notin> S"
      using True "1.IH" window_rel_shift [OF "1.prems" True] by (simp add: and_1_eq_1_iff)
    with True show ?thesis
      by (simp add: and_1_eq_1_iff advance.simps [of base bits])
  next
    case False
    with "1.prems" have "n \<notin> S" by (auto simp: window_rel_def)
    with False "1.prems" show ?thesis
      by (auto simp: and_1_eq_1_iff advance.simps [of base bits])
  qed
qed

text \<open>Distances between sequence numbers modulo \<open>2 ^ 32\<close>.\<close>

lemma seq_ahead: "n \<le> k \<Longrightarrow> k - n < 2 ^ 32 \<Longrightarrow> unat (of_nat k - of_nat n :: u32) = k - n"
  by (simp add: of_nat_diff [symmetric] unat_of_nat del: of_nat_diff)

lemma seq_behind:
  assumes "k < n" and "n - k < 2 ^ 32"
  shows "unat (of_nat k - of_nat n :: u32) = 2 ^ 32 - (n - k)"
proof -
  have "(of_nat k - of_nat n :: u32) = of_nat (2 ^ 32 - (n - k))"
    using assms by (simp add: of_nat_diff)
  moreover have "unat (of_nat (2 ^ 32 - (n - k)) :: u32) = 2 ^ 32 - (n - k)"
    using assms by (simp add: unat_of_nat del: of_nat_diff)
  ultimately show ?thesis by (simp only:)
qed

lemma and_push_bit_1_iff: "(w::u64) AND push_bit i 1 \<noteq> 0 \<longleftrightarrow> bit w i"
  by (simp add: push_bit_eq_mult and_exp_eq_0_iff_not_bit)

lemma window_rel_insert:
  assumes "window_rel S n base bits" and "i < 64"
  shows "window_rel (insert (n + i) S) n base (bits OR push_bit i 1)"
proof -
  have "bit (bits OR push_bit i 1) j \<longleftrightarrow> n + j \<in> insert (n + i) S" if "j < 64" for j
    using assms that by (auto simp: window_rel_def bit_or_iff push_bit_eq_mult bit_exp_iff)
  then show ?thesis
    using assms by (auto simp: window_rel_def)
qed

lemma mark_received_window:
  assumes rel: "window_rel S n (recv_base a) (recv_bits a)" and new: "n \<notin> S"
    and near: "n \<le> k + (2 ^ 32 - 64)" "k < n + 2 ^ 32"
    and mr: "mark_received a (of_nat k) = (r, a')"
  shows "(r \<longleftrightarrow> k \<notin> S \<and> k < n + 64) \<and>
    (\<exists>n'. window_rel (if r then insert k S else S) n' (recv_base a') (recv_bits a')
       \<and> n' \<notin> (if r then insert k S else S))"
proof -
  have base: "recv_base a = of_nat n" using rel by (simp add: window_rel_def)
  have ahead: "(64 \<le> (of_nat k - recv_base a)) \<longleftrightarrow> k < n \<or> n + 64 \<le> k"
    using near seq_ahead [of n k] seq_behind [of k n]
    by (cases "n \<le> k") (auto simp: base word_le_nat_alt)
  show ?thesis
  proof (cases "k < n \<or> n + 64 \<le> k")
    case True
    then have "\<not> (k \<notin> S \<and> k < n + 64)"
      using rel by (auto simp: window_rel_def)
    moreover have "r = False" "a' = a"
      using mr True ahead by (simp_all add: mark_received_def Let_def)
    ultimately show ?thesis using rel new by auto
  next
    case False
    define i where "i = k - n"
    have i: "i < 64" "k = n + i" using False by (auto simp: i_def)
    have u: "unat (of_nat k - recv_base a) = i"
      using seq_ahead [of n k] i by (simp add: base)
    have bit: "recv_bits a AND push_bit i 1 \<noteq> 0 \<longleftrightarrow> k \<in> S"
      using rel i and_push_bit_1_iff [of "recv_bits a" i] by (simp add: window_rel_def)
    let ?adv = "advance (recv_base a) (recv_bits a OR push_bit i 1)"
    have "\<exists>n'. window_rel (insert k S) n' (fst ?adv) (snd ?adv) \<and> n' \<notin> insert k S"
      using advance_window_rel [OF window_rel_insert [OF rel i(1)]] i(2) by simp
    moreover have "k \<notin> S \<Longrightarrow> r \<and> recv_base a' = fst ?adv \<and> recv_bits a' = snd ?adv"
      and "k \<in> S \<Longrightarrow> \<not> r \<and> a' = a"
      using mr False ahead bit by (auto simp: mark_received_def Let_def u split: prod.splits)
    ultimately show ?thesis using rel new i by (cases "k \<in> S") auto
  qed
qed

lemma mark_received_frame:
  "mark_received a seq = (r, a') \<Longrightarrow> \<exists>x y. a' = a\<lparr>recv_base := x, recv_bits := y\<rparr>"
  by (fastforce simp: mark_received_def Let_def split: if_splits prod.splits
      intro: exI [of _ "recv_base a"] exI [of _ "recv_bits a"])

lemma advance_even: "\<not> bit (snd (advance base bits)) 0"
proof (induction base bits rule: advance.induct)
  case (1 base bits)
  then show ?case
    by (cases "bit bits 0") (simp_all add: and_1_eq_1_iff advance.simps [of base bits])
qed

lemma mark_received_even:
  "mark_received a seq = (r, a') \<Longrightarrow> \<not> bit (recv_bits a) 0 \<Longrightarrow> \<not> bit (recv_bits a') 0"
  using advance_even [of "recv_base a"]
  by (auto simp: mark_received_def Let_def split: if_splits prod.splits) (metis snd_conv)

lemma acked_window:
  assumes rel: "window_rel S n base bits"
    and near: "k < n + (2 ^ 32 - 1000000)" "n < k + 1000000"
  shows "acked base bits (of_nat k) \<longleftrightarrow> k \<in> S"
proof -
  have base: "base = of_nat n" using rel by (simp add: window_rel_def)
  consider (behind) "k < n" | (inside) "n \<le> k" "k < n + 64" | (beyond) "n + 64 \<le> k"
    by linarith
  then show ?thesis
  proof cases
    case behind
    then have "k \<in> S" using rel by (auto simp: window_rel_def)
    moreover have "unat (of_nat k - base :: u32) = 2 ^ 32 - (n - k)"
      using seq_behind [of k n] behind near by (simp add: base)
    moreover have "unat (base - of_nat k :: u32) = n - k"
      using seq_ahead [of k n] behind near by (simp add: base)
    ultimately show ?thesis
      using behind near by (auto simp: acked_def Let_def word_less_nat_alt)
  next
    case inside
    then have "unat (of_nat k - base :: u32) = k - n"
      using seq_ahead [of n k] by (simp add: base)
    moreover have "bit bits (k - n) \<longleftrightarrow> k \<in> S"
      using rel inside by (auto simp: window_rel_def)
    ultimately show ?thesis
      using inside
      by (auto simp: acked_def Let_def word_less_nat_alt and_1_eq_1_iff bit_drop_bit_eq)
  next
    case beyond
    then have "unat (of_nat k - base :: u32) = k - n" and "unat (base - of_nat k :: u32) = 2 ^ 32 - (k - n)"
      using seq_ahead [of n k] seq_behind [of n k] near by (simp_all add: base)
    moreover have "k \<notin> S" using rel beyond by (auto simp: window_rel_def)
    ultimately show ?thesis
      using beyond near by (auto simp: acked_def Let_def word_less_nat_alt)
  qed
qed

section \<open>The endpoint invariant\<close>

definition in_flight :: "(u32 \<times> outgoing) list \<Rightarrow> nat" where
  "in_flight m = length (filter (\<lambda>e. \<not> unsent (snd e)) m)"

definition slot_ok :: "u8 \<Rightarrow> outgoing \<Rightarrow> bool" where
  "slot_ok ma o' \<longleftrightarrow> (og_last_sent o' = None \<longleftrightarrow> og_attempts o' = 0) \<and> og_attempts o' \<le> ma"

definition buf_ok :: "frag_buf \<Rightarrow> bool" where
  "buf_ok b \<longleftrightarrow> length (fb_parts b) = unat (fb_total b) \<and> 2 \<le> fb_total b \<and> None \<in> set (fb_parts b)"

definition arq_inv :: "arq \<Rightarrow> bool" where
  "arq_inv a \<longleftrightarrow>
     bt_wf (unacked a) \<and> hm_wf (fragments a) \<and> next_frag_id a \<noteq> 0 \<and> 1 \<le> max_attempts a \<and>
     \<not> bit (recv_bits a) 0 \<and> in_flight (unacked a) \<le> 32 \<and>
     (\<forall>q o'. (q, o') \<in> set (unacked a) \<longrightarrow> slot_ok (max_attempts a) o') \<and>
     (\<forall>f b. (f, b) \<in> set (fragments a) \<longrightarrow> buf_ok b)"

text \<open>One rule per operation of \<^verbatim>\<open>impl Arq\<close>; \<open>ingest\<close> is given any bytes.\<close>

inductive arq_step :: "arq \<Rightarrow> arq \<Rightarrow> bool" where
  step_enqueue: "enqueue a m = (r, a') \<Longrightarrow> arq_step a a'"
| step_new_sends: "take_new_sends a now = Some (out, a') \<Longrightarrow> arq_step a a'"
| step_retransmits: "take_retransmits a now = Some (res, a') \<Longrightarrow> arq_step a a'"
| step_ingest: "ingest a pt = (ir, a') \<Longrightarrow> arq_step a a'"
| step_pop: "pop_delivered a = (pr, a') \<Longrightarrow> arq_step a a'"
| step_take_ack: "take_ack a = (k, a') \<Longrightarrow> arq_step a a'"
| step_set_retx: "arq_step a (set_retx a d)"

abbreviation arq_reachable :: "arq \<Rightarrow> bool" where
  "arq_reachable \<equiv> reach arq_new arq_step"

lemma arq_inv_new: "arq_inv arq_new"
  by (simp add: arq_inv_def arq_new_def bt_wf_def hm_wf_def in_flight_def DEFAULT_MAX_ATTEMPTS_def
      word_le_nat_alt)

lemma in_flight_insert_unsent: "unsent o' \<Longrightarrow> in_flight (bt_insert q o' m) \<le> in_flight m"
  by (induction q o' m rule: bt_insert.induct) (auto simp: in_flight_def)

lemma set_bt_insert_subset: "set (bt_insert q o' m) \<subseteq> insert (q, o') (set m)"
  by (induction q o' m rule: bt_insert.induct) auto

lemma arq_inv_insert_fresh:
  assumes "arq_inv a" and "o' = \<lparr>og_plaintext = pt, og_last_sent = None, og_attempts = 0\<rparr>"
  shows "arq_inv (a\<lparr>next_seq := s, unacked := bt_insert q o' (unacked a)\<rparr>)"
proof -
  have "in_flight (bt_insert q o' (unacked a)) \<le> 32"
    using assms in_flight_insert_unsent [of o' q "unacked a"] by (simp add: arq_inv_def unsent_def)
  moreover have "slot_ok (max_attempts a) x" if "(p, x) \<in> set (bt_insert q o' (unacked a))" for p x
    using assms that set_bt_insert_subset [of q o' "unacked a"]
    by (auto simp: arq_inv_def slot_ok_def)
  ultimately show ?thesis
    using assms by (simp add: arq_inv_def bt_wf_insert)
qed

lemma arq_inv_enqueue_chunks: "arq_inv a \<Longrightarrow> arq_inv (enqueue_chunks fid tot i cs a)"
proof (induction fid tot i cs a rule: enqueue_chunks.induct)
  case (2 fid tot i chunk cs a)
  then show ?case
    by (simp add: Let_def arq_inv_insert_fresh)
qed simp

lemma arq_inv_bump: "arq_inv a \<Longrightarrow> arq_inv (bump_frag_id a)"
  by (auto simp: arq_inv_def bump_frag_id_def Let_def)

lemma arq_inv_enqueue: "arq_inv a \<Longrightarrow> enqueue a m = (r, a') \<Longrightarrow> arq_inv a'"
  by (auto simp: enqueue_def enqueue_one_def Let_def arq_inv_enqueue_chunks arq_inv_bump
      arq_inv_insert_fresh split: if_splits)

lemma in_flight_sent_eq: "in_flight (unacked a) < 2 ^ 32 \<Longrightarrow> unat (in_flight_sent a) = in_flight (unacked a)"
  by (simp add: in_flight_sent_def in_flight_def unsent_def filter_map comp_def unat_of_nat)

lemma in_flight_mark_first: "in_flight (mark_first now k m) \<le> in_flight m + k"
  by (induction now k m rule: mark_first.induct)
    (auto simp: in_flight_def unsent_def mark_sent_def)

lemma slot_ok_mark_first:
  assumes "1 \<le> ma" and "\<And>q x. (q, x) \<in> set m \<Longrightarrow> slot_ok ma x"
    and "(p, y) \<in> set (mark_first now k m)"
  shows "slot_ok ma y"
  using assms
proof (induction now k m rule: mark_first.induct)
  case (3 now k q o' m)
  have "slot_ok ma z" if "(r, z) \<in> set m" for r z using 3(4) that by auto
  moreover have "slot_ok ma o'" using 3(4) by auto
  ultimately show ?case
    using 3 by (auto simp: slot_ok_def mark_sent_def split: if_splits)
qed auto

lemma take_new_sends_eq:
  assumes "bt_wf (unacked a)" and "in_flight (unacked a) < 2 ^ 32"
  shows "take_new_sends a now =
    Some (take (32 - in_flight (unacked a))
            (map (\<lambda>e. og_plaintext (snd e)) (filter (\<lambda>e. unsent (snd e)) (unacked a))),
          a\<lparr>unacked := mark_first now (32 - in_flight (unacked a)) (unacked a)\<rparr>)"
  using new_sends_loop_eq [of "[]" "unacked a" now "in_flight_sent a" "[]"] assms
  by (simp add: take_new_sends_def in_flight_sent_eq)

lemma arq_inv_new_sends:
  assumes "arq_inv a" and "take_new_sends a now = Some (out, a')"
  shows "arq_inv a'"
proof -
  from assms(1) have inv: "bt_wf (unacked a)" "in_flight (unacked a) \<le> 32"
    by (simp_all add: arq_inv_def)
  then have a': "a' = a\<lparr>unacked := mark_first now (32 - in_flight (unacked a)) (unacked a)\<rparr>"
    using take_new_sends_eq [of a now] assms(2) by simp
  have "bt_wf (unacked a')"
    using inv(1) bt_wf_keys_cong [of "unacked a'" "unacked a"] by (simp add: a')
  moreover have "in_flight (unacked a') \<le> 32"
    using in_flight_mark_first [of now "32 - in_flight (unacked a)" "unacked a"] inv(2) by (simp add: a')
  moreover have "slot_ok (max_attempts a) x" if "(q, x) \<in> set (unacked a')" for q x
    using slot_ok_mark_first [of "max_attempts a" "unacked a" q x now] that assms(1)
    by (auto simp: arq_inv_def a')
  ultimately show ?thesis
    using assms(1) by (simp add: arq_inv_def a')
qed

lemma in_flight_mark_due: "in_flight (mark_due now rt m) = in_flight m"
  by (induction m) (auto simp: in_flight_def mark_due_def mark_resent_def unsent_def due_def
      split: option.splits if_splits)

lemma u8_inc: "x < y \<Longrightarrow> x + 1 \<le> y \<and> x + 1 \<noteq> 0" for x y :: u8
proof -
  assume "x < y"
  then have "unat x < unat y" and "unat y < 256"
    using unsigned_less [of y, where ?'a = nat] by (simp_all add: word_less_nat_alt)
  moreover from this have "unat (x + 1) = unat x + 1"
    using unat_add_lem [of x 1] by simp
  ultimately show ?thesis by (auto simp: word_le_nat_alt simp flip: unat_eq_0)
qed

lemma slot_ok_mark_due:
  assumes "\<And>q x. (q, x) \<in> set m \<Longrightarrow> slot_ok ma x \<and> \<not> exhausted now rt ma x"
    and "(p, y) \<in> set (mark_due now rt m)"
  shows "slot_ok ma y"
proof -
  obtain o' where o: "(p, o') \<in> set m" "y = (if due now rt o' then mark_resent now o' else o')"
    using assms(2) by (auto simp: mark_due_def)
  then have ok: "slot_ok ma o'" "\<not> exhausted now rt ma o'" using assms(1) by blast+
  then show ?thesis
    using o u8_inc [of "og_attempts o'" ma]
    by (auto simp: slot_ok_def mark_resent_def exhausted_def not_le)
qed

lemma first_exhausted:
  "(\<forall>p x. (p, x) \<in> set m \<longrightarrow> \<not> exhausted now rt ma x) \<or>
   (\<exists>mid q o' suf. m = mid @ (q, o') # suf \<and> exhausted now rt ma o' \<and>
      (\<forall>p x. (p, x) \<in> set mid \<longrightarrow> \<not> exhausted now rt ma x))"
  using split_list_first_prop [of m "\<lambda>e. exhausted now rt ma (snd e)"] by force

lemma take_retransmits_go:
  assumes "bt_wf (unacked a)" and "\<And>p x. (p, x) \<in> set (unacked a) \<Longrightarrow> \<not> exhausted now (retx a) (max_attempts a) x"
  shows "take_retransmits a now =
    Some (Inr (due_frames now (retx a) (unacked a)), a\<lparr>unacked := mark_due now (retx a) (unacked a)\<rparr>)"
  using retransmit_loop_go [of "[]" "unacked a" now "retx a" "max_attempts a" "[]"] assms
  by (force simp: take_retransmits_def)

lemma take_retransmits_give_up:
  assumes "bt_wf (unacked a)" and "unacked a = mid @ (q, o') # suf"
    and "exhausted now (retx a) (max_attempts a) o'"
    and "\<And>p x. (p, x) \<in> set mid \<Longrightarrow> \<not> exhausted now (retx a) (max_attempts a) x"
  shows "take_retransmits a now =
    Some (Inl \<lparr>gu_seq = q, gu_attempts = og_attempts o'\<rparr>,
          a\<lparr>unacked := mark_due now (retx a) mid @ (q, o') # suf\<rparr>)"
  using retransmit_loop_give_up [of "[]" mid q o' suf now "retx a" "max_attempts a" "[]"] assms
  by (force simp: take_retransmits_def)

lemma take_retransmits_keys:
  assumes wf: "bt_wf (unacked a)" and tr: "take_retransmits a now = Some (r, a')"
  shows "bt_keys (unacked a') = bt_keys (unacked a)"
proof -
  consider "\<And>p x. (p, x) \<in> set (unacked a) \<Longrightarrow> \<not> exhausted now (retx a) (max_attempts a) x"
    | mid q o' suf where "unacked a = mid @ (q, o') # suf"
        "exhausted now (retx a) (max_attempts a) o'"
        "\<And>p x. (p, x) \<in> set mid \<Longrightarrow> \<not> exhausted now (retx a) (max_attempts a) x"
    using first_exhausted [of "unacked a" now "retx a" "max_attempts a"] by blast
  then show ?thesis
    using tr take_retransmits_go [OF wf] take_retransmits_give_up [OF wf] by cases auto
qed

lemma arq_inv_set_unacked:
  assumes "arq_inv a" and "map fst m = map fst (unacked a)" and "in_flight m \<le> 32"
    and "\<And>q x. (q, x) \<in> set m \<Longrightarrow> slot_ok (max_attempts a) x"
  shows "arq_inv (a\<lparr>unacked := m\<rparr>)"
  using assms bt_wf_keys_cong [OF assms(2)] by (simp add: arq_inv_def)

lemma arq_inv_retransmits:
  assumes inv: "arq_inv a" and tr: "take_retransmits a now = Some (r, a')"
  shows "arq_inv a'"
proof -
  have wf: "bt_wf (unacked a)" and fl: "in_flight (unacked a) \<le> 32"
    and ok: "\<And>q x. (q, x) \<in> set (unacked a) \<Longrightarrow> slot_ok (max_attempts a) x"
    using inv by (auto simp: arq_inv_def)
  consider (go) "\<And>p x. (p, x) \<in> set (unacked a) \<Longrightarrow> \<not> exhausted now (retx a) (max_attempts a) x"
    | (up) mid q o' suf where "unacked a = mid @ (q, o') # suf"
        "exhausted now (retx a) (max_attempts a) o'"
        "\<And>p x. (p, x) \<in> set mid \<Longrightarrow> \<not> exhausted now (retx a) (max_attempts a) x"
    using first_exhausted [of "unacked a" now "retx a" "max_attempts a"] by blast
  then show ?thesis
  proof cases
    case go
    then have "a' = a\<lparr>unacked := mark_due now (retx a) (unacked a)\<rparr>"
      using take_retransmits_go [OF wf] tr by simp
    then show ?thesis
      using inv go ok fl slot_ok_mark_due [of "unacked a" "max_attempts a" now "retx a"]
      by (auto intro!: arq_inv_set_unacked simp: in_flight_mark_due)
  next
    case up
    then have "a' = a\<lparr>unacked := mark_due now (retx a) mid @ (q, o') # suf\<rparr>"
      using take_retransmits_give_up [OF wf] tr by simp
    moreover have "in_flight (mark_due now (retx a) mid @ (q, o') # suf) \<le> 32"
      using fl in_flight_mark_due [of now "retx a" mid] by (simp add: up in_flight_def)
    moreover have "slot_ok (max_attempts a) x"
      if "(p, x) \<in> set (mark_due now (retx a) mid @ (q, o') # suf)" for p x
      using that ok up slot_ok_mark_due [of mid "max_attempts a" now "retx a" p x] by auto
    ultimately show ?thesis
      using inv by (auto intro!: arq_inv_set_unacked simp: up)
  qed
qed

lemma arq_inv_on_ack: "arq_inv a \<Longrightarrow> arq_inv (on_ack a base bitmap)"
proof -
  assume inv: "arq_inv a"
  have "on_ack a base bitmap = a\<lparr>unacked := filter (\<lambda>e. \<not> acked base bitmap (fst e)) (unacked a)\<rparr>"
    using on_ack_filter [of a base bitmap] by (simp add: on_ack_def)
  moreover have "in_flight (filter p m) \<le> in_flight m" for p and m :: "(u32 \<times> outgoing) list"
    by (induction m) (auto simp: in_flight_def)
  then have "in_flight (filter (\<lambda>e. \<not> acked base bitmap (fst e)) (unacked a)) \<le> 32"
    using inv order_trans by (fastforce simp: arq_inv_def)
  ultimately show ?thesis
    using inv by (auto simp: arq_inv_def bt_wf_filter)
qed

lemma arq_inv_mark_received:
  "arq_inv a \<Longrightarrow> mark_received a seq = (r, a') \<Longrightarrow> arq_inv a'"
  using mark_received_frame [of a seq r a'] mark_received_even [of a seq r a']
  by (fastforce simp: arq_inv_def)

lemma arq_inv_store_fragment:
  assumes inv: "arq_inv a" and tot: "2 \<le> tot" and idx: "index < tot"
  shows "arq_inv (store_fragment a fid index tot payload)"
proof -
  define buf where "buf = (case hm_get (fragments a) fid of Some b \<Rightarrow> b
     | None \<Rightarrow> \<lparr>fb_total = tot, fb_parts = replicate (unat tot) None\<rparr>)"
  have wf: "hm_wf (fragments a)" and bs: "\<And>f b. (f, b) \<in> set (fragments a) \<Longrightarrow> buf_ok b"
    using inv by (auto simp: arq_inv_def)
  have ok: "buf_ok buf"
  proof (cases "hm_get (fragments a) fid")
    case None
    have "0 < unat tot" using tot by (simp add: word_le_nat_alt)
    then show ?thesis using None tot by (simp add: buf_def buf_ok_def)
  next
    case (Some b)
    then show ?thesis using bs [of fid b] by (simp add: buf_def map_of_SomeD)
  qed
  define parts where "parts = (fb_parts buf)[unat index := Some payload]"
  define f1 where "f1 = hm_insert fid buf (fragments a)"
  define f2 where "f2 = hm_insert fid (buf\<lparr>fb_parts := parts\<rparr>) f1"
  have w1: "hm_wf f1" and w2: "hm_wf f2" using wf by (simp_all add: f1_def f2_def hm.wf_ins)
  have b1: "buf_ok b" if "(f, b) \<in> set f1" for f b
    using that bs ok wf by (auto simp: f1_def hm.set_ins)
  have b2: "buf_ok b" if "(f, b) \<in> set f2" "None \<in> set parts" for f b
    using that b1 ok w1 by (auto simp: f2_def hm.set_ins buf_ok_def parts_def)
  have b3: "buf_ok b" if "(f, b) \<in> set (hm_remove fid f2)" for f b
    using that b1 w1 w2 by (auto simp: f2_def hm.set_del hm.set_ins hm.wf_ins)
  have "store_fragment a fid index tot payload =
     (if fb_total buf \<noteq> tot \<or> unat index \<ge> length (fb_parts buf) then a\<lparr>fragments := f1\<rparr>
      else if list_all (\<lambda>p. p \<noteq> None) parts
      then a\<lparr>fragments := hm_remove fid f2, delivered := delivered a @ [concat (flatten parts)]\<rparr>
      else a\<lparr>fragments := f2\<rparr>)"
    unfolding store_fragment_def buf_def [symmetric]
    by (simp add: Let_def f1_def f2_def parts_def)
  moreover have "\<not> list_all (\<lambda>p. p \<noteq> None) parts \<Longrightarrow> None \<in> set parts"
    by (auto simp: list_all_iff)
  ultimately show ?thesis
    using inv w1 w2 b1 b2 b3 by (auto simp: arq_inv_def hm.wf_del)
qed

lemma arq_inv_ingest:
  assumes inv: "arq_inv a" and ig: "ingest a pt = (r, a')"
  shows "arq_inv a'"
proof (cases "decode_inner pt")
  case (Inr f)
  show ?thesis
  proof (cases f)
    case (DataFrame seq fid index tot payload)
    obtain b a1 where mr: "mark_received a seq = (b, a1)" by (cases "mark_received a seq")
    note inv1 = arq_inv_mark_received [OF inv mr]
    have "index < tot" using decode_inner_ok [OF Inr] DataFrame by simp
    moreover have "2 \<le> tot" if "tot \<noteq> 1"
    proof -
      have "unat tot \<noteq> 0" using \<open>index < tot\<close> by (auto simp: unat_eq_0)
      moreover have "unat tot \<noteq> 1" using that by (metis unat_1 word_unat_eq_iff)
      ultimately show ?thesis by (simp add: word_le_nat_alt)
    qed
    moreover have "arq_inv (a1\<lparr>delivered := x\<rparr>)" for x
      using inv1 by (simp add: arq_inv_def)
    ultimately have "arq_inv (on_data a seq fid index tot payload)"
      using inv1 arq_inv_store_fragment [OF inv1]
      by (auto simp: on_data_def mr split: bool.splits)
    then show ?thesis
      using ig by (simp add: ingest_def Inr DataFrame Let_def arq_inv_def) auto
  next
    case (AckFrame base bitmap)
    then show ?thesis using ig inv by (auto simp: ingest_def Inr arq_inv_on_ack)
  qed
qed (use ig inv in \<open>auto simp: ingest_def\<close>)

lemma arq_step_inv: "arq_step a a' \<Longrightarrow> arq_inv a \<Longrightarrow> arq_inv a'"
proof (induction rule: arq_step.induct)
  case (step_pop a pr a')
  then show ?case by (auto simp: pop_delivered_def arq_inv_def split: list.splits)
next
  case (step_take_ack a k a')
  then show ?case by (auto simp: take_ack_def arq_inv_def split: if_splits)
next
  case (step_set_retx a d)
  then show ?case by (simp add: set_retx_def arq_inv_def)
qed (blast intro: arq_inv_enqueue arq_inv_new_sends arq_inv_retransmits arq_inv_ingest)+

interpretation arq_machine: step_invariant arq_new arq_step arq_inv
  by unfold_locales (auto intro: arq_inv_new arq_step_inv)

lemmas reachable_arq_inv = arq_machine.reach_inv

lemma take_retransmits_defined: "arq_reachable a \<Longrightarrow> \<exists>r a'. take_retransmits a now = Some (r, a')"
  using first_exhausted [of "unacked a" now "retx a" "max_attempts a"] reachable_arq_inv [of a]
      take_retransmits_go [of a] take_retransmits_give_up [of a] unfolding arq_inv_def by blast

lemmas arq_reach_step = reach_step [where init = arq_new and step = arq_step]
lemmas arq_reach_init = reach_init [where init = arq_new and step = arq_step]

text \<open>A concrete run: one byte is queued, sent, received and acknowledged.\<close>

lemma advance_1: "advance base 1 = (base + 1, 0)"
  by (simp add: advance.simps [of base 1] advance.simps [of _ 0] drop_bit_eq_div)

abbreviation run_frame :: bytes where
  "run_frame \<equiv> [1, 0, 0, 0, 0, 0, 1, 0, 1, 104]"

definition run_sender :: "instant option \<Rightarrow> u8 \<Rightarrow> arq" where
  "run_sender t n = arq_new\<lparr>next_seq := 1, next_frag_id := 2, unacked := [(0,
     \<lparr>og_plaintext = run_frame, og_last_sent = t, og_attempts = n\<rparr>)]\<rparr>"

definition run_receiver :: arq where
  "run_receiver = arq_new\<lparr>recv_base := 1, delivered := [[104]], pending_ack := True\<rparr>"

lemma run_enqueue: "enqueue arq_new [104] = (Inr (), run_sender None 0)"
  by (simp add: enqueue_def chunks.simps Let_def MAX_PAYLOAD_def arq_new_def bump_frag_id_def
        encode_data_def to_be_def run_sender_def)

lemma run_new_sends: "take_new_sends (run_sender None 0) 0 = Some ([run_frame], run_sender (Some 0) 1)"
  by (simp add: take_new_sends_def run_sender_def in_flight_sent_def  WINDOW_SIZE_def)

lemma run_ingest_data: "ingest arq_new run_frame = (Inr (Some (encode_ack 1 0)), run_receiver)"
proof -
  have "run_frame = encode_data 0 1 0 1 [104]" by (simp add: encode_data_def to_be_def)
  then have "decode_inner run_frame = Inr (DataFrame 0 1 0 1 [104])"
    using decode_encode_data [of 0 1 0 1 "[104]"] by simp
  then show ?thesis
    by (simp add: ingest_def Let_def on_data_def mark_received_def arq_new_def advance_1 run_receiver_def)
qed

lemma run_ingest_ack: "ingest (run_sender (Some 0) 1) (encode_ack 1 0) =
  (Inr None, (run_sender (Some 0) 1)\<lparr>unacked := []\<rparr>)"
  by (simp add: ingest_def decode_encode_ack [where rest = "[]", simplified] on_ack_def run_sender_def
      bt_remove_def acked_def Let_def)

section \<open>Properties\<close>

text \<open>
  C17: in every state an endpoint can reach, whatever bytes its peer sends, the invariant
  holds (ordered unique sequence numbers, at most 32 frames in flight, an attempt count
  that is zero exactly for frames never sent and never above the maximum, incomplete
  reassembly buffers of the announced size), and neither send operation panics.
\<close>
theorem arq_reachable_ok:
  assumes "arq_reachable a"
  shows "arq_inv a \<and> (\<exists>out a'. take_new_sends a now = Some (out, a'))
    \<and> (\<exists>r a'. take_retransmits a now = Some (r, a'))"
proof -
  have inv: "arq_inv a" using assms by (rule reachable_arq_inv)
  then have wf: "bt_wf (unacked a)" and "in_flight (unacked a) < 2 ^ 32"
    by (simp_all add: arq_inv_def)
  moreover have "\<exists>r a'. take_retransmits a now = Some (r, a')"
    by (rule take_retransmits_defined [OF assms])
  ultimately show ?thesis
    using inv take_new_sends_eq [of a now] by blast
qed

theorem arq_reachable_ok_witness:
  "arq_inv (snd (enqueue arq_new [1, 2, 3]))"
proof -
  have "arq_reachable (snd (enqueue arq_new [1, 2, 3]))"
    by (rule arq_reach_step [OF arq_reach_init])
      (rule step_enqueue [of arq_new "[1, 2, 3]" "fst (enqueue arq_new [1, 2, 3])"], simp)
  from arq_reachable_ok [OF this] show ?thesis by blast
qed

text \<open>
  C20: the send window.  \<open>take_new_sends\<close> emits, in sequence order, exactly as many
  never-sent frames as the 32-frame window has room for; what it emits is in flight
  afterwards, and the window is never exceeded.
\<close>
theorem take_new_sends_window:
  assumes "arq_reachable a" and "take_new_sends a now = Some (out, a')"
  shows "out = take (32 - in_flight (unacked a))
      (map (\<lambda>e. og_plaintext (snd e)) (filter (\<lambda>e. unsent (snd e)) (unacked a)))
    \<and> in_flight (unacked a') = in_flight (unacked a) + length out
    \<and> in_flight (unacked a') \<le> 32 \<and> map fst (unacked a') = map fst (unacked a)"
proof -
  have inv: "arq_inv a" using assms(1) by (rule reachable_arq_inv)
  then have wf: "bt_wf (unacked a)" "in_flight (unacked a) \<le> 32" by (simp_all add: arq_inv_def)
  note eq = take_new_sends_eq [of a now]
  have count: "in_flight (mark_first now k m) =
      in_flight m + length (take k (filter (\<lambda>e. unsent (snd e)) m))" for k m
    by (induction now k m rule: mark_first.induct)
      (auto simp: in_flight_def unsent_def mark_sent_def)
  have "in_flight (unacked a') \<le> 32"
    using arq_inv_new_sends [OF inv assms(2)] by (simp add: arq_inv_def)
  with wf eq assms(2) show ?thesis by (auto simp: count take_map)
qed

theorem take_new_sends_window_witness:
  "map_option fst (take_new_sends (snd (enqueue arq_new [7])) 5) =
     Some [[1, 0, 0, 0, 0, 0, 1, 0, 1, 7]]"
proof -
  let ?a = "snd (enqueue arq_new [7])"
  have eq: "enqueue arq_new [7] = (Inr (), ?a)"
    by (simp add: enqueue_def chunks.simps Let_def MAX_PAYLOAD_def)
  have r: "arq_reachable ?a" by (rule arq_reach_step [OF arq_reach_init step_enqueue [OF eq]])
  have u: "unacked ?a = [(0, \<lparr>og_plaintext = [1, 0, 0, 0, 0, 0, 1, 0, 1, 7],
      og_last_sent = None, og_attempts = 0\<rparr>)]"
    by (simp add: enqueue_def chunks.simps Let_def MAX_PAYLOAD_def arq_new_def bump_frag_id_def
        encode_data_def to_be_def)
  obtain out a' where t: "take_new_sends ?a 5 = Some (out, a')"
    using take_new_sends_eq [of ?a 5] reachable_arq_inv [OF r] by (auto simp: arq_inv_def)
  then show ?thesis
    using take_new_sends_window [OF r t] by (simp add: u in_flight_def unsent_def)
qed

text \<open>
  C21: retransmission and give-up.  If no due frame has used up its attempts, every frame
  whose timeout has passed is emitted again and its attempt counted; otherwise the call
  reports the lowest such sequence number with the maximal attempt count.
\<close>
theorem take_retransmits_rule:
  assumes "arq_reachable a" and "take_retransmits a now = Some (r, a')"
  shows "case r of
      Inr out \<Rightarrow> out = due_frames now (retx a) (unacked a)
        \<and> unacked a' = mark_due now (retx a) (unacked a)
        \<and> (\<forall>q o'. (q, o') \<in> set (unacked a) \<and> due now (retx a) o' \<longrightarrow> og_attempts o' < max_attempts a)
    | Inl g \<Rightarrow> (\<exists>o'. (gu_seq g, o') \<in> set (unacked a) \<and> due now (retx a) o'
          \<and> og_attempts o' = max_attempts a \<and> gu_attempts g = max_attempts a)
        \<and> (\<forall>q o'. (q, o') \<in> set (unacked a) \<and> due now (retx a) o' \<and> og_attempts o' = max_attempts a
             \<longrightarrow> gu_seq g \<le> q)"
proof -
  have inv: "arq_inv a" using assms(1) by (rule reachable_arq_inv)
  then have wf: "bt_wf (unacked a)"
    and ok: "\<And>q x. (q, x) \<in> set (unacked a) \<Longrightarrow> og_attempts x \<le> max_attempts a"
    by (auto simp: arq_inv_def slot_ok_def)
  consider (go) "\<And>p x. (p, x) \<in> set (unacked a) \<Longrightarrow> \<not> exhausted now (retx a) (max_attempts a) x"
    | (up) mid q o' suf where "unacked a = mid @ (q, o') # suf"
        "exhausted now (retx a) (max_attempts a) o'"
        "\<And>p x. (p, x) \<in> set mid \<Longrightarrow> \<not> exhausted now (retx a) (max_attempts a) x"
    using first_exhausted [of "unacked a" now "retx a" "max_attempts a"] by blast
  then show ?thesis
  proof cases
    case go
    then show ?thesis
      using take_retransmits_go [OF wf go] assms(2) by (auto simp: exhausted_def not_le)
  next
    case up
    have r: "r = Inl \<lparr>gu_seq = q, gu_attempts = og_attempts o'\<rparr>"
      using take_retransmits_give_up [OF wf up] assms(2) by simp
    have "og_attempts o' = max_attempts a" and "due now (retx a) o'"
      using up ok [of q o'] by (auto simp: exhausted_def)
    moreover have "q \<le> p" if "(p, x) \<in> set (unacked a)" "exhausted now (retx a) (max_attempts a) x" for p x
    proof -
      have "(p, x) \<in> set ((q, o') # suf)" using that up by auto
      then show ?thesis using wf by (auto simp: up bt_wf_def sorted_wrt_append)
    qed
    ultimately show ?thesis
      by (force simp: r up(1) exhausted_def)
  qed
qed

theorem take_retransmits_rule_witness:
  "map_option fst (take_retransmits (run_sender (Some 0) 1) 200000000) = Some (Inr [run_frame])"
proof -
  let ?a = "run_sender (Some 0) 1"
  note r1 = arq_reach_step [OF arq_reach_init step_enqueue [OF run_enqueue]]
  have r: "arq_reachable ?a" by (rule arq_reach_step [OF r1 step_new_sends [OF run_new_sends]])
  have u: "unacked ?a = [(0, \<lparr>og_plaintext = run_frame, og_last_sent = Some 0, og_attempts = 1\<rparr>)]"
    "retx ?a = 200000000" "max_attempts ?a = 5"
    by (simp_all add: run_sender_def arq_new_def DEFAULT_RETX_def from_millis_def DEFAULT_MAX_ATTEMPTS_def)
  obtain res a' where t: "take_retransmits ?a 200000000 = Some (res, a')"
    using take_retransmits_defined [OF r] by blast
  show ?thesis
    using take_retransmits_rule [OF r t] by (cases res) (auto simp: t u due_frames_def due_def)
qed

text \<open>
  C18: the receive window refines a set of received numbers.  If base and bitmap
  represent the set \<open>S\<close> of unwrapped sequence numbers received so far, then a number
  \<open>k\<close> less than \<open>2 ^ 32 - 64\<close> behind and less than \<open>2 ^ 32\<close> ahead is
  accepted exactly when it is new and less than 64 ahead of the lowest missing number,
  and the new base and bitmap represent \<open>S\<close> with \<open>k\<close> added, respectively
  \<open>S\<close>.
\<close>
theorem mark_received_refines:
  assumes "window_rel S n (recv_base a) (recv_bits a)" and "n \<notin> S"
    and "n \<le> k + (2 ^ 32 - 64)" and "k < n + 2 ^ 32"
  shows "case mark_received a (of_nat k) of (r, a') \<Rightarrow>
      (r \<longleftrightarrow> k \<notin> S \<and> k < n + 64) \<and>
      (\<exists>n'. window_rel (if r then insert k S else S) n' (recv_base a') (recv_bits a')
         \<and> n' \<notin> (if r then insert k S else S))"
  using mark_received_window [OF assms] by (cases "mark_received a (of_nat k)") blast

theorem mark_received_refines_witness:
  "fst (mark_received arq_new 3)"
proof -
  have rel: "window_rel {} 0 (recv_base arq_new) (recv_bits arq_new)"
    by (simp add: arq_new_def window_rel_empty)
  show ?thesis
    using mark_received_refines [OF rel, of 3] by (cases "mark_received arq_new 3") simp
qed

text \<open>
  C19: a selective acknowledgement is exact.  Read by the sender, an ACK whose base and
  bitmap represent \<open>S\<close> acknowledges the frame with number \<open>k\<close> if and only if
  \<open>k\<close> is in \<open>S\<close>, for every \<open>k\<close> less than a million below the base and less
  than \<open>2 ^ 32\<close> minus a million above it.
\<close>
theorem acked_exact:
  assumes "window_rel S n base bits"
    and "k < n + (2 ^ 32 - 1000000)" and "n < k + 1000000"
  shows "acked base bits (of_nat k) \<longleftrightarrow> k \<in> S"
  using assms by (rule acked_window)

theorem acked_exact_witness: "acked 2 0b100 0 \<and> acked 2 0b100 4 \<and> \<not> acked 2 0b100 3"
proof -
  have bits: "bit (0b100 :: u64) i \<longleftrightarrow> i = 2" for i
    using bit_exp_iff [where ?'a = u64, of 2 i] by auto
  have rel: "window_rel {0, 1, 4} 2 2 0b100"
    unfolding window_rel_def bits by (auto simp: lessThan_def)
  show ?thesis
    using acked_exact [OF rel, of 0] acked_exact [OF rel, of 4] acked_exact [OF rel, of 3] by simp
qed

text \<open>
  A message is refused exactly when it is longer than 255 fragments of 1024 bytes,
  and a refusal leaves the endpoint unchanged.
\<close>
lemma enqueue_too_large:
  "enqueue a m = (if length m > 261120 then (Inl ArqTooLarge, a) else (Inr (), snd (enqueue a m)))"
  using length_chunks_payload [of m]
  by (auto simp: enqueue_def enqueue_one_def Let_def)

end
