(* ===== verification/Ppose_Packet.thy ===== *)
theory Ppose_Packet
  imports Ppose_Prelude
begin

text \<open>
  The cleartext outer header: \<^verbatim>\<open>src/lib.rs\<close> (constants) and
  \<^verbatim>\<open>src/network/packet.rs\<close>.  Shown: what \<open>encode_datagram\<close> produced is read
  back by \<open>decode_outer\<close>, the size bound of a datagram, and exactly which byte strings
  are accepted.
\<close>

section \<open>Constants of the crate\<close>

definition PROTOCOL_VERSION :: u8 where
  "PROTOCOL_VERSION = 0x03"

definition MAGIC :: bytes where
  "MAGIC = [0x4A, 0x7F]"

definition OUTER_HEADER_LEN :: nat where
  "OUTER_HEADER_LEN = 8"

definition MAX_DATAGRAM :: nat where
  "MAX_DATAGRAM = 1200"

definition NOISE_PARAMS :: string where
  "NOISE_PARAMS = ''Noise_XX_25519_ChaChaPoly_BLAKE2s''"

lemmas const_defs = PROTOCOL_VERSION_def MAGIC_def OUTER_HEADER_LEN_def MAX_DATAGRAM_def

section \<open>Packet types\<close>

datatype packet_type = Handshake | Data | Ack | Forward | Onion | Rendezvous

fun type_u8 :: "packet_type \<Rightarrow> u8" where
  "type_u8 Handshake = 1"
| "type_u8 Data = 2"
| "type_u8 Ack = 3"
| "type_u8 Forward = 4"
| "type_u8 Onion = 5"
| "type_u8 Rendezvous = 6"

definition from_u8 :: "u8 \<Rightarrow> packet_type option" where
  "from_u8 v =
     (if v = 1 then Some Handshake
      else if v = 2 then Some Data
      else if v = 3 then Some Ack
      else if v = 4 then Some Forward
      else if v = 5 then Some Onion
      else if v = 6 then Some Rendezvous
      else None)"

lemma from_u8_type_u8 [simp, codec_simps]: "from_u8 (type_u8 ty) = Some ty"
  by (cases ty) (simp_all add: from_u8_def)

lemma from_u8_Some_iff: "from_u8 v = Some ty \<longleftrightarrow> v = type_u8 ty"
  by (cases ty) (auto simp: from_u8_def)

section \<open>Encoding and decoding\<close>

datatype packet_error = Truncated | BadMagic | BadVersion | BadType | TooLarge | BadAddress

definition encode_outer :: "packet_type \<Rightarrow> u8 \<Rightarrow> bytes" where
  "encode_outer ty flags =
     [MAGIC ! 0, MAGIC ! 1, PROTOCOL_VERSION, type_u8 ty, flags, 0, 0, 0]"

definition encode_datagram :: "packet_type \<Rightarrow> bytes \<Rightarrow> packet_error + bytes" where
  "encode_datagram ty body =
     (if OUTER_HEADER_LEN + length body > MAX_DATAGRAM then Inl TooLarge
      else Inr (encode_outer ty 0 @ body))"

definition decode_outer :: "bytes \<Rightarrow> packet_error + (packet_type \<times> u8 \<times> bytes)" where
  "decode_outer bytes =
     (if length bytes < OUTER_HEADER_LEN then Inl Truncated
      else if bytes ! 0 \<noteq> MAGIC ! 0 \<or> bytes ! 1 \<noteq> MAGIC ! 1 then Inl BadMagic
      else if bytes ! 2 \<noteq> PROTOCOL_VERSION then Inl BadVersion
      else res_bind (ok_or BadType (from_u8 (bytes ! 3)))
        (\<lambda>ty. Inr (ty, bytes ! 4, drop OUTER_HEADER_LEN bytes)))"

lemma length_encode_outer [simp]: "length (encode_outer ty flags) = OUTER_HEADER_LEN"
  by (simp add: encode_outer_def OUTER_HEADER_LEN_def)

lemma decode_encode_outer [simp, codec_simps]:
  "decode_outer (encode_outer ty flags @ body) = Inr (ty, flags, body)"
  by (simp add: decode_outer_def encode_outer_def OUTER_HEADER_LEN_def)

lemma encode_datagram_Inr_iff:
  "encode_datagram ty body = Inr pkt \<longleftrightarrow>
     length body \<le> MAX_DATAGRAM - OUTER_HEADER_LEN \<and> pkt = encode_outer ty 0 @ body"
  by (auto simp: encode_datagram_def const_defs)

lemma encode_datagram_Inl_iff:
  "encode_datagram ty body = Inl e \<longleftrightarrow>
     MAX_DATAGRAM - OUTER_HEADER_LEN < length body \<and> e = TooLarge"
  by (auto simp: encode_datagram_def const_defs)

lemma decode_encode_datagram:
  "encode_datagram ty body = Inr pkt \<Longrightarrow> decode_outer pkt = Inr (ty, 0, body)"
  by (simp add: encode_datagram_Inr_iff)

lemma length_encode_datagram:
  "encode_datagram ty body = Inr pkt \<Longrightarrow>
     length pkt = OUTER_HEADER_LEN + length body \<and> length pkt \<le> MAX_DATAGRAM"
  by (auto simp: encode_datagram_Inr_iff const_defs)

lemma decode_outer_Inr_iff:
  "decode_outer pkt = Inr (ty, flags, body) \<longleftrightarrow>
     (\<exists>r1 r2 r3. pkt = [MAGIC ! 0, MAGIC ! 1, PROTOCOL_VERSION, type_u8 ty, flags, r1, r2, r3] @ body)"
  (is "?L \<longleftrightarrow> ?R")
proof
  assume L: ?L
  then have "8 \<le> length pkt"
    by (auto simp: decode_outer_def OUTER_HEADER_LEN_def not_less split: if_splits)
  then obtain b0 b1 b2 b3 b4 b5 b6 b7 rest
    where pkt: "pkt = b0 # b1 # b2 # b3 # b4 # b5 # b6 # b7 # rest"
    by (auto simp: numeral_eq_Suc Suc_le_length_iff)
  with L show ?R
    by (auto simp: decode_outer_def OUTER_HEADER_LEN_def res_bind_Inr_iff from_u8_Some_iff
        split: if_splits)
next
  assume ?R
  then show ?L
    by (auto simp: decode_outer_def OUTER_HEADER_LEN_def)
qed

text \<open>The outer codec as an interface: a header with its flags and body.\<close>

definition outer_enc :: "packet_type \<times> u8 \<times> bytes \<Rightarrow> bytes" where
  "outer_enc = (\<lambda>(ty, flags, body). encode_outer ty flags @ body)"

interpretation outer: wire_codec "\<lambda>_. True" outer_enc decode_outer
  by unfold_locales (auto simp: outer_enc_def)

section \<open>Properties\<close>

text \<open>
  A datagram built by \<open>encode_datagram\<close> fits in \<open>MAX_DATAGRAM\<close> and is
  read back by \<open>decode_outer\<close> with its type, zero flags and its body.
\<close>
lemma datagram_roundtrip:
  assumes "encode_datagram ty body = Inr pkt"
  shows "decode_outer pkt = Inr (ty, 0, body) \<and> length pkt = 8 + length body \<and> length pkt \<le> 1200"
  using decode_encode_datagram [OF assms] length_encode_datagram [OF assms]
  by (simp add: OUTER_HEADER_LEN_def MAX_DATAGRAM_def)

text \<open>
  C23: the outer format.  A byte string is accepted, with its type, flags and body, exactly when it is their header, as \<open>encode_outer\<close>
  writes it, up to the three reserved bytes, which may be anything, followed by the body: another magic number, version or
  type byte, or a header cut short, is never accepted.  What \<open>encode_datagram\<close> builds has at most 1200 bytes and is
  read back with its type and body and zero flags, and with nothing else.
\<close>
theorem decode_outer_accepts:
  "(decode_outer pkt = Inr (ty, flags, body) \<longleftrightarrow> (\<exists>reserved. length reserved = 3 \<and> pkt = take 5 (encode_outer ty flags) @ reserved @ body)) \<and>
   (encode_datagram ty' body' = Inr pkt \<longrightarrow> length pkt \<le> 1200 \<and> (decode_outer pkt = Inr (ty, flags, body) \<longleftrightarrow> ty = ty' \<and> flags = 0 \<and> body = body'))"
proof -
  have "(\<exists>r1 r2 r3. pkt = h @ [r1, r2, r3] @ body) \<longleftrightarrow> (\<exists>r. length r = 3 \<and> pkt = h @ r @ body)" for h
    by (auto simp: length_Suc_conv numeral_3_eq_3)
  from this [of "take 5 (encode_outer ty flags)"]
  have "decode_outer pkt = Inr (ty, flags, body) \<longleftrightarrow> (\<exists>r. length r = 3 \<and> pkt = take 5 (encode_outer ty flags) @ r @ body)"
    by (simp add: decode_outer_Inr_iff encode_outer_def)
  moreover have "length pkt \<le> 1200 \<and> (decode_outer pkt = Inr (ty, flags, body) \<longleftrightarrow> ty = ty' \<and> flags = 0 \<and> body = body')"
    if "encode_datagram ty' body' = Inr pkt"
    using decode_encode_datagram [OF that] length_encode_datagram [OF that] by (auto simp: MAX_DATAGRAM_def)
  ultimately show ?thesis by blast
qed

theorem decode_outer_accepts_witness:
  "decode_outer [0x4A, 0x7F, 3, type_u8 Data, 5, 1, 2, 3, 9] = Inr (Data, 5, [9]) \<and> decode_outer (encode_outer Data 0 @ [9]) = Inr (Data, 0, [9])"
proof -
  have "encode_datagram Data [9] = Inr (encode_outer Data 0 @ [9])" by (simp add: encode_datagram_def const_defs)
  moreover have "[0x4A, 0x7F, 3, type_u8 Data, 5, 1, 2, 3, 9] = take 5 (encode_outer Data 5) @ [1, 2, 3] @ [9 :: u8]"
    by (simp add: encode_outer_def const_defs)
  moreover have "length [1, 2, 3 :: u8] = 3" by simp
  ultimately show ?thesis using decode_outer_accepts by metis
qed

end
