(* ===== verification/Ppose_Cover.thy ===== *)
theory Ppose_Cover
  imports Ppose_Packet
begin

text \<open>
  The cover-traffic policy, \<^verbatim>\<open>src/cover.rs\<close>, and the runtime configuration,
  \<^verbatim>\<open>src/config.rs\<close>.
\<close>

datatype cover_mode = Off | Balanced | Stealth

fun interval :: "cover_mode \<Rightarrow> duration option" where
  "interval Off = None"
| "interval Balanced = Some (from_millis 200)"
| "interval Stealth = Some (from_millis 50)"

fun payload_len :: "cover_mode \<Rightarrow> nat" where
  "payload_len Off = 0"
| "payload_len Balanced = 64"
| "payload_len Stealth = 64"

record config =
  wire_version :: u8
  mtu :: nat
  cfg_cover :: cover_mode
  max_onion_hops :: u8

definition config_default :: config where
  "config_default = \<lparr>wire_version = PROTOCOL_VERSION, mtu = MAX_DATAGRAM, cfg_cover = Off, max_onion_hops = 3\<rparr>"

definition config_balanced :: config where
  "config_balanced = config_default\<lparr>cfg_cover := Balanced\<rparr>"

lemma payload_len_fits: "payload_len m \<le> MAX_DATAGRAM - OUTER_HEADER_LEN"
  by (cases m) (simp_all add: const_defs)

lemma interval_payload: "interval m = Some d \<Longrightarrow> payload_len m = 64 \<and> 0 < d"
  by (cases m) (auto simp: from_millis_def)

end
