(* ===== verification/Ppose_Crypto.thy ===== *)
theory Ppose_Crypto
  imports Ppose_Prelude
begin

text \<open>
  Identity keys and the standalone AEAD, \<^verbatim>\<open>src/crypto/keys.rs\<close> and
  \<^verbatim>\<open>src/crypto/aead.rs\<close>.  The cryptographic crates are not part of the repository: a
  \<open>primitives\<close> record holds the functions the code calls, and \<open>primitives_ok\<close> names
  what their documentation promises.  A model instance shows that the promises can hold.
\<close>

section \<open>The primitives the code calls\<close>

record ('sk, 'pk) primitives =
  blake3 :: "bytes \<Rightarrow> bytes"
  sk_from :: "bytes \<Rightarrow> 'sk"
  sk_bytes :: "'sk \<Rightarrow> bytes"
  pk_from :: "bytes \<Rightarrow> 'pk"
  pk_bytes :: "'pk \<Rightarrow> bytes"
  pk_of :: "'sk \<Rightarrow> 'pk"
  diffie_hellman :: "'sk \<Rightarrow> 'pk \<Rightarrow> bytes"
  xchacha_encrypt :: "bytes \<Rightarrow> bytes \<Rightarrow> bytes \<Rightarrow> bytes \<Rightarrow> bytes option"
  xchacha_decrypt :: "bytes \<Rightarrow> bytes \<Rightarrow> bytes \<Rightarrow> bytes \<Rightarrow> bytes option"

text \<open>
  X25519 agreement, 32-byte public keys that survive serialisation, and
  XChaCha20-Poly1305 with its 16-byte tag, total on messages far above the datagram size.
\<close>

definition primitives_ok :: "('sk, 'pk) primitives \<Rightarrow> bool" where
  "primitives_ok P \<longleftrightarrow>
     (\<forall>a b. diffie_hellman P a (pk_of P b) = diffie_hellman P b (pk_of P a)) \<and>
     (\<forall>p. length (pk_bytes P p) = 32 \<and> pk_from P (pk_bytes P p) = p) \<and>
     (\<forall>k n a m. length m < 2 ^ 16 \<longrightarrow>
        (\<exists>ct. xchacha_encrypt P k n a m = Some ct \<and> length ct = length m + 16
           \<and> xchacha_decrypt P k n a ct = Some m))"

lemma dh_comm: "primitives_ok P \<Longrightarrow> diffie_hellman P a (pk_of P b) = diffie_hellman P b (pk_of P a)"
  unfolding primitives_ok_def by blast

lemma length_pk_bytes: "primitives_ok P \<Longrightarrow> length (pk_bytes P p) = 32"
  unfolding primitives_ok_def by blast

lemma pk_from_bytes: "primitives_ok P \<Longrightarrow> pk_from P (pk_bytes P p) = p"
  unfolding primitives_ok_def by blast

lemma encrypt_total:
  "primitives_ok P \<Longrightarrow> length m < 2 ^ 16 \<Longrightarrow>
     \<exists>ct. xchacha_encrypt P k n a m = Some ct \<and> length ct = length m + 16 \<and> xchacha_decrypt P k n a ct = Some m"
  unfolding primitives_ok_def by blast

text \<open>An instance: numbers as keys, agreement by addition, a constant tag.\<close>

definition model_primitives :: "(256 word, 256 word) primitives" where
  "model_primitives = \<lparr>blake3 = (\<lambda>bs. take 32 (bs @ replicate 32 0)), sk_from = from_be, sk_bytes = to_be 32,
     pk_from = from_be, pk_bytes = to_be 32, pk_of = (\<lambda>s. s), diffie_hellman = (\<lambda>s p. to_be 32 (s + p)),
     xchacha_encrypt = (\<lambda>k n a m. Some (m @ replicate 16 0)),
     xchacha_decrypt = (\<lambda>k n a c. if 16 \<le> length c \<and> drop (length c - 16) c = replicate 16 0
        then Some (take (length c - 16) c) else None)\<rparr>"

lemma model_primitives_ok: "primitives_ok model_primitives"
  by (simp add: primitives_ok_def model_primitives_def add.commute from_be_to_be)

section \<open>Identities\<close>

datatype 'sk identity_secret = IdentitySecret (secret: 'sk)

datatype 'pk public_identity = PublicIdentity (public_key: 'pk)

definition secret_from_bytes :: "('sk, 'pk) primitives \<Rightarrow> bytes \<Rightarrow> 'sk identity_secret" where
  "secret_from_bytes P bs = IdentitySecret (sk_from P bs)"

definition secret_to_bytes :: "('sk, 'pk) primitives \<Rightarrow> 'sk identity_secret \<Rightarrow> bytes" where
  "secret_to_bytes P i = sk_bytes P (secret i)"

definition public_from_bytes :: "('sk, 'pk) primitives \<Rightarrow> bytes \<Rightarrow> 'pk public_identity" where
  "public_from_bytes P bs = PublicIdentity (pk_from P bs)"

definition as_bytes :: "('sk, 'pk) primitives \<Rightarrow> 'pk public_identity \<Rightarrow> bytes" where
  "as_bytes P p = pk_bytes P (public_key p)"

definition shared_with :: "('sk, 'pk) primitives \<Rightarrow> 'sk identity_secret \<Rightarrow> 'pk public_identity \<Rightarrow> bytes" where
  "shared_with P i peer = diffie_hellman P (secret i) (public_key peer)"

definition public :: "('sk, 'pk) primitives \<Rightarrow> 'sk identity_secret \<Rightarrow> 'pk public_identity" where
  "public P i = PublicIdentity (pk_of P (secret i))"

definition fingerprint :: "('sk, 'pk) primitives \<Rightarrow> 'pk public_identity \<Rightarrow> bytes" where
  "fingerprint P p = blake3 P (as_bytes P p)"

section \<open>The AEAD wrapper\<close>

datatype aead_error = Encrypt | Decrypt | Nonce

datatype session_aead = SessionAead (aead_key: bytes)

definition aead_new :: "bytes \<Rightarrow> session_aead" where
  "aead_new key = SessionAead key"

definition aead_seal :: "('sk, 'pk) primitives \<Rightarrow> session_aead \<Rightarrow> bytes \<Rightarrow> bytes \<Rightarrow> bytes \<Rightarrow> aead_error + bytes" where
  "aead_seal P s nonce24 aad plaintext = ok_or Encrypt (xchacha_encrypt P (aead_key s) nonce24 aad plaintext)"

definition aead_open :: "('sk, 'pk) primitives \<Rightarrow> session_aead \<Rightarrow> bytes \<Rightarrow> bytes \<Rightarrow> bytes \<Rightarrow> aead_error + bytes" where
  "aead_open P s nonce24 aad ciphertext = ok_or Decrypt (xchacha_decrypt P (aead_key s) nonce24 aad ciphertext)"

lemma aead_roundtrip:
  "primitives_ok P \<Longrightarrow> length m < 2 ^ 16 \<Longrightarrow>
     \<exists>ct. aead_seal P s n a m = Inr ct \<and> length ct = length m + 16 \<and> aead_open P s n a ct = Inr m"
  using encrypt_total [of P m "aead_key s" n a] by (auto simp: aead_seal_def aead_open_def ok_or_def)

lemma shared_comm: "primitives_ok P \<Longrightarrow> shared_with P i (public P j) = shared_with P j (public P i)"
  by (simp add: shared_with_def public_def dh_comm [of P "secret i"])

lemma public_bytes: "primitives_ok P \<Longrightarrow> public_from_bytes P (as_bytes P p) = p \<and> length (as_bytes P p) = 32"
  by (cases p) (simp add: public_from_bytes_def as_bytes_def pk_from_bytes length_pk_bytes)

end
