(* ===== verification/Ppose_Noise.thy ===== *)
theory Ppose_Noise
  imports Ppose_Crypto Ppose_Packet
begin

text \<open>
  The Noise session, \<^verbatim>\<open>src/crypto/noise.rs\<close>: a handshake that turns into a transport.
  The \<^verbatim>\<open>snow\<close> crate is not part of the repository; the functions the code calls are the
  fields of \<open>snow\<close>, over abstract types for its parameters, handshake and transport
  states.  A call on \<^verbatim>\<open>&mut self\<close> returns the new state also when it fails; the text of an
  error is what its \<^verbatim>\<open>Display\<close> prints.  An output buffer is represented by its length in
  the call and by the bytes written in the result.
\<close>

section \<open>Model\<close>

datatype handshake_role = Initiator | Responder

datatype noise_error = Setup string | Crypto string | BadState | KeyMismatch | NoRemoteStatic

record ('np, 'hs, 'ts) snow =
  parse_params :: "string \<Rightarrow> string + 'np"
  build_initiator :: "'np \<Rightarrow> bytes \<Rightarrow> string + 'hs"
  build_responder :: "'np \<Rightarrow> bytes \<Rightarrow> string + 'hs"
  hs_write :: "'hs \<Rightarrow> bytes \<Rightarrow> nat \<Rightarrow> (string + bytes) \<times> 'hs"
  hs_read :: "'hs \<Rightarrow> bytes \<Rightarrow> nat \<Rightarrow> (string + bytes) \<times> 'hs"
  is_handshake_finished :: "'hs \<Rightarrow> bool"
  into_transport_mode :: "'hs \<Rightarrow> string + 'ts"
  ts_write :: "'ts \<Rightarrow> bytes \<Rightarrow> nat \<Rightarrow> (string + bytes) \<times> 'ts"
  ts_read :: "'ts \<Rightarrow> bytes \<Rightarrow> nat \<Rightarrow> (string + bytes) \<times> 'ts"
  get_remote_static :: "'ts \<Rightarrow> bytes option"

record ('hs, 'ts) noise_session =
  handshake :: "'hs option"
  transport :: "'ts option"

definition noise_new ::
  "('np, 'hs, 'ts) snow \<Rightarrow> ('sk, 'pk) primitives \<Rightarrow> handshake_role \<Rightarrow> 'sk identity_secret
     \<Rightarrow> noise_error + ('hs, 'ts) noise_session" where
  "noise_new N P role local =
     res_bind (map_err Setup (parse_params N NOISE_PARAMS)) (\<lambda>params.
     let static_key = secret_to_bytes P local
     in res_bind (case role of
            Initiator \<Rightarrow> map_err Setup (build_initiator N params static_key)
          | Responder \<Rightarrow> map_err Setup (build_responder N params static_key))
        (\<lambda>hs. Inr \<lparr>handshake = Some hs, transport = None\<rparr>))"

definition is_transport :: "('hs, 'ts) noise_session \<Rightarrow> bool" where
  "is_transport n \<longleftrightarrow> transport n \<noteq> None"

definition maybe_finish ::
  "('np, 'hs, 'ts) snow \<Rightarrow> ('hs, 'ts) noise_session \<Rightarrow> (noise_error + unit) \<times> ('hs, 'ts) noise_session" where
  "maybe_finish N n =
     (case handshake n of
        None \<Rightarrow> (Inr (), n)
      | Some hs \<Rightarrow>
          if is_handshake_finished N hs
          then let n1 = n\<lparr>handshake := None\<rparr>
               in case into_transport_mode N hs of
                    Inl e \<Rightarrow> (Inl (Crypto e), n1)
                  | Inr ts \<Rightarrow> (Inr (), n1\<lparr>transport := Some ts\<rparr>)
          else (Inr (), n))"

definition handshake_call ::
  "('np, 'hs, 'ts) snow \<Rightarrow> ('hs \<Rightarrow> (string + bytes) \<times> 'hs) \<Rightarrow> ('hs, 'ts) noise_session
     \<Rightarrow> (noise_error + bytes) \<times> ('hs, 'ts) noise_session" where
  "handshake_call N call n =
     (case handshake n of
        None \<Rightarrow> (Inl BadState, n)
      | Some hs \<Rightarrow>
          (case call hs of
             (Inl e, hs1) \<Rightarrow> (Inl (Crypto e), n\<lparr>handshake := Some hs1\<rparr>)
           | (Inr out, hs1) \<Rightarrow>
               (case maybe_finish N (n\<lparr>handshake := Some hs1\<rparr>) of
                  (Inl e, n1) \<Rightarrow> (Inl e, n1)
                | (Inr _, n1) \<Rightarrow> (Inr out, n1))))"

definition write_handshake ::
  "('np, 'hs, 'ts) snow \<Rightarrow> bytes \<Rightarrow> nat \<Rightarrow> ('hs, 'ts) noise_session
     \<Rightarrow> (noise_error + bytes) \<times> ('hs, 'ts) noise_session" where
  "write_handshake N payload out_len n = handshake_call N (\<lambda>hs. hs_write N hs payload out_len) n"

definition read_handshake ::
  "('np, 'hs, 'ts) snow \<Rightarrow> bytes \<Rightarrow> nat \<Rightarrow> ('hs, 'ts) noise_session
     \<Rightarrow> (noise_error + bytes) \<times> ('hs, 'ts) noise_session" where
  "read_handshake N msg out_len n = handshake_call N (\<lambda>hs. hs_read N hs msg out_len) n"

definition transport_call ::
  "('ts \<Rightarrow> (string + bytes) \<times> 'ts) \<Rightarrow> ('hs, 'ts) noise_session
     \<Rightarrow> (noise_error + bytes) \<times> ('hs, 'ts) noise_session" where
  "transport_call call n =
     (case transport n of
        None \<Rightarrow> (Inl BadState, n)
      | Some ts \<Rightarrow> (case call ts of (r, ts1) \<Rightarrow> (map_err Crypto r, n\<lparr>transport := Some ts1\<rparr>)))"

definition noise_seal ::
  "('np, 'hs, 'ts) snow \<Rightarrow> bytes \<Rightarrow> nat \<Rightarrow> ('hs, 'ts) noise_session
     \<Rightarrow> (noise_error + bytes) \<times> ('hs, 'ts) noise_session" where
  "noise_seal N plaintext out_len n = transport_call (\<lambda>ts. ts_write N ts plaintext out_len) n"

definition noise_open ::
  "('np, 'hs, 'ts) snow \<Rightarrow> bytes \<Rightarrow> nat \<Rightarrow> ('hs, 'ts) noise_session
     \<Rightarrow> (noise_error + bytes) \<times> ('hs, 'ts) noise_session" where
  "noise_open N ciphertext out_len n = transport_call (\<lambda>ts. ts_read N ts ciphertext out_len) n"

definition remote_static ::
  "('np, 'hs, 'ts) snow \<Rightarrow> ('hs, 'ts) noise_session \<Rightarrow> noise_error + bytes" where
  "remote_static N n =
     res_bind (ok_or BadState (transport n)) (\<lambda>ts.
     res_bind (ok_or NoRemoteStatic (get_remote_static N ts)) (\<lambda>slice'.
       if length slice' \<noteq> 32 then Inl NoRemoteStatic else Inr slice'))"

definition pin_remote ::
  "('np, 'hs, 'ts) snow \<Rightarrow> bytes \<Rightarrow> ('hs, 'ts) noise_session \<Rightarrow> noise_error + unit" where
  "pin_remote N expected n =
     res_bind (remote_static N n) (\<lambda>got. if got \<noteq> expected then Inl KeyMismatch else Inr ())"

section \<open>Lemmas\<close>

lemma pin_remote_Inr: "pin_remote N expected n = Inr u \<longleftrightarrow> remote_static N n = Inr expected"
  by (auto simp: pin_remote_def res_bind_Inr_iff)

lemma remote_static_transport: "remote_static N n = Inr k \<Longrightarrow> is_transport n \<and> length k = 32"
  by (auto simp: remote_static_def is_transport_def res_bind_Inr_iff ok_or_Inr_iff split: if_splits)

text \<open>A session is in exactly one of its two modes, unless the switch to transport failed.\<close>

definition noise_ok :: "('hs, 'ts) noise_session \<Rightarrow> bool" where
  "noise_ok n \<longleftrightarrow> \<not> (handshake n \<noteq> None \<and> transport n \<noteq> None)"

lemma noise_new_ok: "noise_new N P role local = Inr n \<Longrightarrow> noise_ok n \<and> \<not> is_transport n \<and> handshake n \<noteq> None"
  by (auto simp: noise_new_def noise_ok_def is_transport_def res_bind_Inr_iff Let_def)

lemma handshake_call_ok:
  assumes "noise_ok n" and "handshake_call N c n = (r, n')"
  shows "noise_ok n' \<and> (is_transport n \<longrightarrow> r = Inl BadState \<and> n' = n)"
  using assms
  by (auto simp: handshake_call_def maybe_finish_def noise_ok_def is_transport_def Let_def
      split: option.splits sum.splits prod.splits if_splits)

lemma transport_call_handshake: "transport_call c n = (r, n') \<Longrightarrow> handshake n' = handshake n \<and> is_transport n' = is_transport n"
  by (auto simp: transport_call_def is_transport_def split: option.splits prod.splits)

section \<open>What snow promises\<close>

text \<open>
  A \<^verbatim>\<open>snow::TransportState\<close> numbers the messages it writes and expects the messages it reads
  in that order: the number is the AEAD nonce and is not transmitted.  \<open>sn\<close> and \<open>rn\<close> are
  the two counters and \<open>paired t u\<close> says that \<open>u\<close> reads what \<open>t\<close> writes.  A failed call
  leaves the state as it was.
\<close>

definition counter_nonces ::
  "('np, 'hs, 'ts) snow \<Rightarrow> ('ts \<Rightarrow> nat) \<Rightarrow> ('ts \<Rightarrow> nat) \<Rightarrow> ('ts \<Rightarrow> 'ts \<Rightarrow> bool) \<Rightarrow> bool" where
  "counter_nonces N sn rn paired \<longleftrightarrow>
     (\<forall>t pt n e t'. ts_write N t pt n = (Inl e, t') \<longrightarrow> t' = t) \<and>
     (\<forall>t pt n ct t'. ts_write N t pt n = (Inr ct, t') \<longrightarrow>
        sn t' = Suc (sn t) \<and> rn t' = rn t \<and> (\<forall>u. paired t u \<longrightarrow> paired t' u)) \<and>
     (\<forall>t u pt n ct t' m. paired t u \<and> ts_write N t pt n = (Inr ct, t') \<and> length ct \<le> m \<longrightarrow>
        (if rn u = sn t
         then \<exists>u'. ts_read N u ct m = (Inr pt, u') \<and> sn u' = sn u \<and> rn u' = Suc (rn u) \<and> paired t' u'
         else \<exists>e. ts_read N u ct m = (Inl e, u)))"

text \<open>
  The Noise XX exchange: three messages, of which the initiator writes the first and the
  last, that end the handshake on both sides with the other's static key.
\<close>

record ('hs, 'ts) xx_states =
  xx_i :: "'hs \<times> 'hs \<times> 'hs \<times> 'hs"
  xx_r :: "'hs \<times> 'hs \<times> 'hs \<times> 'hs"
  xx_msgs :: "bytes \<times> bytes \<times> bytes"
  xx_ts :: "'ts \<times> 'ts"

fun xx_exchange ::
  "('np, 'hs, 'ts) snow \<Rightarrow> ('sk, 'pk) primitives \<Rightarrow> 'sk identity_secret \<Rightarrow> 'sk identity_secret \<Rightarrow> 'np
     \<Rightarrow> ('hs, 'ts) xx_states \<Rightarrow> bool" where
  "xx_exchange N P ski skr params x \<longleftrightarrow>
     (case (xx_i x, xx_r x, xx_msgs x, xx_ts x) of
        ((i0, i1, i2, i3), (r0, r1, r2, r3), (m1, m2, m3), (ti, tr)) \<Rightarrow>
          parse_params N NOISE_PARAMS = Inr params \<and>
          build_initiator N params (secret_to_bytes P ski) = Inr i0 \<and>
          build_responder N params (secret_to_bytes P skr) = Inr r0 \<and>
          hs_write N i0 [] MAX_DATAGRAM = (Inr m1, i1) \<and> hs_read N r0 m1 MAX_DATAGRAM = (Inr [], r1) \<and>
          hs_write N r1 [] MAX_DATAGRAM = (Inr m2, r2) \<and> hs_read N i1 m2 MAX_DATAGRAM = (Inr [], i2) \<and>
          hs_write N i2 [] MAX_DATAGRAM = (Inr m3, i3) \<and> hs_read N r2 m3 MAX_DATAGRAM = (Inr [], r3) \<and>
          map (is_handshake_finished N) [i1, i2, i3, r1, r2, r3] = [False, False, True, False, False, True] \<and>
          into_transport_mode N i3 = Inr ti \<and> into_transport_mode N r3 = Inr tr \<and>
          get_remote_static N ti = Some (as_bytes P (public P skr)) \<and>
          get_remote_static N tr = Some (as_bytes P (public P ski)) \<and>
          length m1 \<le> 1000 \<and> length m2 \<le> 1000 \<and> length m3 \<le> 1000)"

text \<open>
  An instance with these properties, without secrecy: handshake messages carry the static
  key (\<open>model_primitives\<close> has the public key equal to the secret one), transport messages
  the counter.
\<close>

record model_hs =
  mh_turn :: nat
  mh_own :: bytes
  mh_remote :: bytes

record model_ts =
  mt_sn :: nat
  mt_rn :: nat
  mt_remote :: bytes

definition model_nonce :: "nat \<Rightarrow> bytes" where
  "model_nonce n = to_be 8 (of_nat n :: 64 word)"

definition model_snow :: "(unit, bool \<times> model_hs, model_ts) snow" where
  "model_snow = \<lparr>
     parse_params = (\<lambda>_. Inr ()),
     build_initiator = (\<lambda>_ k. Inr (True, \<lparr>mh_turn = 0, mh_own = k, mh_remote = []\<rparr>)),
     build_responder = (\<lambda>_ k. Inr (False, \<lparr>mh_turn = 0, mh_own = k, mh_remote = []\<rparr>)),
     hs_write = (\<lambda>(ini, h) p n.
       if ini = even (mh_turn h) \<and> mh_turn h < 3 \<and> length (mh_own h @ p) \<le> n
       then (Inr (mh_own h @ p), (ini, h\<lparr>mh_turn := Suc (mh_turn h)\<rparr>)) else (Inl ''state'', (ini, h))),
     hs_read = (\<lambda>(ini, h) m n.
       if ini = odd (mh_turn h) \<and> mh_turn h < 3 \<and> 32 \<le> length m \<and> length m \<le> 32 + n
       then (Inr (drop 32 m), (ini, h\<lparr>mh_turn := Suc (mh_turn h), mh_remote := take 32 m\<rparr>))
       else (Inl ''decrypt'', (ini, h))),
     is_handshake_finished = (\<lambda>(ini, h). mh_turn h = 3),
     into_transport_mode = (\<lambda>(ini, h). Inr \<lparr>mt_sn = 0, mt_rn = 0, mt_remote = mh_remote h\<rparr>),
     ts_write = (\<lambda>t p n. if mt_sn t < 2 ^ 64 - 1 \<and> length p + 8 \<le> n
       then (Inr (model_nonce (mt_sn t) @ p), t\<lparr>mt_sn := Suc (mt_sn t)\<rparr>) else (Inl ''input'', t)),
     ts_read = (\<lambda>t c n. if mt_rn t < 2 ^ 64 - 1 \<and> take 8 c = model_nonce (mt_rn t) \<and> length c \<le> n + 8
       then (Inr (drop 8 c), t\<lparr>mt_rn := Suc (mt_rn t)\<rparr>) else (Inl ''decrypt'', t)),
     get_remote_static = (\<lambda>t. Some (mt_remote t))\<rparr>"

lemma length_model_nonce [simp]: "length (model_nonce n) = 8"
  by (simp add: model_nonce_def)

lemma model_nonce_inj: "m < 2 ^ 64 \<Longrightarrow> n < 2 ^ 64 \<Longrightarrow> model_nonce m = model_nonce n \<Longrightarrow> m = n"
  by (simp add: model_nonce_def to_be_inj of_nat_inverse word_of_nat_eq_iff take_bit_nat_eq_self)

lemma model_snow_counts: "counter_nonces model_snow mt_sn mt_rn (\<lambda>_ _. True)"
  by (auto simp: counter_nonces_def model_snow_def split: if_splits dest: model_nonce_inj [rotated 2])

section \<open>Modes\<close>

inductive noise_step :: "('np, 'hs, 'ts) snow \<Rightarrow> ('hs, 'ts) noise_session \<Rightarrow> ('hs, 'ts) noise_session \<Rightarrow> bool" for N where
  step_write: "write_handshake N p k n = (r, n') \<Longrightarrow> noise_step N n n'"
| step_read: "read_handshake N p k n = (r, n') \<Longrightarrow> noise_step N n n'"
| step_seal: "noise_seal N p k n = (r, n') \<Longrightarrow> noise_step N n n'"
| step_open: "noise_open N p k n = (r, n') \<Longrightarrow> noise_step N n n'"

lemma transport_call_ok: "transport_call c n = (r, n') \<Longrightarrow> noise_ok n \<Longrightarrow> noise_ok n' \<and> (\<not> is_transport n \<longrightarrow> r = Inl BadState \<and> n' = n)"
  by (auto simp: transport_call_def noise_ok_def is_transport_def split: option.splits prod.splits)

lemma noise_step_ok: "noise_step N n n' \<Longrightarrow> noise_ok n \<Longrightarrow> noise_ok n' \<and> (is_transport n \<longrightarrow> is_transport n')"
proof (induction rule: noise_step.induct)
  case (step_write p k n r n')
  then show ?case using handshake_call_ok unfolding write_handshake_def by blast
next
  case (step_read p k n r n')
  then show ?case using handshake_call_ok unfolding read_handshake_def by blast
next
  case (step_seal p k n r n')
  then show ?case using transport_call_ok transport_call_handshake unfolding noise_seal_def by blast
next
  case (step_open p k n r n')
  then show ?case using transport_call_ok transport_call_handshake unfolding noise_open_def by blast
qed

text \<open>
  C16: the two modes of a Noise session.  Whatever operations follow each other after
  \<open>new\<close>, and whatever they are given, a session never holds a handshake and a transport at
  once.  In transport mode, which is never left, both handshake operations answer
  \<open>BadState\<close>; before it sealing, opening, \<open>remote_static\<close> and pinning do; and a refused
  operation changes nothing.
\<close>
theorem noise_mode_discipline:
  assumes "noise_new N P role local = Inr n0" and "reach n0 (noise_step N) n"
  shows "noise_ok n \<and>
    (if is_transport n
     then write_handshake N p k n = (Inl BadState, n) \<and> read_handshake N p k n = (Inl BadState, n) \<and>
       (\<forall>n'. noise_step N n n' \<longrightarrow> is_transport n')
     else noise_seal N p k n = (Inl BadState, n) \<and> noise_open N p k n = (Inl BadState, n) \<and>
       remote_static N n = Inl BadState \<and> pin_remote N p n = Inl BadState)"
proof -
  have ok: "noise_ok n"
    using assms(2) by (induction rule: reach.induct) (use noise_new_ok [OF assms(1)] noise_step_ok in auto)
  show ?thesis
  proof (cases "is_transport n")
    case True
    have "handshake_call N c n = (Inl BadState, n)" for c
      using handshake_call_ok [OF ok, of N c "fst (handshake_call N c n)" "snd (handshake_call N c n)"] True
      by (cases "handshake_call N c n") simp
    then show ?thesis
      using ok True noise_step_ok by (auto simp: write_handshake_def read_handshake_def)
  next
    case False
    then show ?thesis
      using ok by (simp add: noise_seal_def noise_open_def transport_call_def remote_static_def pin_remote_def is_transport_def)
  qed
qed

theorem noise_mode_discipline_witness:
  "noise_seal model_snow [1] 1200 \<lparr>handshake = Some (True, \<lparr>mh_turn = 1, mh_own = to_be 32 (5 :: 256 word), mh_remote = []\<rparr>), transport = None\<rparr>
    = (Inl BadState, \<lparr>handshake = Some (True, \<lparr>mh_turn = 1, mh_own = to_be 32 (5 :: 256 word), mh_remote = []\<rparr>), transport = None\<rparr>)"
proof -
  let ?n = "\<lambda>t. \<lparr>handshake = Some (True, \<lparr>mh_turn = t, mh_own = to_be 32 (5 :: 256 word), mh_remote = []\<rparr>), transport = None :: model_ts option\<rparr>"
  have new: "noise_new model_snow model_primitives Initiator (IdentitySecret 5) = Inr (?n 0)"
    by (simp add: noise_new_def model_snow_def secret_to_bytes_def model_primitives_def)
  have "write_handshake model_snow [] 1200 (?n 0) = (Inr (to_be 32 (5 :: 256 word)), ?n 1)"
    by (simp add: write_handshake_def handshake_call_def model_snow_def maybe_finish_def)
  then have "reach (?n 0) (noise_step model_snow) (?n 1)"
    by (intro reach_step [OF reach_init] step_write)
  from noise_mode_discipline [OF new this, of "[1]" 1200] show ?thesis by (simp add: is_transport_def)
qed

end
