(* ===== verification/Ppose_Udp.thy ===== *)
theory Ppose_Udp
  imports Ppose_Packet
begin

text \<open>
  The operating system as the crate sees it, and \<^verbatim>\<open>src/network/udp.rs\<close>.  A
  \<open>world\<close> fixes in advance what each successive \<^verbatim>\<open>recv_from\<close>, \<^verbatim>\<open>Instant::now\<close> and
  \<^verbatim>\<open>send_to\<close> call of a run returns, as functions of the number of the call, whether a socket option can be set (\<open>opt_at\<close>, by the
  number of clock readings so far), and logs the datagrams sent.  Theorems quantify over all worlds, so over every arrival order,
  timing and I/O failure.  A datagram longer than the receive buffer is cut to it.
\<close>

datatype io_error = WouldBlock | TimedOut | InvalidInput | InvalidData | IoOther

record world =
  recv_at :: "nat \<Rightarrow> io_error + (bytes \<times> socket_addr)"
  recv_no :: nat
  clock_at :: "nat \<Rightarrow> instant"
  clock_no :: nat
  send_at :: "nat \<Rightarrow> io_error option"
  send_no :: nat
  opt_at :: "nat \<Rightarrow> io_error option"
  sent :: "(bytes \<times> socket_addr) list"

definition recv_from :: "world \<Rightarrow> (io_error + (bytes \<times> socket_addr)) \<times> world" where
  "recv_from w =
     (map_sum id (\<lambda>(d, from). (take MAX_DATAGRAM d, from)) (recv_at w (recv_no w)),
      w\<lparr>recv_no := Suc (recv_no w)\<rparr>)"

definition instant_now :: "world \<Rightarrow> instant \<times> world" where
  "instant_now w = (clock_at w (clock_no w), w\<lparr>clock_no := Suc (clock_no w)\<rparr>)"

definition send_to :: "bytes \<Rightarrow> socket_addr \<Rightarrow> world \<Rightarrow> (io_error + unit) \<times> world" where
  "send_to pkt dest w =
     (let w1 = w\<lparr>send_no := Suc (send_no w)\<rparr>
      in case send_at w (send_no w) of
           None \<Rightarrow> (Inr (), w1\<lparr>sent := sent w1 @ [(pkt, dest)]\<rparr>)
         | Some e \<Rightarrow> (Inl e, w1))"

definition send_framed :: "socket_addr \<Rightarrow> packet_type \<Rightarrow> bytes \<Rightarrow> world \<Rightarrow> (io_error + unit) \<times> world" where
  "send_framed peer ty body w =
     (case encode_datagram ty body of
        Inl e \<Rightarrow> (Inl InvalidInput, w)
      | Inr pkt \<Rightarrow> send_to pkt peer w)"

definition recv_raw :: "world \<Rightarrow> (io_error + (bytes \<times> socket_addr)) \<times> world" where
  "recv_raw w = recv_from w"

definition recv_framed :: "world \<Rightarrow> (io_error + (packet_type \<times> bytes \<times> socket_addr)) \<times> world" where
  "recv_framed w =
     (case recv_raw w of
        (Inl e, w1) \<Rightarrow> (Inl e, w1)
      | (Inr (pkt, from), w1) \<Rightarrow>
          (case decode_outer pkt of
             Inl e \<Rightarrow> (Inl InvalidData, w1)
           | Inr (ty, flags, body) \<Rightarrow> (Inr (ty, body, from), w1)))"

lemma recv_from_world [simp]: "snd (recv_from w) = w\<lparr>recv_no := Suc (recv_no w)\<rparr>"
  by (simp add: recv_from_def)

lemma sent_send_to:
  "sent (snd (send_to pkt dest w)) = sent w @ (if send_at w (send_no w) = None then [(pkt, dest)] else [])"
  by (auto simp: send_to_def Let_def split: option.splits)

lemma fst_send_to: "fst (send_to pkt dest w) = Inr () \<longleftrightarrow> send_at w (send_no w) = None"
  by (auto simp: send_to_def Let_def split: option.splits)

lemma instant_now_world [simp]: "snd (instant_now w) = w\<lparr>clock_no := Suc (clock_no w)\<rparr>"
  by (simp add: instant_now_def)

fun same_streams :: "world \<Rightarrow> world \<Rightarrow> bool" where
  "same_streams w w' \<longleftrightarrow> recv_at w' = recv_at w \<and> clock_at w' = clock_at w \<and> send_at w' = send_at w \<and> opt_at w' = opt_at w"

lemma send_to_frame:
  "send_to pkt a w = (r, w') \<Longrightarrow> same_streams w w' \<and> recv_no w' = recv_no w \<and> clock_no w' = clock_no w
     \<and> (\<exists>out. sent w' = sent w @ out \<and> length out \<le> 1)"
  by (auto simp: send_to_def Let_def split: option.splits)

lemma recv_from_frame:
  "recv_from w = (r, w1) \<Longrightarrow> same_streams w w1 \<and> recv_no w1 = Suc (recv_no w) \<and> sent w1 = sent w
     \<and> clock_no w1 = clock_no w \<and> (isl (recv_at w (recv_no w)) \<longleftrightarrow> isl r)"
  by (auto simp: recv_from_def isl_map_sum)

text \<open>The loop of a service daemon: \<open>n\<close> steps, errors ignored.\<close>

fun service_run :: "('s \<Rightarrow> world \<Rightarrow> (io_error + bool) \<times> 's \<times> world) \<Rightarrow> nat \<Rightarrow> 's \<Rightarrow> world \<Rightarrow> 's \<times> world" where
  "service_run step 0 s w = (s, w)"
| "service_run step (Suc n) s w = (case step s w of (_, s1, w1) \<Rightarrow> service_run step n s1 w1)"

text \<open>How many of the next \<open>n\<close> receive calls return a datagram.\<close>

fun arrivals :: "(nat \<Rightarrow> io_error + (bytes \<times> socket_addr)) \<Rightarrow> nat \<Rightarrow> nat \<Rightarrow> nat" where
  "arrivals rs k 0 = 0"
| "arrivals rs k (Suc n) = (if isl (rs k) then 0 else 1) + arrivals rs (Suc k) n"

text \<open>A receive error that is not a timeout.\<close>

fun hard_error :: "io_error + 'a \<Rightarrow> bool" where
  "hard_error (Inl e) \<longleftrightarrow> e \<noteq> WouldBlock \<and> e \<noteq> TimedOut"
| "hard_error (Inr _) \<longleftrightarrow> False"

text \<open>
  What the three UDP services of the crate (relay, onion relay, rendezvous) have in
  common: a step takes one datagram and sends at most one, and none without taking one; while
  sending works, a step fails exactly on a receive error that is not a timeout, and with that error.
\<close>

locale datagram_service =
  fixes step :: "'s \<Rightarrow> world \<Rightarrow> (io_error + bool) \<times> 's \<times> world"
  assumes step_one: "step s w = (res, s', w') \<Longrightarrow> same_streams w w' \<and> recv_no w' = Suc (recv_no w) \<and> clock_no w \<le> clock_no w' \<and>
    (\<exists>out. sent w' = sent w @ out \<and> length out \<le> (if isl (recv_at w (recv_no w)) then 0 else 1))"
    and step_fails: "step s w = (res, s', w') \<Longrightarrow> \<forall>k. send_at w k = None \<Longrightarrow>
      res = Inl e \<longleftrightarrow> recv_at w (recv_no w) = Inl e \<and> hard_error (recv_at w (recv_no w))"
begin

lemma run_streams:
  "service_run step n s w = (s', w') \<Longrightarrow> same_streams w w' \<and> recv_no w' = recv_no w + n \<and> clock_no w \<le> clock_no w'"
proof (induction n arbitrary: s w)
  case (Suc n)
  obtain res s1 w1 where st: "step s w = (res, s1, w1)" by (cases "step s w")
  show ?case using Suc.IH [of s1 w1] Suc.prems step_one [OF st] by (auto simp: st)
qed simp

lemma run_sends:
  "service_run step n s w = (s', w') \<Longrightarrow>
     \<exists>out. sent w' = sent w @ out \<and> length out \<le> arrivals (recv_at w) (recv_no w) n"
proof (induction n arbitrary: s w)
  case (Suc n)
  obtain res s1 w1 where st: "step s w = (res, s1, w1)" by (cases "step s w")
  obtain o1 where o1: "sent w1 = sent w @ o1" "length o1 \<le> (if isl (recv_at w (recv_no w)) then 0 else 1)"
    "recv_at w1 = recv_at w" "recv_no w1 = Suc (recv_no w)"
    using step_one [OF st] by auto
  obtain o2 where "sent w' = sent w1 @ o2" "length o2 \<le> arrivals (recv_at w) (Suc (recv_no w)) n"
    using Suc.IH [of s1 w1] Suc.prems o1 by (auto simp: st)
  then show ?case using o1 by (intro exI [of _ "o1 @ o2"]) auto
qed simp

end

lemma send_result:
  assumes "(case send_to pkt dest w of (Inl e, w3) \<Rightarrow> (Inl e, s, w3) | (Inr _, w3) \<Rightarrow> (Inr True, s, w3)) = (res, s', w')"
  shows "s' = s \<and> (\<exists>out. sent w' = sent w @ out \<and> length out \<le> 1 \<and> (res = Inr True \<longrightarrow> length out = 1))"
proof -
  obtain r w3 where st: "send_to pkt dest w = (r, w3)" by (cases "send_to pkt dest w")
  have "s' = s \<and> w' = w3 \<and> (res = Inr True \<longleftrightarrow> r = Inr ())"
    using assms by (cases r) (auto simp: st)
  then show ?thesis using sent_send_to [of pkt dest w] fst_send_to [of pkt dest w] by (simp add: st)
qed

text \<open>
  A framed datagram arrives as it was sent.  If \<open>send_framed\<close> succeeds, it has put
  exactly one datagram on the wire, of at most 1200 bytes, and a receiver to which the
  network hands that datagram reads the type and body back.
\<close>
lemma framed_delivery:
  assumes "send_framed peer ty body w = (Inr (), w')"
    and "recv_at v (recv_no v) = Inr (fst (last (sent w')), from)"
  shows "sent w' = sent w @ [(encode_outer ty 0 @ body, peer)] \<and> fst (recv_framed v) = Inr (ty, body, from)"
proof -
  obtain pkt where e: "encode_datagram ty body = Inr pkt" and s: "send_to pkt peer w = (Inr (), w')"
    using assms(1) by (auto simp: send_framed_def split: sum.splits)
  have pkt: "pkt = encode_outer ty 0 @ body" "length pkt \<le> MAX_DATAGRAM"
    using e length_encode_datagram [OF e] by (simp_all add: encode_datagram_Inr_iff)
  have w': "sent w' = sent w @ [(pkt, peer)]"
    using s sent_send_to [of pkt peer w] fst_send_to [of pkt peer w] by simp
  then have "recv_from v = (Inr (pkt, from), v\<lparr>recv_no := Suc (recv_no v)\<rparr>)"
    using assms(2) pkt(2) by (simp add: recv_from_def)
  then show ?thesis
    using w' pkt(1) by (simp add: recv_framed_def recv_raw_def)
qed

text \<open>The end of a step that sends: no error unless sending fails.\<close>

lemma send_to_None: "\<forall>k. send_at w k = None \<Longrightarrow> send_to pkt a w = (Inr (), w\<lparr>send_no := Suc (send_no w), sent := sent w @ [(pkt, a)]\<rparr>)"
  by (simp add: send_to_def)

lemma recv_from_error:
  "recv_from w = (r, w1) \<Longrightarrow> (recv_at w (recv_no w) = Inl e \<longleftrightarrow> r = Inl e) \<and> hard_error (recv_at w (recv_no w)) = hard_error r"
  by (cases "recv_at w (recv_no w)") (auto simp: recv_from_def)

definition quiet_world :: world where
  "quiet_world = \<lparr>recv_at = (\<lambda>_. Inl TimedOut), recv_no = 0, clock_at = id, clock_no = 0,
     send_at = (\<lambda>_. None), send_no = 0, opt_at = (\<lambda>_. None), sent = []\<rparr>"

end
