(* ===== verification/Ppose_Forward.thy ===== *)
theory Ppose_Forward
  imports Ppose_Packet
begin

text \<open>
  The body of a FORWARD packet, \<^verbatim>\<open>src/network/forward.rs\<close>: six cleartext bytes of
  destination and the inner datagram.  Shown: the codec accepts nothing but encodings, so
  a body has one reading, and the exact size limit.
\<close>

definition FORWARD_BODY_OVERHEAD :: nat where
  "FORWARD_BODY_OVERHEAD = 6"

definition encode_forward_body :: "socket_addr \<Rightarrow> bytes \<Rightarrow> packet_error + bytes" where
  "encode_forward_body dest inner =
     (case dest of
        V6 ip port flow scope \<Rightarrow> Inl BadAddress
      | V4 ip port \<Rightarrow>
          if OUTER_HEADER_LEN + FORWARD_BODY_OVERHEAD + length inner > MAX_DATAGRAM
          then Inl TooLarge
          else Inr (addr_bytes ip port @ inner))"

definition decode_forward_body :: "bytes \<Rightarrow> packet_error + (socket_addr \<times> bytes)" where
  "decode_forward_body body =
     (if length body < FORWARD_BODY_OVERHEAD then Inl Truncated
      else Inr (read_addr body, drop FORWARD_BODY_OVERHEAD body))"

lemma encode_forward_body_Inr_iff:
  "encode_forward_body dest inner = Inr body \<longleftrightarrow>
     (\<exists>ip port. dest = V4 ip port \<and> length inner \<le> 1186 \<and> body = addr_bytes ip port @ inner)"
  by (auto simp: encode_forward_body_def FORWARD_BODY_OVERHEAD_def const_defs split: socket_addr.splits)

lemma decode_forward_addr [codec_simps]:
  "decode_forward_body (addr_bytes ip port @ inner) = Inr (V4 ip port, inner)"
  by (simp add: decode_forward_body_def FORWARD_BODY_OVERHEAD_def read_addr_bytes)

lemma decode_forward_Inr_iff:
  "decode_forward_body body = Inr (dest, inner) \<longleftrightarrow>
     (\<exists>ip port. dest = V4 ip port \<and> body = addr_bytes ip port @ inner)"
proof
  assume L: "decode_forward_body body = Inr (dest, inner)"
  then have len: "6 \<le> length body" and d: "dest = read_addr body" "inner = drop 6 body"
    by (auto simp: decode_forward_body_def FORWARD_BODY_OVERHEAD_def not_less split: if_splits)
  obtain ip port where "read_addr body = V4 ip port" by (simp add: read_addr_def)
  with addr_bytes_read [OF len this] d
  show "\<exists>ip port. dest = V4 ip port \<and> body = addr_bytes ip port @ inner" by auto
qed (auto simp: decode_forward_addr)

text \<open>The body as a strict codec on IPv4 destinations.\<close>

fun is_v4 :: "socket_addr \<Rightarrow> bool" where
  "is_v4 (V4 ip port) = True"
| "is_v4 (V6 ip port flow scope) = False"

fun forward_enc :: "socket_addr \<times> bytes \<Rightarrow> bytes" where
  "forward_enc (V4 ip port, inner) = addr_bytes ip port @ inner"
| "forward_enc (V6 ip port flow scope, inner) = []"

interpretation forward: strict_codec "\<lambda>(dest, inner). is_v4 dest" forward_enc decode_forward_body
proof unfold_locales
  show "decode_forward_body (forward_enc a) = Inr a" if "case a of (dest, inner) \<Rightarrow> is_v4 dest" for a
    using that by (cases a rule: forward_enc.cases) (simp_all add: decode_forward_addr)
qed (auto simp: decode_forward_Inr_iff)

text \<open>
  C35: a forward body has one reading.  It decodes to a destination and an inner datagram
  exactly when it is their encoding, and the encoder refuses exactly the IPv6
  destinations and the inner datagrams above 1186 bytes.
\<close>
theorem forward_strict:
  "(decode_forward_body body = Inr (dest, inner)) = (is_v4 dest \<and> body = forward_enc (dest, inner))
   \<and> encode_forward_body dest inner =
      (if \<not> is_v4 dest then Inl BadAddress
       else if length inner > 1186 then Inl TooLarge else Inr (forward_enc (dest, inner)))"
  using forward.dec_iff [of body "(dest, inner)"]
  by (cases dest) (simp_all add: encode_forward_body_def FORWARD_BODY_OVERHEAD_def const_defs)

end
