(* ===== verification/Ppose_Replay.thy ===== *)
theory Ppose_Replay
  imports Ppose_Containers
begin

text \<open>
  The bounded replay cache of the forwarders, \<^verbatim>\<open>src/network/replay.rs\<close>.  The BLAKE3
  hash is third-party code and a parameter (\<open>hash\<close>).  The list order of \<open>seen\<close>
  stands for the iteration order of the \<^verbatim>\<open>HashMap\<close>, which decides between equally
  old entries at an eviction.
\<close>

section \<open>Model\<close>

definition DEFAULT_TTL :: duration where
  "DEFAULT_TTL = from_secs 30"

definition DEFAULT_CAP :: nat where
  "DEFAULT_CAP = 4096"

record replay_cache =
  seen :: "(bytes \<times> instant) list"
  ttl :: duration
  cap :: nat

definition with_bounds :: "duration \<Rightarrow> nat \<Rightarrow> replay_cache" where
  "with_bounds t c = \<lparr>seen = [], ttl = t, cap = c\<rparr>"

definition replay_new :: replay_cache where
  "replay_new = \<lparr>seen = [], ttl = DEFAULT_TTL, cap = DEFAULT_CAP\<rparr>"

definition replay_expire :: "replay_cache \<Rightarrow> instant \<Rightarrow> replay_cache" where
  "replay_expire c now = c\<lparr>seen := hm_retain (\<lambda>_ t. now - t < ttl c) (seen c)\<rparr>"

text \<open>\<^verbatim>\<open>iter().min_by_key(|(_, t)| *t)\<close>: the first of the minimal entries.\<close>

fun min_by_time :: "(bytes \<times> instant) list \<Rightarrow> (bytes \<times> instant) option" where
  "min_by_time [] = None"
| "min_by_time (e # es) =
     (case min_by_time es of
        None \<Rightarrow> Some e
      | Some f \<Rightarrow> if snd e \<le> snd f then Some e else Some f)"

definition replay_key :: "(bytes \<Rightarrow> bytes) \<Rightarrow> bytes \<Rightarrow> bytes" where
  "replay_key hash inner = take 16 (hash inner)"

definition accept :: "(bytes \<Rightarrow> bytes) \<Rightarrow> replay_cache \<Rightarrow> bytes \<Rightarrow> instant \<Rightarrow> bool \<times> replay_cache" where
  "accept hash c inner now =
     (let c1 = replay_expire c now;
          key = replay_key hash inner
      in if hm_get (seen c1) key \<noteq> None then (False, c1)
         else
           let c2 = (if length (seen c1) \<ge> cap c1
                     then case min_by_time (seen c1) of
                            Some (oldest, _) \<Rightarrow> c1\<lparr>seen := hm_remove oldest (seen c1)\<rparr>
                          | None \<Rightarrow> c1
                     else c1)
           in (True, c2\<lparr>seen := hm_insert key now (seen c2)\<rparr>))"

definition replay_len :: "replay_cache \<Rightarrow> nat" where
  "replay_len c = length (seen c)"

definition replay_is_empty :: "replay_cache \<Rightarrow> bool" where
  "replay_is_empty c \<longleftrightarrow> seen c = []"

section \<open>Lemmas\<close>

lemma min_by_time_None [simp]: "min_by_time es = None \<longleftrightarrow> es = []"
  by (cases es) (auto split: option.splits)

lemma min_by_time_Some: "min_by_time es = Some e \<Longrightarrow> e \<in> set es \<and> (\<forall>f \<in> set es. snd e \<le> snd f)"
  by (induction es arbitrary: e) (auto split: option.splits if_splits)

definition remembers :: "replay_cache \<Rightarrow> bytes \<Rightarrow> instant \<Rightarrow> bool" where
  "remembers c key now \<longleftrightarrow> (case hm_get (seen c) key of None \<Rightarrow> False | Some t \<Rightarrow> now - t < ttl c)"

definition replay_inv :: "replay_cache \<Rightarrow> bool" where
  "replay_inv c \<longleftrightarrow> hm_wf (seen c) \<and> length (seen c) \<le> max 1 (cap c)"

definition newer :: "instant \<Rightarrow> replay_cache \<Rightarrow> nat" where
  "newer t c = length (filter (\<lambda>e. t \<le> snd e) (seen c))"

lemma expire_simps [simp]:
  "ttl (replay_expire c now) = ttl c" "cap (replay_expire c now) = cap c"
  by (simp_all add: replay_expire_def)

lemma get_expire:
  "hm_wf (seen c) \<Longrightarrow> hm_get (seen (replay_expire c now)) key =
     (if remembers c key now then hm_get (seen c) key else None)"
  by (auto simp: replay_expire_def hm_get_retain remembers_def split: option.splits)

lemma wf_expire: "hm_wf (seen c) \<Longrightarrow> hm_wf (seen (replay_expire c now))"
  by (simp add: replay_expire_def)

lemma newer_expire: "newer t (replay_expire c now) \<le> newer t c"
  unfolding newer_def replay_expire_def hm_retain_def
  by (simp add: length_filter_filter del: filter_filter)

text \<open>The eviction step of \<open>accept\<close>.\<close>

definition make_room :: "replay_cache \<Rightarrow> replay_cache" where
  "make_room c = (if length (seen c) \<ge> cap c
     then case min_by_time (seen c) of
            Some (oldest, _) \<Rightarrow> c\<lparr>seen := hm_remove oldest (seen c)\<rparr> | None \<Rightarrow> c
     else c)"

lemma accept_eq:
  assumes "hm_wf (seen c)"
  shows "accept hash c p now =
    (if remembers c (replay_key hash p) now then (False, replay_expire c now)
     else (True, let r = make_room (replay_expire c now)
                 in r\<lparr>seen := hm_insert (replay_key hash p) now (seen r)\<rparr>))"
  using get_expire [OF assms, of now "replay_key hash p"]
  by (auto simp: accept_def make_room_def Let_def remembers_def split: option.splits)

lemma wf_make_room: "hm_wf (seen c) \<Longrightarrow> hm_wf (seen (make_room c))"
  by (auto simp: make_room_def hm.wf_del split: option.splits)

lemma length_make_room:
  assumes "hm_wf (seen c)"
  shows "length (seen (make_room c)) \<le> (if cap c \<le> length (seen c) then length (seen c) - 1 else length (seen c))"
proof (cases "min_by_time (seen c)")
  case (Some e)
  obtain k t where e: "e = (k, t)" by (cases e)
  have "(k, t) \<in> set (seen c)" using min_by_time_Some [OF Some] e by simp
  then have "length (hm_remove k (seen c)) < length (seen c)"
    unfolding hm_remove_def by (intro length_filter_less [of "(k, t)"]) auto
  then show ?thesis by (auto simp: make_room_def Some e)
qed (simp add: make_room_def)

lemma make_room_frame: "make_room c = c\<lparr>seen := seen (make_room c)\<rparr>"
  by (auto simp: make_room_def split: option.splits)

lemma make_room_cap [simp]: "cap (make_room c) = cap c" "ttl (make_room c) = ttl c"
  by (auto simp: make_room_def split: option.splits)

lemma length_insert_le: "length (hm_insert k v m) \<le> Suc (length m)"
  by (induction m) (auto simp: hm_insert_def)

lemma length_expire: "length (seen (replay_expire c now)) \<le> length (seen c)"
  by (simp add: replay_expire_def hm_retain_def)

lemma accept_inv:
  assumes "replay_inv c"
  shows "replay_inv (snd (accept hash c p now))"
proof -
  let ?e = "replay_expire c now" and ?k = "replay_key hash p"
  have wf: "hm_wf (seen c)" "length (seen c) \<le> max 1 (cap c)" using assms by (simp_all add: replay_inv_def)
  have wfe: "hm_wf (seen ?e)" using wf(1) by (rule wf_expire)
  have "Suc (length (seen (make_room ?e))) \<le> max 1 (cap c)"
    using length_make_room [OF wfe] length_expire [of c now] wf(2) by (auto split: if_splits)
  then have "length (hm_insert ?k now (seen (make_room ?e))) \<le> max 1 (cap c)"
    using length_insert_le [of ?k now "seen (make_room ?e)"] by linarith
  then show ?thesis
    using wf length_expire [of c now] wf_make_room [OF wfe] wfe
    by (auto simp: replay_inv_def accept_eq Let_def hm.wf_ins)
qed

lemma make_room_keeps:
  assumes wf: "hm_wf (seen c)" and get: "hm_get (seen c) key = Some t" and room: "newer t c < cap c"
  shows "hm_get (seen (make_room c)) key = Some t \<and> newer t (make_room c) \<le> newer t c"
proof (cases "cap c \<le> length (seen c)")
  case True
  show ?thesis
  proof (cases "min_by_time (seen c)")
    case (Some e)
    obtain k0 t0 where e: "e = (k0, t0)" by (cases e)
    note m = min_by_time_Some [OF Some]
    have "k0 \<noteq> key"
    proof
      assume "k0 = key"
      then have "t0 = t" using m get wf map_of_is_SomeI [of "seen c" k0 t0] by (auto simp: e hm_wf_def)
      then have "filter (\<lambda>e. t \<le> snd e) (seen c) = seen c" using m by (auto simp: e filter_id_conv)
      then show False using room True by (simp add: newer_def)
    qed
    then have "hm_get (hm_remove k0 (seen c)) key = Some t" using get hm.map_of_del [OF wf] by simp
    moreover have "length (filter (\<lambda>e. t \<le> snd e) (hm_remove k0 (seen c))) \<le> newer t c"
      unfolding newer_def hm_remove_def by (rule length_filter_filter)
    ultimately show ?thesis using True by (simp add: make_room_def Some e newer_def)
  qed (use get in auto)
qed (simp add: make_room_def get)

lemma newer_insert: "newer t (c\<lparr>seen := hm_insert k v m\<rparr>) \<le> Suc (length (filter (\<lambda>e. t \<le> snd e) m))"
  by (induction m) (auto simp: newer_def hm_insert_def)

lemma accept_keeps:
  assumes wf: "hm_wf (seen c)" and get: "hm_get (seen c) key = Some t" and fresh: "now - t < ttl c"
    and room: "fst (accept hash c p now) \<Longrightarrow> newer t c < cap c"
  defines "c' \<equiv> snd (accept hash c p now)"
  shows "hm_wf (seen c') \<and> hm_get (seen c') key = Some t \<and> ttl c' = ttl c \<and> cap c' = cap c
    \<and> newer t c' \<le> newer t c + (if fst (accept hash c p now) then 1 else 0)"
proof -
  let ?e = "replay_expire c now" and ?k = "replay_key hash p"
  have rem: "remembers c key now" using get fresh by (simp add: remembers_def)
  have wfe: "hm_wf (seen ?e)" using wf by (rule wf_expire)
  have gete: "hm_get (seen ?e) key = Some t" using get_expire [OF wf, of now key] rem get by simp
  show ?thesis
  proof (cases "remembers c ?k now")
    case True
    then show ?thesis using wfe gete newer_expire [of t c now] by (simp add: c'_def accept_eq [OF wf])
  next
    case False
    then have ne: "?k \<noteq> key" using rem by auto
    have "newer t ?e < cap ?e"
      using room False newer_expire [of t c now] by (simp add: accept_eq [OF wf])
    from make_room_keeps [OF wfe gete this]
    have mr: "hm_get (seen (make_room ?e)) key = Some t" "newer t (make_room ?e) \<le> newer t ?e" by simp_all
    have "newer t c' \<le> Suc (newer t (make_room ?e))"
      using False newer_insert [where c = "make_room ?e" and m = "seen (make_room ?e)"]
      by (simp add: c'_def accept_eq [OF wf] Let_def newer_def)
    then show ?thesis
      using False mr newer_expire [of t c now] wf_make_room [OF wfe] ne
      by (auto simp: c'_def accept_eq [OF wf] Let_def hm.wf_ins hm.map_of_ins)
  qed
qed

section \<open>Sequences of packets\<close>

fun replay_run :: "(bytes \<Rightarrow> bytes) \<Rightarrow> replay_cache \<Rightarrow> (bytes \<times> instant) list \<Rightarrow> bool list \<times> replay_cache" where
  "replay_run hash c [] = ([], c)"
| "replay_run hash c ((p, now) # xs) =
     (case accept hash c p now of (v, c1) \<Rightarrow>
        case replay_run hash c1 xs of (vs, c2) \<Rightarrow> (v # vs, c2))"

abbreviation accepted :: "bool list \<Rightarrow> nat" where
  "accepted vs \<equiv> count_list vs True"

lemma run_keeps:
  assumes "hm_wf (seen c)" and "hm_get (seen c) key = Some t"
    and "\<forall>(p, now) \<in> set xs. now - t < ttl c"
    and "replay_run hash c xs = (vs, c')" and "newer t c + accepted vs \<le> cap c"
  shows "hm_wf (seen c') \<and> hm_get (seen c') key = Some t \<and> ttl c' = ttl c"
  using assms
proof (induction hash c xs arbitrary: vs rule: replay_run.induct)
  case (2 hash c p now xs)
  obtain v c1 where a: "accept hash c p now = (v, c1)" by (cases "accept hash c p now")
  obtain us c2 where r: "replay_run hash c1 xs = (us, c2)" by (cases "replay_run hash c1 xs")
  have vs: "vs = v # us" "c' = c2" using "2.prems"(4) by (simp_all add: a r)
  have "newer t c < cap c" if v using "2.prems"(5) that by (simp add: vs)
  then have k: "hm_wf (seen c1)" "hm_get (seen c1) key = Some t" "ttl c1 = ttl c" "cap c1 = cap c"
    "newer t c1 \<le> newer t c + (if v then 1 else 0)"
    using accept_keeps [OF "2.prems"(1,2), of now hash p] "2.prems"(3) by (simp_all add: a)
  show ?case
    using "2.IH" [OF a [symmetric] k(1,2) _ r [folded vs(2)]] "2.prems"(3,5) k vs by (auto split: if_splits)
qed simp

lemma run_ttl_cap:
  "hm_wf (seen c) \<Longrightarrow> replay_run hash c xs = (vs, c') \<Longrightarrow> hm_wf (seen c') \<and> ttl c' = ttl c \<and> cap c' = cap c"
proof (induction hash c xs arbitrary: vs rule: replay_run.induct)
  case (2 hash c p now xs)
  have "hm_wf (seen (snd (accept hash c p now))) \<and> ttl (snd (accept hash c p now)) = ttl c
      \<and> cap (snd (accept hash c p now)) = cap c"
    using wf_make_room [OF wf_expire [OF "2.prems"(1)]] wf_expire [OF "2.prems"(1)]
    by (simp add: accept_eq [OF "2.prems"(1)] Let_def hm.wf_ins)
  with 2 show ?case by (auto split: prod.splits)
qed simp

text \<open>What was accepted since a cache was empty is all it can remember.\<close>

definition explained :: "(bytes \<Rightarrow> bytes) \<Rightarrow> replay_cache \<Rightarrow> (bytes \<times> instant) set \<Rightarrow> bool" where
  "explained hash c H \<longleftrightarrow> (\<forall>key t. hm_get (seen c) key = Some t \<longrightarrow> (\<exists>p. (p, t) \<in> H \<and> key = replay_key hash p))"

lemma get_make_room: "hm_wf (seen c) \<Longrightarrow> hm_get (seen (make_room c)) key = Some t \<Longrightarrow> hm_get (seen c) key = Some t"
  by (auto simp: make_room_def hm.map_of_del split: option.splits if_splits)

lemma accept_explained:
  assumes wf: "hm_wf (seen c)" and ex: "explained hash c H"
  shows "explained hash (snd (accept hash c p now)) (if fst (accept hash c p now) then insert (p, now) H else H)"
proof -
  let ?e = "replay_expire c now" and ?k = "replay_key hash p"
  have e: "\<exists>q. (q, t) \<in> H \<and> key = replay_key hash q" if "hm_get (seen ?e) key = Some t" for key t
    using get_expire [OF wf, of now key] that ex by (simp add: explained_def split: if_splits)
  have wfm: "hm_wf (seen (make_room ?e))" by (rule wf_make_room [OF wf_expire [OF wf]])
  show ?thesis
  proof (cases "remembers c ?k now")
    case True
    then show ?thesis using e by (simp add: accept_eq [OF wf] explained_def)
  next
    case False
    have "\<exists>q. (q, t) \<in> insert (p, now) H \<and> key = replay_key hash q"
      if "hm_get (hm_insert ?k now (seen (make_room ?e))) key = Some t" for key t
      using that e get_make_room [OF wf_expire [OF wf], of now key t]
      by (cases "key = ?k") (auto simp: hm.map_of_ins [OF wfm])
    with False show ?thesis by (simp add: accept_eq [OF wf] explained_def Let_def)
  qed
qed

abbreviation accepted_of :: "(bytes \<times> instant) list \<Rightarrow> bool list \<Rightarrow> (bytes \<times> instant) set" where
  "accepted_of xs vs \<equiv> fst ` {(x, v) \<in> set (zip xs vs). v}"

lemma run_explained:
  assumes "hm_wf (seen c)" and "explained hash c H" and "replay_run hash c xs = (vs, c')"
  shows "explained hash c' (H \<union> accepted_of xs vs)"
  using assms
proof (induction hash c xs arbitrary: vs H rule: replay_run.induct)
  case (2 hash c p now xs)
  obtain v c1 where a: "accept hash c p now = (v, c1)" by (cases "accept hash c p now")
  obtain us c2 where r: "replay_run hash c1 xs = (us, c2)" by (cases "replay_run hash c1 xs")
  have vs: "vs = v # us" "c' = c2" using "2.prems"(3) by (simp_all add: a r)
  have "hm_wf (seen c1)"
    using run_ttl_cap [OF "2.prems"(1), of hash "[(p, now)]" "[v]" c1] by (simp add: a)
  moreover have "explained hash c1 (if v then insert (p, now) H else H)"
    using accept_explained [OF "2.prems"(1,2), of p now] by (simp add: a)
  ultimately have "explained hash c2 ((if v then insert (p, now) H else H) \<union> accepted_of xs us)"
    using "2.IH" [OF a [symmetric]] r vs(2) by blast
  moreover have "(if v then insert (p, now) H else H) \<union> accepted_of xs us = H \<union> accepted_of ((p, now) # xs) vs"
    by (auto simp: vs image_iff)
  ultimately show ?case by (simp add: vs(2))
qed simp

section \<open>Interface: a duplicate filter\<close>

text \<open>
  What the forwarders rely on: an accepted packet is marked with its time, and is not accepted again within the
  horizon while the mark lasts; other packets leave the mark alone as long as there is room, and each of
  them takes at most one place.
\<close>

locale duplicate_filter =
  fixes acc :: "'f \<Rightarrow> bytes \<Rightarrow> instant \<Rightarrow> bool \<times> 'f"
    and ok :: "'f \<Rightarrow> bool" and horizon :: "'f \<Rightarrow> duration"
    and marked :: "'f \<Rightarrow> bytes \<Rightarrow> instant \<Rightarrow> bool" and room :: "'f \<Rightarrow> instant \<Rightarrow> nat"
  assumes acc_ok: "ok f \<Longrightarrow> acc f p now = (v, f') \<Longrightarrow> ok f' \<and> horizon f' = horizon f"
    and acc_marks: "ok f \<Longrightarrow> acc f p now = (True, f') \<Longrightarrow> marked f' p now"
    and marked_again: "ok f \<Longrightarrow> marked f p t \<Longrightarrow> now - t < horizon f \<Longrightarrow> fst (acc f p now) = False"
    and marked_kept: "ok f \<Longrightarrow> marked f p t \<Longrightarrow> now - t < horizon f \<Longrightarrow> acc f q now = (v, f') \<Longrightarrow> 0 < room f t \<Longrightarrow>
      marked f' p t \<and> room f t \<le> Suc (room f' t)"

lemma accept_fresh:
  assumes "hm_wf (seen c)" and "accept hash c p t = (True, c1)"
  shows "hm_wf (seen c1) \<and> hm_get (seen c1) (replay_key hash p) = Some t \<and> ttl c1 = ttl c \<and> cap c1 = cap c"
proof -
  let ?m = "make_room (replay_expire c t)"
  have "c1 = ?m\<lparr>seen := hm_insert (replay_key hash p) t (seen ?m)\<rparr>"
    using assms(2) by (auto simp: accept_eq [OF assms(1)] Let_def split: if_splits)
  then show ?thesis
    using wf_make_room [OF wf_expire [OF assms(1)]] by (simp add: hm.wf_ins hm.map_of_ins)
qed

definition replay_marked :: "(bytes \<Rightarrow> bytes) \<Rightarrow> replay_cache \<Rightarrow> bytes \<Rightarrow> instant \<Rightarrow> bool" where
  "replay_marked hash c p t \<longleftrightarrow> hm_get (seen c) (replay_key hash p) = Some t"

text \<open>The places left for packets that come after time \<open>t\<close>.\<close>

definition replay_room :: "replay_cache \<Rightarrow> instant \<Rightarrow> nat" where
  "replay_room c t = cap c - newer t c"

interpretation replay: duplicate_filter "accept hash" replay_inv ttl "replay_marked hash" replay_room
proof unfold_locales
  show "replay_inv c' \<and> ttl c' = ttl c" if "replay_inv c" "accept hash c p now = (v, c')" for c p now v c'
    using accept_inv [OF that(1), of hash p now] run_ttl_cap [of c hash "[(p, now)]" "[v]" c'] that
    by (simp add: replay_inv_def)
  show "replay_marked hash c' p now" if "replay_inv c" "accept hash c p now = (True, c')" for c p now c'
    using accept_fresh [OF _ that(2)] that(1) by (simp add: replay_inv_def replay_marked_def)
  show "fst (accept hash c p now) = False" if "replay_inv c" "replay_marked hash c p t" "now - t < ttl c" for c p t now
    using that by (simp add: replay_inv_def accept_eq remembers_def replay_marked_def)
  show "replay_marked hash c' p t \<and> replay_room c t \<le> Suc (replay_room c' t)"
    if "replay_inv c" "replay_marked hash c p t" "now - t < ttl c" "accept hash c q now = (v, c')" "0 < replay_room c t" for c p t now q v c'
    using accept_keeps [of c "replay_key hash p" t now hash q] that
    by (auto simp: replay_inv_def replay_marked_def replay_room_def split: if_splits)
qed

section \<open>Properties\<close>

text \<open>
  C31: duplicate suppression.  A packet accepted at time \<open>t\<close> is rejected at every later
  time within the TTL, whatever packets arrive in between, as long as the entries not
  older than it, together with those accepted since, fit into the cache.
\<close>
theorem replay_suppressed:
  assumes "hm_wf (seen c)" and "accept hash c p t = (True, c1)"
    and "replay_run hash c1 xs = (vs, c2)" and "\<forall>(q, now) \<in> set xs. now - t < ttl c"
    and "newer t c1 + accepted vs \<le> cap c" and "t' - t < ttl c"
  shows "fst (accept hash c2 p t') = False"
proof -
  let ?k = "replay_key hash p"
  have "hm_wf (seen c1)" "hm_get (seen c1) ?k = Some t" "ttl c1 = ttl c" "cap c1 = cap c"
    using accept_fresh [OF assms(1,2)] by simp_all
  then have "hm_wf (seen c2)" "hm_get (seen c2) ?k = Some t" "ttl c2 = ttl c"
    using run_keeps [of c1 ?k t xs hash vs c2] assms by simp_all
  then show ?thesis using assms(6) by (simp add: accept_eq remembers_def)
qed

theorem replay_suppressed_witness:
  "fst (accept id (snd (accept id (snd (accept id (with_bounds 10 2) [1] 5)) [2] 6)) [1] 7) = False"
proof -
  let ?c0 = "with_bounds 10 2"
  have a: "accept id ?c0 [1] 5 = (True, \<lparr>seen = [([1], 5)], ttl = 10, cap = 2\<rparr>)"
    by (simp add: accept_def with_bounds_def replay_expire_def hm_retain_def replay_key_def hm_insert_def Let_def)
  have b: "replay_run id \<lparr>seen = [([1], 5)], ttl = 10, cap = 2\<rparr> [([2], 6)] =
     ([True], snd (accept id \<lparr>seen = [([1], 5)], ttl = 10, cap = 2\<rparr> [2] 6))"
    by (simp add: accept_def replay_expire_def hm_retain_def replay_key_def hm_insert_def Let_def)
  show ?thesis
    unfolding a snd_conv
    by (rule replay_suppressed [OF _ a b]) (simp_all add: with_bounds_def hm_wf_def newer_def)
qed

text \<open>
  C32: no unexplained drop.  A cache that started empty rejects a packet only if a packet
  with the same truncated hash was accepted less than the TTL ago.
\<close>
theorem replay_drop_explained:
  assumes "replay_run hash (with_bounds T C) xs = (vs, c)" and "fst (accept hash c p now) = False"
  shows "\<exists>q t. ((q, t), True) \<in> set (zip xs vs) \<and> replay_key hash q = replay_key hash p \<and> now - t < T"
proof -
  have wf0: "hm_wf (seen (with_bounds T C))" by (simp add: with_bounds_def hm_wf_def)
  have wf: "hm_wf (seen c)" "ttl c = T" using run_ttl_cap [OF wf0 assms(1)] by (simp_all add: with_bounds_def)
  have "explained hash (with_bounds T C) {}" by (simp add: explained_def with_bounds_def)
  from run_explained [OF wf0 this assms(1)] have ex: "explained hash c (accepted_of xs vs)" by simp
  obtain t where "hm_get (seen c) (replay_key hash p) = Some t" "now - t < T"
    using assms(2) wf(2) by (auto simp: accept_eq [OF wf(1)] remembers_def split: option.splits if_splits)
  then show ?thesis using ex unfolding explained_def by fastforce
qed

theorem replay_drop_explained_witness:
  "\<exists>q t. ((q, t), True) \<in> set (zip [([1::u8], 5::nat)] [True]) \<and> replay_key id q = replay_key id [1] \<and> 7 - t < 10"
proof -
  have a: "accept id (with_bounds 10 2) [1] 5 = (True, \<lparr>seen = [([1], 5)], ttl = 10, cap = 2\<rparr>)"
    by (simp add: accept_def with_bounds_def replay_expire_def hm_retain_def replay_key_def hm_insert_def Let_def)
  have r: "replay_run id (with_bounds 10 2) [([1], 5)] = ([True], \<lparr>seen = [([1], 5)], ttl = 10, cap = 2\<rparr>)"
    by (simp add: a)
  show ?thesis
    by (rule replay_drop_explained [OF r])
      (simp add: accept_def replay_expire_def hm_retain_def replay_key_def)
qed

text \<open>
  The cache is bounded.  Whatever packets arrive, it never holds more than its
  capacity, or one entry when the capacity is zero.
\<close>
lemma replay_bounded:
  "replay_len (snd (replay_run hash (with_bounds T C) xs)) \<le> max 1 C"
proof -
  have "replay_inv c \<and> cap c = C \<Longrightarrow> replay_inv (snd (replay_run hash c xs)) \<and> cap (snd (replay_run hash c xs)) = C" for c
  proof (induction hash c xs rule: replay_run.induct)
    case (2 hash c p now xs)
    obtain v c1 where a: "accept hash c p now = (v, c1)" by (cases "accept hash c p now")
    have "replay_inv c1" using accept_inv [of c hash p now] 2 by (simp add: a)
    moreover have "cap c1 = C"
      using run_ttl_cap [of c hash "[(p, now)]" "[v]" c1] 2 by (simp add: a replay_inv_def)
    ultimately show ?case using "2.IH" [OF a [symmetric]] by (cases "replay_run hash c1 xs") (simp add: a)
  qed simp
  from this [of "with_bounds T C"] show ?thesis
    by (auto simp: replay_inv_def replay_len_def with_bounds_def hm_wf_def)
qed

end
