(* ===== verification/Ppose_Relay.thy ===== *)
theory Ppose_Relay
  imports Ppose_Udp Ppose_Forward Ppose_Replay
begin

text \<open>
  The UDP forwarder, \<^verbatim>\<open>src/relay.rs\<close>, and the contract it shares with the onion relay:
  both ask the replay filter before they send, so neither forwards the same inner
  datagram twice within the filter's horizon while the filter has room (locale \<open>forwarder\<close>).
\<close>

section \<open>Model\<close>

record relay =
  r_replay :: replay_cache

definition relay_bind :: relay where
  "relay_bind = \<lparr>r_replay = replay_new\<rparr>"

definition relay_step :: "(bytes \<Rightarrow> bytes) \<Rightarrow> relay \<Rightarrow> world \<Rightarrow> (io_error + bool) \<times> relay \<times> world" where
  "relay_step hash r w =
     (case recv_from w of
        (Inl e, w1) \<Rightarrow> if e = WouldBlock \<or> e = TimedOut then (Inr False, r, w1) else (Inl e, r, w1)
      | (Inr (buf, from), w1) \<Rightarrow>
         (case decode_outer buf of
            Inl _ \<Rightarrow> (Inr False, r, w1)
          | Inr (ty, flags, body) \<Rightarrow>
              if ty \<noteq> Forward then (Inr False, r, w1)
              else case decode_forward_body body of
                  Inl _ \<Rightarrow> (Inr False, r, w1)
                | Inr (dest, inner) \<Rightarrow>
                    (case instant_now w1 of (now, w2) \<Rightarrow>
                     case accept hash (r_replay r) inner now of (fresh, c) \<Rightarrow>
                       let r1 = r\<lparr>r_replay := c\<rparr>
                       in if \<not> fresh then (Inr False, r1, w2)
                          else case encode_forward_body from inner of
                              Inl _ \<Rightarrow> (Inr False, r1, w2)
                            | Inr out_body \<Rightarrow>
                                (case send_to (encode_outer Forward 0 @ out_body) dest w2 of
                                   (Inl e, w3) \<Rightarrow> (Inl e, r1, w3)
                                 | (Inr _, w3) \<Rightarrow> (Inr True, r1, w3)))))"

text \<open>\<^verbatim>\<open>run_until\<close>; \<open>stop n\<close> is the answer of the closure's \<open>n\<close>-th call.\<close>

partial_function (option) relay_run_until ::
  "(bytes \<Rightarrow> bytes) \<Rightarrow> (nat \<Rightarrow> bool) \<Rightarrow> nat \<Rightarrow> relay \<Rightarrow> world \<Rightarrow> ((io_error + unit) \<times> relay \<times> world) option" where
  "relay_run_until hash stop n r w =
     (if stop n then Some (Inr (), r, w)
      else case relay_step hash r w of
          (Inl e, r1, w1) \<Rightarrow> Some (Inl e, r1, w1)
        | (Inr _, r1, w1) \<Rightarrow> relay_run_until hash stop (Suc n) r1 w1)"

section \<open>Interface: a forwarder\<close>

text \<open>
  \<open>filt\<close> is the filter state inside the forwarder, \<open>payload\<close> the bytes of a received
  datagram the filter is asked about (\<open>None\<close> for a datagram the forwarder ignores).
\<close>

locale forwarder = duplicate_filter acc ok horizon marked room + datagram_service step
  for acc :: "'f \<Rightarrow> bytes \<Rightarrow> instant \<Rightarrow> bool \<times> 'f" and ok horizon marked room
    and step :: "'s \<Rightarrow> world \<Rightarrow> (io_error + bool) \<times> 's \<times> world" +
  fixes filt :: "'s \<Rightarrow> 'f" and payload :: "'s \<Rightarrow> bytes \<Rightarrow> bytes option"
  assumes ignores: "recv_from w = (Inr (d, fr), w1) \<Longrightarrow> payload s d = None \<Longrightarrow> step s w = (Inr False, s, w1)"
    and no_datagram: "recv_from w = (Inl e, w1) \<Longrightarrow>
      step s w = (if e = WouldBlock \<or> e = TimedOut then Inr False else Inl e, s, w1)"
    and asks: "recv_from w = (Inr (d, fr), w1) \<Longrightarrow> payload s d = Some p \<Longrightarrow> step s w = (res, s', w') \<Longrightarrow>
      acc (filt s) p (fst (instant_now w1)) = (v, f) \<Longrightarrow>
      filt s' = f \<and> payload s' = payload s \<and> (\<exists>out. sent w' = sent w @ out \<and> length out \<le> (if v then 1 else 0)
        \<and> (res = Inr True \<longrightarrow> length out = 1))"
begin

lemma step_cases:
  assumes "step s w = (res, s', w')"
  obtains (idle) "s' = s" "sent w' = sent w" "res \<noteq> Inr True"
    | (asked) d fr w1 p v f where "recv_from w = (Inr (d, fr), w1)" "payload s d = Some p"
        "acc (filt s) p (fst (instant_now w1)) = (v, f)"
proof -
  obtain r w1 where rf: "recv_from w = (r, w1)" by (cases "recv_from w")
  have w1: "sent w1 = sent w" using recv_from_world [of w] by (simp add: rf)
  show thesis
  proof (cases r)
    case (Inl e)
    then show thesis using no_datagram [of w e w1 s] rf assms w1 idle by (auto split: if_splits)
  next
    case (Inr a)
    obtain d fr where a: "a = (d, fr)" by (cases a)
    show thesis
    proof (cases "payload s d")
      case None
      then show thesis using ignores [of w d fr w1 s] rf Inr a assms w1 idle by simp
    next
      case (Some p)
      then show thesis using rf Inr a asked by (metis surj_pair)
    qed
  qed
qed

lemma step_sends_one:
  assumes "step s w = (res, s', w')"
  shows "\<exists>out. sent w' = sent w @ out \<and> length out \<le> 1 \<and> (res = Inr True \<longrightarrow> length out = 1)"
  using assms
proof (cases rule: step_cases)
  case (asked d fr w1 p v f)
  from asks [OF asked(1,2) assms asked(3)] show ?thesis
    by (metis (full_types) le_zero_eq zero_le_one)
qed simp

lemma step_ok:
  assumes "ok (filt s)" and "step s w = (res, s', w')"
  shows "ok (filt s') \<and> horizon (filt s') = horizon (filt s)"
  using assms(2)
proof (cases rule: step_cases)
  case (asked d fr w1 p v f)
  from asks [OF asked(1,2) assms(2) asked(3)] acc_ok [OF assms(1) asked(3)] show ?thesis by simp
qed (use assms(1) in simp)

text \<open>A mark outlives a run of steps that receives no more datagrams than there is room for.\<close>

lemma step_marked:
  assumes ok: "ok (filt s)" and m: "marked (filt s) p t" and st: "step s w = (res, s', w')"
    and time: "clock_at w (clock_no w) - t < horizon (filt s)"
    and room: "isl (recv_at w (recv_no w)) \<or> 0 < room (filt s) t"
  shows "marked (filt s') p t \<and> payload s' = payload s \<and>
    room (filt s) t \<le> room (filt s') t + (if isl (recv_at w (recv_no w)) then 0 else 1)"
  using st
proof (cases rule: step_cases)
  case (asked d fr w1 q v f)
  have w1: "fst (instant_now w1) = clock_at w (clock_no w)" "\<not> isl (recv_at w (recv_no w))"
    using recv_from_frame [OF asked(1)] by (simp_all add: instant_now_def)
  from asks [OF asked(1,2) st asked(3)] marked_kept [OF ok m _ asked(3)] time room show ?thesis by (simp add: w1)
qed (use m in simp)

lemma run_marked:
  assumes "ok (filt s)" and "marked (filt s) p t" and "service_run step n s w = (s', w')" and "mono (clock_at w)"
    and "clock_at w (clock_no w') - t < horizon (filt s)" and "arrivals (recv_at w) (recv_no w) n \<le> room (filt s) t"
  shows "ok (filt s') \<and> marked (filt s') p t \<and> payload s' = payload s \<and> horizon (filt s') = horizon (filt s)"
  using assms
proof (induction n arbitrary: s w)
  case (Suc n)
  obtain res s1 w1 where st: "step s w = (res, s1, w1)" by (cases "step s w")
  have r: "service_run step n s1 w1 = (s', w')" using Suc.prems(3) by (simp add: st)
  have f: "recv_at w1 = recv_at w" "clock_at w1 = clock_at w" "recv_no w1 = Suc (recv_no w)" "clock_no w \<le> clock_no w'"
    using step_one [OF st] run_streams [OF r] by auto
  have "clock_at w (clock_no w) \<le> clock_at w (clock_no w')" by (rule monoD [OF Suc.prems(4) f(4)])
  then have "clock_at w (clock_no w) - t < horizon (filt s)" using Suc.prems(5) by linarith
  from step_marked [OF Suc.prems(1,2) st this] Suc.prems(6)
  have m: "marked (filt s1) p t" "payload s1 = payload s"
    "arrivals (recv_at w1) (recv_no w1) n \<le> room (filt s1) t"
    by (auto simp: f split: if_splits)
  note o = step_ok [OF Suc.prems(1) st]
  show ?case using Suc.IH [OF _ m(1) r _ _ m(3)] o Suc.prems(4,5) m(2) by (simp add: f)
qed simp

text \<open>The same payload again, within the horizon: the later step sends nothing.\<close>

lemma run_not_twice:
  assumes ok: "ok (filt s)" and clock: "mono (clock_at w)"
    and rf: "recv_from w = (Inr (d, fr), w0)" "payload s d = Some p" "step s w = (Inr True, s1, w1)"
    and run: "service_run step n s1 w1 = (s2, w2)"
    and rf': "recv_from w2 = (Inr (d', fr'), w3)" "payload s d' = Some p" "step s2 w2 = (res, s3, w4)"
    and time: "clock_at w (clock_no w2) - clock_at w (clock_no w) < horizon (filt s)"
    and room: "arrivals (recv_at w) (Suc (recv_no w)) n \<le> room (filt s1) (clock_at w (clock_no w))"
  shows "sent w4 = sent w2"
proof -
  let ?t = "clock_at w (clock_no w)"
  obtain v f where v: "acc (filt s) p (fst (instant_now w0)) = (v, f)"
    by (cases "acc (filt s) p (fst (instant_now w0))")
  have t: "fst (instant_now w0) = ?t" using recv_from_frame [OF rf(1)] by (simp add: instant_now_def)
  have s1: "filt s1 = f" "payload s1 = payload s" and v: "acc (filt s) p ?t = (True, f)"
    using asks [OF rf v] v by (auto simp: t split: if_splits)
  have f: "clock_at w1 = clock_at w" "recv_at w1 = recv_at w" "recv_no w1 = Suc (recv_no w)"
    using step_one [OF rf(3)] by simp_all
  have o: "ok (filt s1)" "horizon (filt s1) = horizon (filt s)" "marked (filt s1) p ?t"
    using step_ok [OF ok rf(3)] acc_marks [OF ok v] s1 by simp_all
  have m: "ok (filt s2)" "marked (filt s2) p ?t" "payload s2 = payload s" "horizon (filt s2) = horizon (filt s)"
    using run_marked [OF o(1,3) run] clock time room o(2) s1(2) by (simp_all add: f)
  have "fst (instant_now w3) = clock_at w (clock_no w2)"
    using recv_from_frame [OF rf'(1)] run_streams [OF run] f by (simp add: instant_now_def)
  moreover obtain v' f' where v': "acc (filt s2) p (fst (instant_now w3)) = (v', f')"
    by (cases "acc (filt s2) p (fst (instant_now w3))")
  ultimately have "\<not> v'" using marked_again [OF m(1,2)] time m(4) by (metis fst_conv)
  then show ?thesis using asks [OF rf'(1) _ rf'(3) v'] rf'(2) m(3) by simp
qed

end

section \<open>The relay is a forwarder\<close>

definition relay_payload :: "bytes \<Rightarrow> bytes option" where
  "relay_payload d =
     (case decode_outer d of
        Inr (Forward, flags, body) \<Rightarrow>
          (case decode_forward_body body of Inr (dest, inner) \<Rightarrow> Some inner | Inl _ \<Rightarrow> None)
      | _ \<Rightarrow> None)"

lemma relay_payload_Some:
  "relay_payload d = Some inner \<longleftrightarrow>
     (\<exists>flags body dest. decode_outer d = Inr (Forward, flags, body) \<and> decode_forward_body body = Inr (dest, inner))"
  by (auto simp: relay_payload_def split: sum.splits packet_type.splits)

lemma relay_ignores:
  assumes "recv_from w = (Inr (d, fr), w1)" and "relay_payload d = None"
  shows "relay_step hash r w = (Inr False, r, w1)"
  using assms
  by (auto simp: relay_step_def relay_payload_def split: sum.splits packet_type.splits)

lemma relay_no_datagram:
  "recv_from w = (Inl e, w1) \<Longrightarrow>
     relay_step hash r w = (if e = WouldBlock \<or> e = TimedOut then Inr False else Inl e, r, w1)"
  by (simp add: relay_step_def)

lemma relay_asks:
  assumes rf: "recv_from w = (Inr (d, fr), w1)" and p: "relay_payload d = Some inner"
    and v: "accept hash (r_replay r) inner (fst (instant_now w1)) = (v, c)"
  shows "\<exists>dest. relay_step hash r w = (let w2 = snd (instant_now w1); r1 = r\<lparr>r_replay := c\<rparr> in
      case encode_forward_body fr inner of
        Inl _ \<Rightarrow> (Inr False, r1, w2)
      | Inr body \<Rightarrow>
          if v then (case send_to (encode_outer Forward 0 @ body) dest w2 of
              (Inl e, w3) \<Rightarrow> (Inl e, r1, w3) | (Inr _, w3) \<Rightarrow> (Inr True, r1, w3))
          else (Inr False, r1, w2))"
proof -
  obtain flags body dest where "decode_outer d = Inr (Forward, flags, body)"
    "decode_forward_body body = Inr (dest, inner)" using p relay_payload_Some by blast
  then show ?thesis
    using rf v by (intro exI [of _ dest], cases v; cases "encode_forward_body fr inner")
      (simp_all add: relay_step_def Let_def instant_now_def)
qed

interpretation relay_service: datagram_service "relay_step hash"
proof unfold_locales
  fix s s' w w' res
  assume st: "relay_step hash s w = (res, s', w')"
  obtain r w1 where rf: "recv_from w = (r, w1)" by (cases "recv_from w")
  note fr = recv_from_frame [OF rf]
  then show "same_streams w w' \<and> recv_no w' = Suc (recv_no w) \<and> clock_no w \<le> clock_no w' \<and>
    (\<exists>out. sent w' = sent w @ out \<and> length out \<le> (if isl (recv_at w (recv_no w)) then 0 else 1))"
    using st unfolding relay_step_def rf
    by (auto simp: instant_now_def Let_def split: sum.splits if_splits prod.splits dest!: send_to_frame)
  fix e assume "\<forall>k. send_at w k = None"
  then show "res = Inl e \<longleftrightarrow> recv_at w (recv_no w) = Inl e \<and> hard_error (recv_at w (recv_no w))"
    using st fr unfolding recv_from_error [OF rf, THEN conjunct1] recv_from_error [OF rf, THEN conjunct2] relay_step_def rf
    by (auto simp: instant_now_def Let_def send_to_None split: sum.splits if_splits prod.splits)
qed

interpretation relay: forwarder "accept hash" replay_inv ttl "replay_marked hash" replay_room "relay_step hash" r_replay "\<lambda>_. relay_payload"
proof unfold_locales
  fix w w1 w' :: world and d p :: bytes and fr and s s' :: relay and res v f
  assume rf: "recv_from w = (Inr (d, fr), w1)" and p: "relay_payload d = Some p"
    and st: "relay_step hash s w = (res, s', w')"
    and v: "accept hash (r_replay s) p (fst (instant_now w1)) = (v, f)"
  have w1: "sent w1 = sent w" using recv_from_world [of w] by (simp add: rf)
  show "r_replay s' = f \<and> relay_payload = relay_payload \<and> (\<exists>out. sent w' = sent w @ out
      \<and> length out \<le> (if v then 1 else 0) \<and> (res = Inr True \<longrightarrow> length out = 1))"
  proof (cases "encode_forward_body fr p")
    case (Inl e)
    then show ?thesis using relay_asks [OF rf p v] st w1 by (auto simp: Let_def)
  next
    case (Inr body)
    show ?thesis
    proof (cases v)
      case True
      then obtain dest where "(case send_to (encode_outer Forward 0 @ body) dest (snd (instant_now w1)) of
          (Inl e, w3) \<Rightarrow> (Inl e, s\<lparr>r_replay := f\<rparr>, w3) | (Inr _, w3) \<Rightarrow> (Inr True, s\<lparr>r_replay := f\<rparr>, w3)) = (res, s', w')"
        using relay_asks [OF rf p v] st Inr by (auto simp: Let_def)
      from send_result [OF this] show ?thesis using True w1 by simp
    qed (use relay_asks [OF rf p v] st w1 Inr in \<open>auto simp: Let_def\<close>)
  qed
qed (simp_all add: relay_ignores relay_no_datagram)

section \<open>Properties\<close>

text \<open>The datagram a client sends to the relay, and the one the relay sends on.\<close>

definition forward_packet :: "u8 \<Rightarrow> ipv4_addr \<Rightarrow> u16 \<Rightarrow> bytes \<Rightarrow> bytes" where
  "forward_packet flags ip port inner = encode_outer Forward flags @ addr_bytes ip port @ inner"

lemma forward_packet_payload:
  "decode_outer (forward_packet flags ip port inner) = Inr (Forward, flags, addr_bytes ip port @ inner)"
  by (simp add: forward_packet_def)

lemma relay_step_fresh:
  assumes "recv_at w (recv_no w) = Inr (forward_packet flags ip port inner, V4 sip sport)"
    and "length inner \<le> 1186" and "hm_wf (seen (r_replay r))"
    and "\<not> remembers (r_replay r) (replay_key hash inner) (clock_at w (clock_no w))"
    and "send_at w (send_no w) = None" and "relay_step hash r w = (res, r', w')"
  shows "res = Inr True \<and> sent w' = sent w @ [(forward_packet 0 sip sport inner, V4 ip port)]"
proof -
  have "length (forward_packet flags ip port inner) \<le> MAX_DATAGRAM"
    using assms(2) by (simp add: forward_packet_def const_defs)
  then have rf: "recv_from w = (Inr (forward_packet flags ip port inner, V4 sip sport), w\<lparr>recv_no := Suc (recv_no w)\<rparr>)"
    by (simp add: recv_from_def assms(1))
  have e: "encode_forward_body (V4 sip sport) inner = Inr (addr_bytes sip sport @ inner)"
    using assms(2) by (simp add: encode_forward_body_Inr_iff)
  have "fst (accept hash (r_replay r) inner (clock_at w (clock_no w)))"
    using assms(3,4) by (simp add: accept_eq)
  then obtain c where "accept hash (r_replay r) inner (clock_at w (clock_no w)) = (True, c)"
    by (metis (full_types) prod.collapse)
  then show ?thesis
    using assms(5,6)
    by (auto simp: relay_step_def rf forward_packet_payload decode_forward_addr instant_now_def e Let_def send_to_def)
      (simp_all add: forward_packet_def)
qed

text \<open>
  What the relay does with a forward request.  An inner datagram of at most 1186
  bytes from an IPv4 sender, that the cache does not remember, goes unchanged to the
  named destination, wrapped with the sender's address in place of its own; the receiver
  reads back exactly the sender's address and the inner datagram.
\<close>
lemma relay_forwards:
  assumes "recv_at w (recv_no w) = Inr (forward_packet flags ip port inner, V4 sip sport)"
    and "length inner \<le> 1186" and "hm_wf (seen (r_replay r))"
    and "\<not> remembers (r_replay r) (replay_key hash inner) (clock_at w (clock_no w))"
    and "send_at w (send_no w) = None" and "relay_step hash r w = (res, r', w')"
  shows "res = Inr True \<and> sent w' = sent w @ [(forward_packet 0 sip sport inner, V4 ip port)]
    \<and> decode_outer (forward_packet 0 sip sport inner) = Inr (Forward, 0, addr_bytes sip sport @ inner)
    \<and> decode_forward_body (addr_bytes sip sport @ inner) = Inr (V4 sip sport, inner)"
  using relay_step_fresh [OF assms]
  by (simp add: forward_packet_payload decode_forward_addr)

text \<open>
  C30: the relay is no amplifier of replays.  After it has forwarded an inner datagram, a
  later request with the same inner datagram, from whomever and to wherever, sends nothing, whatever it received in
  between, while the cache's TTL lasts and the datagrams received in between are not more than the
  places of the cache that are free or hold older entries (a new entry evicts an old one).  The clock does not run backwards.
\<close>
theorem relay_not_twice:
  assumes "replay_inv (r_replay r)" and "mono (clock_at w)"
    and "recv_from w = (Inr (d, fr), w0)" and "relay_payload d = Some inner" and "relay_step hash r w = (Inr True, r1, w1)"
    and "service_run (relay_step hash) n r1 w1 = (r2, w2)"
    and "recv_from w2 = (Inr (d', fr'), w3)" and "relay_payload d' = Some inner" and "relay_step hash r2 w2 = (res, r3, w4)"
    and "clock_at w (clock_no w2) - clock_at w (clock_no w) < ttl (r_replay r)"
    and "arrivals (recv_at w) (Suc (recv_no w)) n \<le> replay_room (r_replay r1) (clock_at w (clock_no w))"
  shows "sent w4 = sent w2"
  using relay.run_not_twice [OF assms] .

text \<open>Two requests for the same inner datagram, and another one between them.\<close>

definition twice_world :: world where
  "twice_world = quiet_world\<lparr>clock_at := \<lambda>_. 0, recv_at := \<lambda>i.
     if i = 0 then Inr (forward_packet 0 (Ipv4Addr 10 0 0 2) 7 [1, 2], V4 (Ipv4Addr 10 0 0 1) 9)
     else if i = 1 then Inr (forward_packet 0 (Ipv4Addr 10 0 0 2) 7 [3], V4 (Ipv4Addr 10 0 0 1) 9)
     else Inr (forward_packet 0 (Ipv4Addr 10 0 0 3) 8 [1, 2], V4 (Ipv4Addr 10 0 0 4) 9)\<rparr>"

lemma accept_first: "accept hash replay_new p t = (True, replay_new\<lparr>seen := [(replay_key hash p, t)]\<rparr>)"
  by (simp add: accept_def replay_new_def replay_expire_def hm_retain_def hm_insert_def Let_def DEFAULT_CAP_def)

theorem relay_not_twice_witness:
  "\<exists>r1 w1 r2 w2. relay_step id relay_bind twice_world = (Inr True, r1, w1) \<and> service_run (relay_step id) 1 r1 w1 = (r2, w2) \<and>
     sent (snd (snd (relay_step id r2 w2))) = sent w2"
proof -
  let ?d = "forward_packet 0 (Ipv4Addr 10 0 0 2) 7 [1, 2]" and ?e = "forward_packet 0 (Ipv4Addr 10 0 0 3) 8 [1, 2]"
  let ?w = twice_world and ?b = "V4 (Ipv4Addr 10 0 0 4) 9"
  obtain res r1 w1 where s: "relay_step id relay_bind ?w = (res, r1, w1)" by (cases "relay_step id relay_bind ?w")
  obtain r2 w2 where run: "service_run (relay_step id) 1 r1 w1 = (r2, w2)" by (cases "service_run (relay_step id) 1 r1 w1")
  obtain res3 r3 w4 where s3: "relay_step id r2 w2 = (res3, r3, w4)" by (cases "relay_step id r2 w2")
  have len: "length ?d \<le> MAX_DATAGRAM" "length ?e \<le> MAX_DATAGRAM" by (simp_all add: forward_packet_def const_defs)
  have st: "recv_at w2 = recv_at ?w" "recv_no w2 = 2" "clock_at w2 = clock_at ?w"
    using relay_service.step_one [OF s] relay_service.run_streams [OF run] by (simp_all add: twice_world_def quiet_world_def)
  have rf: "recv_from ?w = (Inr (?d, V4 (Ipv4Addr 10 0 0 1) 9), ?w\<lparr>recv_no := 1\<rparr>)"
    "recv_from w2 = (Inr (?e, ?b), w2\<lparr>recv_no := 3\<rparr>)"
    using len by (simp_all add: recv_from_def st) (simp_all add: twice_world_def quiet_world_def)
  have p: "relay_payload ?d = Some [1, 2]" "relay_payload ?e = Some [1, 2]"
    by (simp_all add: relay_payload_def forward_packet_payload decode_forward_addr)
  have inv: "replay_inv (r_replay relay_bind)" "mono (clock_at ?w)"
    by (simp_all add: relay_bind_def replay_new_def replay_inv_def hm_wf_def twice_world_def mono_def)
  have "res = Inr True"
    using relay_step_fresh [OF _ _ _ _ _ s, of 0 "Ipv4Addr 10 0 0 2" 7 "[1, 2]" "Ipv4Addr 10 0 0 1" 9]
    by (simp add: twice_world_def quiet_world_def relay_bind_def replay_new_def hm_wf_def remembers_def)
  note s = s [unfolded this]
  have "r_replay r1 = replay_new\<lparr>seen := [([1, 2], 0)]\<rparr>"
    using relay.asks [OF rf(1) p(1) s] accept_first [of id "[1, 2]" 0]
    by (simp add: relay_bind_def instant_now_def twice_world_def replay_key_def)
  then have "1 \<le> replay_room (r_replay r1) 0" by (simp add: replay_room_def newer_def replay_new_def DEFAULT_CAP_def)
  then have "sent w4 = sent w2"
    using relay_not_twice [OF inv rf(1) p(1) s run rf(2) p(2) s3]
    by (simp add: twice_world_def quiet_world_def relay_bind_def replay_new_def DEFAULT_TTL_def from_secs_def)
  then show ?thesis using s run s3 by (metis snd_conv)
qed

text \<open>
  The relay loop ends.  If the stop closure answers true at its \<open>n\<close>-th call,
  \<open>run_until\<close> returns, whatever arrives.
\<close>
lemma relay_run_until_returns:
  assumes "stop (n + k)"
  shows "\<exists>res. relay_run_until hash stop n r w = Some res"
  using assms
proof (induction k arbitrary: n r w)
  case 0
  then show ?case by (simp add: relay_run_until.simps)
next
  case (Suc k)
  show ?case
    using Suc.IH [of "Suc n"] Suc.prems
    by (subst relay_run_until.simps) (simp split: prod.splits sum.splits)
qed

end
