(* ===== verification/Ppose_Onion.thy ===== *)
theory Ppose_Onion
  imports Ppose_Crypto Ppose_Relay
begin

text \<open>
  Nested datagrams, \<^verbatim>\<open>src/onion.rs\<close>: wrapping for a route, peeling at a hop, and the
  onion relay.  The ephemeral secret and nonce of each layer come from the operating
  system's generator and are arguments, \<open>rng n\<close> for the \<open>n\<close>-th layer.  Shown: a
  layer opens to what was put in, a wrapped route leads the packet from hop to hop to its
  destination, the exact size limit, and the relay's behaviour.
\<close>

section \<open>Model\<close>

definition LAYER_OVERHEAD :: nat where
  "LAYER_OVERHEAD = 32 + 24 + 16 + 4 + 2"

definition PND_KDF_LABEL :: bytes where
  "PND_KDF_LABEL = [0x70, 0x70, 0x6F, 0x73, 0x65, 0x2D, 0x70, 0x6E, 0x64, 0x2D, 0x76, 0x31]"

record 'pk onion_hop =
  hop_addr :: socket_addr
  hop_pk :: "'pk public_identity"

definition derive_hop_key :: "('sk, 'pk) primitives \<Rightarrow> bytes \<Rightarrow> bytes" where
  "derive_hop_key P shared = blake3 P (PND_KDF_LABEL @ shared)"

definition wrap_layer ::
  "('sk, 'pk) primitives \<Rightarrow> 'sk \<Rightarrow> bytes \<Rightarrow> 'pk public_identity \<Rightarrow> socket_addr \<Rightarrow> bytes \<Rightarrow> packet_error + bytes" where
  "wrap_layer P eph nonce pk next' payload =
     (case next' of
        V6 ip port flow scope \<Rightarrow> Inl BadAddress
      | V4 ip port \<Rightarrow>
          let eph_pub = pk_of P eph;
              shared = diffie_hellman P eph (pk_from P (as_bytes P pk));
              key = derive_hop_key P shared;
              aead = aead_new key;
              plain = addr_bytes ip port @ payload;
              aad = pk_bytes P eph_pub
          in res_bind (map_err (\<lambda>_. TooLarge) (aead_seal P aead nonce aad plain))
               (\<lambda>ct. Inr (pk_bytes P eph_pub @ nonce @ ct)))"

fun wrap_loop ::
  "('sk, 'pk) primitives \<Rightarrow> (nat \<Rightarrow> 'sk \<times> bytes) \<Rightarrow> nat \<Rightarrow> 'pk onion_hop list \<Rightarrow> socket_addr \<Rightarrow> bytes
     \<Rightarrow> packet_error + bytes" where
  "wrap_loop P rng n [] next' payload = Inr payload"
| "wrap_loop P rng n (hop # hops) next' payload =
     res_bind (wrap_layer P (fst (rng n)) (snd (rng n)) (hop_pk hop) next' payload)
       (\<lambda>body. res_bind (encode_datagram Onion body)
         (\<lambda>pkt. wrap_loop P rng (Suc n) hops (hop_addr hop) pkt))"

definition wrap_route ::
  "('sk, 'pk) primitives \<Rightarrow> (nat \<Rightarrow> 'sk \<times> bytes) \<Rightarrow> 'pk onion_hop list \<Rightarrow> socket_addr \<Rightarrow> bytes
     \<Rightarrow> packet_error + bytes" where
  "wrap_route P rng hops dest inner =
     (if hops = [] then Inl BadType else wrap_loop P rng 0 (rev hops) dest inner)"

record peeled =
  peeled_next :: socket_addr
  peeled_payload :: bytes

definition peel_layer :: "('sk, 'pk) primitives \<Rightarrow> 'sk identity_secret \<Rightarrow> bytes \<Rightarrow> packet_error + peeled" where
  "peel_layer P local body =
     (if length body < LAYER_OVERHEAD then Inl Truncated
      else
        let eph = slice 0 32 body;
            nonce = slice 32 56 body;
            ct = drop 56 body;
            shared = shared_with P local (public_from_bytes P eph);
            key = derive_hop_key P shared;
            aead = aead_new key
        in res_bind (map_err (\<lambda>_. BadType) (aead_open P aead nonce eph ct))
             (\<lambda>plain. if length plain < 6 then Inl Truncated
                else Inr \<lparr>peeled_next = read_addr plain, peeled_payload = drop 6 plain\<rparr>))"

record 'sk onion_relay =
  or_local :: "'sk identity_secret"
  or_replay :: replay_cache

definition onion_relay_bind :: "'sk identity_secret \<Rightarrow> 'sk onion_relay" where
  "onion_relay_bind local = \<lparr>or_local = local, or_replay = replay_new\<rparr>"

definition onion_step ::
  "('sk, 'pk) primitives \<Rightarrow> 'sk onion_relay \<Rightarrow> world \<Rightarrow> (io_error + bool) \<times> 'sk onion_relay \<times> world" where
  "onion_step P r w =
     (case recv_from w of
        (Inl e, w1) \<Rightarrow> if e = WouldBlock \<or> e = TimedOut then (Inr False, r, w1) else (Inl e, r, w1)
      | (Inr (buf, from), w1) \<Rightarrow>
         (case decode_outer buf of
            Inl _ \<Rightarrow> (Inr False, r, w1)
          | Inr (ty, flags, body) \<Rightarrow>
              if ty \<noteq> Onion then (Inr False, r, w1)
              else case peel_layer P (or_local r) body of
                  Inl _ \<Rightarrow> (Inr False, r, w1)
                | Inr pl \<Rightarrow>
                    (case instant_now w1 of (now, w2) \<Rightarrow>
                     case accept (blake3 P) (or_replay r) (peeled_payload pl) now of (fresh, c) \<Rightarrow>
                       let r1 = r\<lparr>or_replay := c\<rparr>
                       in if \<not> fresh then (Inr False, r1, w2)
                          else if length (peeled_payload pl) > MAX_DATAGRAM then (Inr False, r1, w2)
                          else (case send_to (peeled_payload pl) (peeled_next pl) w2 of
                                  (Inl e, w3) \<Rightarrow> (Inl e, r1, w3)
                                | (Inr _, w3) \<Rightarrow> (Inr True, r1, w3)))))"

section \<open>Wrapping and peeling\<close>

lemma wrap_layer_V4:
  assumes ok: "primitives_ok P" and n: "length nonce = 24" and m: "length payload < 60000"
  shows "\<exists>ct. wrap_layer P eph nonce pk (V4 ip port) payload = Inr (pk_bytes P (pk_of P eph) @ nonce @ ct)
    \<and> length ct = length payload + 22"
proof -
  let ?s = "aead_new (derive_hop_key P (diffie_hellman P eph (pk_from P (as_bytes P pk))))"
  obtain ct where "aead_seal P ?s nonce (pk_bytes P (pk_of P eph)) (addr_bytes ip port @ payload) = Inr ct"
    "length ct = length payload + 22"
    using aead_roundtrip [OF ok, of "addr_bytes ip port @ payload" ?s nonce "pk_bytes P (pk_of P eph)"] m by auto
  then show ?thesis by (simp add: wrap_layer_def Let_def map_err_def res_bind_def)
qed

lemma peel_wrap:
  assumes ok: "primitives_ok P" and n: "length nonce = 24" and m: "length payload < 60000"
    and w: "wrap_layer P eph nonce (public P sk) next' payload = Inr body"
  shows "peel_layer P sk body = Inr \<lparr>peeled_next = next', peeled_payload = payload\<rparr>
    \<and> length body = length payload + LAYER_OVERHEAD"
proof -
  obtain ip port where next': "next' = V4 ip port" using w by (cases next') (auto simp: wrap_layer_def)
  let ?pub = "pk_bytes P (pk_of P eph)" and ?plain = "addr_bytes ip port @ payload"
  let ?s = "aead_new (derive_hop_key P (shared_with P sk (PublicIdentity (pk_of P eph))))"
  have sh: "diffie_hellman P eph (pk_from P (as_bytes P (public P sk))) = shared_with P sk (PublicIdentity (pk_of P eph))"
    using ok by (simp add: as_bytes_def public_def shared_with_def pk_from_bytes dh_comm [of P eph])
  obtain ct where ct: "aead_seal P ?s nonce ?pub ?plain = Inr ct" "length ct = length payload + 22"
    "aead_open P ?s nonce ?pub ct = Inr ?plain"
    using aead_roundtrip [OF ok, of ?plain ?s nonce ?pub] m by auto
  have body: "body = ?pub @ nonce @ ct"
    using w ct(1) by (simp add: next' wrap_layer_def sh Let_def map_err_def res_bind_def)
  have pub: "length ?pub = 32" using ok by (simp add: length_pk_bytes)
  have "slice 0 32 body = ?pub" "slice 32 56 body = nonce" "drop 56 body = ct"
    using pub n by (simp_all add: body slice_def)
  moreover have "public_from_bytes P ?pub = PublicIdentity (pk_of P eph)"
    using ok by (simp add: public_from_bytes_def pk_from_bytes)
  ultimately have "peel_layer P sk body = Inr \<lparr>peeled_next = next', peeled_payload = payload\<rparr>"
    using ct pub n by (simp add: peel_layer_def body LAYER_OVERHEAD_def Let_def map_err_def res_bind_def
        read_addr_bytes next')
  then show ?thesis using ct pub n by (simp add: body LAYER_OVERHEAD_def)
qed

section \<open>Routes\<close>

text \<open>What the hops of a route do to a packet, one after the other: the addresses they
  send it to, and what is left at the end.\<close>

fun peel_route :: "('sk, 'pk) primitives \<Rightarrow> 'sk identity_secret list \<Rightarrow> bytes \<Rightarrow> packet_error + (socket_addr list \<times> bytes)" where
  "peel_route P [] pkt = Inr ([], pkt)"
| "peel_route P (sk # sks) pkt =
     res_bind (decode_outer pkt) (\<lambda>(ty, flags, body).
       if ty \<noteq> Onion then Inl BadType
       else res_bind (peel_layer P sk body) (\<lambda>pl.
         res_bind (peel_route P sks (peeled_payload pl)) (\<lambda>(as, rest).
           Inr (peeled_next pl # as, rest))))"

abbreviation nonces_ok :: "(nat \<Rightarrow> 'sk \<times> bytes) \<Rightarrow> bool" where
  "nonces_ok rng \<equiv> (\<forall>n. length (snd (rng n)) = 24)"

text \<open>One hop of the wrapping loop.\<close>

lemma wrap_hop:
  assumes ok: "primitives_ok P" and n: "length nonce = 24" and m: "length payload < 60000"
    and w: "wrap_layer P eph nonce (public P sk) next' payload = Inr body" and e: "encode_datagram Onion body = Inr pkt"
  shows "length pkt = length payload + 86 \<and> length pkt \<le> 1200 \<and>
    (peel_route P sks payload = Inr (as, inner) \<longrightarrow> peel_route P (sk # sks) pkt = Inr (next' # as, inner))"
proof -
  note p = peel_wrap [OF ok n m w]
  show ?thesis
    using p length_encode_datagram [OF e] decode_encode_datagram [OF e]
    by (auto simp: LAYER_OVERHEAD_def const_defs res_bind_def)
qed

lemma wrap_loop_route:
  assumes ok: "primitives_ok P" and rng: "nonces_ok rng"
    and m: "length payload < 60000" and pk: "map hop_pk hops = map (public P) sks"
    and w: "wrap_loop P rng n hops next' payload = Inr wire"
    and inner: "peel_route P sks0 payload = Inr (as, inner)"
  shows "peel_route P (rev sks @ sks0) wire =
      Inr (rev (take (length hops) (next' # map hop_addr hops)) @ as, inner)
    \<and> length wire = length payload + 86 * length hops \<and> (hops \<noteq> [] \<longrightarrow> length wire \<le> 1200)"
  using m pk w inner
proof (induction hops arbitrary: n next' payload sks sks0 as)
  case (Cons h hs)
  obtain sk ss where sks: "sks = sk # ss" "hop_pk h = public P sk" "map hop_pk hs = map (public P) ss"
    using Cons.prems(2) by (cases sks) auto
  obtain body pkt where b: "wrap_layer P (fst (rng n)) (snd (rng n)) (public P sk) next' payload = Inr body"
    "encode_datagram Onion body = Inr pkt" "wrap_loop P rng (Suc n) hs (hop_addr h) pkt = Inr wire"
    using Cons.prems(3) sks(2) by (auto simp: res_bind_Inr_iff)
  note hop = wrap_hop [OF ok _ Cons.prems(1) b(1,2), of sks0 as inner]
  have p: "length pkt = length payload + 86" "length pkt \<le> 1200" "peel_route P (sk # sks0) pkt = Inr (next' # as, inner)"
    using hop Cons.prems(4) rng by simp_all
  have "length pkt < 60000" using p(2) by simp
  from Cons.IH [OF this sks(3) b(3) p(3)] show ?case
    using p by (cases hs) (auto simp: sks(1))
qed simp

lemma wrap_loop_succeeds:
  assumes ok: "primitives_ok P" and rng: "nonces_ok rng" and m: "length payload < 60000"
  shows "(\<exists>wire. wrap_loop P rng n hops next' payload = Inr wire) \<longleftrightarrow>
    list_all is_v4 (take (length hops) (next' # map hop_addr hops)) \<and>
    (hops = [] \<or> length payload + 86 * length hops \<le> 1200)"
  using m
proof (induction hops arbitrary: n next' payload)
  case (Cons h hs)
  show ?case
  proof (cases next')
    case (V4 ip port)
    obtain ct where w: "wrap_layer P (fst (rng n)) (snd (rng n)) (hop_pk h) next' payload
        = Inr (pk_bytes P (pk_of P (fst (rng n))) @ snd (rng n) @ ct)" "length ct = length payload + 22"
      using wrap_layer_V4 [OF ok, of "snd (rng n)"] rng Cons.prems V4 by metis
    let ?body = "pk_bytes P (pk_of P (fst (rng n))) @ snd (rng n) @ ct"
    have len: "length ?body = length payload + 78" using w(2) rng by (simp add: length_pk_bytes [OF ok])
    show ?thesis
    proof (cases "length payload + 86 \<le> 1200")
      case True
      then have e: "encode_datagram Onion ?body = Inr (encode_outer Onion 0 @ ?body)"
        using len by (simp add: encode_datagram_def const_defs)
      have "length (encode_outer Onion 0 @ ?body) = length payload + 86" using len by (simp add: const_defs)
      moreover have "wrap_loop P rng n (h # hs) next' payload = wrap_loop P rng (Suc n) hs (hop_addr h) (encode_outer Onion 0 @ ?body)"
        by (simp add: w(1) e res_bind_def)
      ultimately show ?thesis
        using Cons.IH [of "encode_outer Onion 0 @ ?body" "Suc n" "hop_addr h"] True V4 by auto
    next
      case False
      then have "encode_datagram Onion ?body = Inl TooLarge"
        using len by (simp add: encode_datagram_def const_defs)
      then show ?thesis using False by (simp add: w(1) res_bind_def)
    qed
  next
    case (V6 ip port flow scope)
    then show ?thesis by (simp add: wrap_layer_def res_bind_def)
  qed
qed simp

lemma route_addresses:
  "hops \<noteq> [] \<Longrightarrow> rev (take (length hops) (dest # map hop_addr (rev hops))) = map hop_addr (tl hops) @ [dest]"
  by (cases hops) (simp_all add: rev_map [symmetric])

section \<open>The onion relay is a forwarder\<close>

definition onion_payload :: "('sk, 'pk) primitives \<Rightarrow> 'sk onion_relay \<Rightarrow> bytes \<Rightarrow> bytes option" where
  "onion_payload P r d =
     (case decode_outer d of
        Inr (Onion, flags, body) \<Rightarrow>
          (case peel_layer P (or_local r) body of Inr pl \<Rightarrow> Some (peeled_payload pl) | Inl _ \<Rightarrow> None)
      | _ \<Rightarrow> None)"

lemma onion_ignores:
  assumes "recv_from w = (Inr (d, fr), w1)" and "onion_payload P r d = None"
  shows "onion_step P r w = (Inr False, r, w1)"
  using assms
  by (auto simp: onion_step_def onion_payload_def split: sum.splits packet_type.splits)

lemma onion_asks:
  assumes rf: "recv_from w = (Inr (d, fr), w1)" and p: "onion_payload P r d = Some payload"
    and v: "accept (blake3 P) (or_replay r) payload (fst (instant_now w1)) = (v, c)"
  shows "\<exists>dest. onion_step P r w = (let w2 = snd (instant_now w1); r1 = r\<lparr>or_replay := c\<rparr> in
      if v \<and> length payload \<le> MAX_DATAGRAM then (case send_to payload dest w2 of
              (Inl e, w3) \<Rightarrow> (Inl e, r1, w3) | (Inr _, w3) \<Rightarrow> (Inr True, r1, w3))
          else (Inr False, r1, w2))"
proof -
  obtain flags body pl where "decode_outer d = Inr (Onion, flags, body)"
    "peel_layer P (or_local r) body = Inr pl" "payload = peeled_payload pl"
    using p by (auto simp: onion_payload_def split: sum.splits packet_type.splits)
  then show ?thesis
    using rf v by (intro exI [of _ "peeled_next pl"], cases v; cases "length payload \<le> MAX_DATAGRAM")
      (simp_all add: onion_step_def Let_def instant_now_def)
qed

interpretation onion_service: datagram_service "onion_step P"
proof unfold_locales
  fix s s' w w' res
  assume st: "onion_step P s w = (res, s', w')"
  obtain r w1 where rf: "recv_from w = (r, w1)" by (cases "recv_from w")
  note fr = recv_from_frame [OF rf]
  then show "same_streams w w' \<and> recv_no w' = Suc (recv_no w) \<and> clock_no w \<le> clock_no w' \<and>
    (\<exists>out. sent w' = sent w @ out \<and> length out \<le> (if isl (recv_at w (recv_no w)) then 0 else 1))"
    using st unfolding onion_step_def rf
    by (auto simp: instant_now_def Let_def split: sum.splits if_splits prod.splits dest!: send_to_frame)
  fix e assume "\<forall>k. send_at w k = None"
  then show "res = Inl e \<longleftrightarrow> recv_at w (recv_no w) = Inl e \<and> hard_error (recv_at w (recv_no w))"
    using st fr unfolding recv_from_error [OF rf, THEN conjunct1] recv_from_error [OF rf, THEN conjunct2] onion_step_def rf
    by (auto simp: instant_now_def Let_def send_to_None split: sum.splits if_splits prod.splits)
qed

interpretation onion: forwarder "accept (blake3 P)" replay_inv ttl "replay_marked (blake3 P)" replay_room "onion_step P" or_replay "onion_payload P"
proof unfold_locales
  fix w w1 w' :: world and d p :: bytes and fr and s s' :: "'a onion_relay" and res v f
  assume rf: "recv_from w = (Inr (d, fr), w1)" and p: "onion_payload P s d = Some p"
    and st: "onion_step P s w = (res, s', w')"
    and v: "accept (blake3 P) (or_replay s) p (fst (instant_now w1)) = (v, f)"
  have w1: "sent w1 = sent w" using recv_from_frame [OF rf] by simp
  have pl: "onion_payload P (s\<lparr>or_replay := c\<rparr>) = onion_payload P s" for c
  proof -
    have "or_local (s\<lparr>or_replay := c\<rparr>) = or_local s" by simp
    then show ?thesis unfolding fun_eq_iff onion_payload_def by (simp only:) simp
  qed
  show "or_replay s' = f \<and> onion_payload P s' = onion_payload P s \<and> (\<exists>out. sent w' = sent w @ out
      \<and> length out \<le> (if v then 1 else 0) \<and> (res = Inr True \<longrightarrow> length out = 1))"
  proof (cases "v \<and> length p \<le> MAX_DATAGRAM")
    case True
    then obtain dest where "(case send_to p dest (snd (instant_now w1)) of
        (Inl e, w3) \<Rightarrow> (Inl e, s\<lparr>or_replay := f\<rparr>, w3) | (Inr _, w3) \<Rightarrow> (Inr True, s\<lparr>or_replay := f\<rparr>, w3)) = (res, s', w')"
      using onion_asks [OF rf p v] st by (auto simp: Let_def)
    from send_result [OF this] show ?thesis using True w1 pl by simp
  next
    case False
    then have "res = Inr False \<and> s' = s\<lparr>or_replay := f\<rparr> \<and> w' = snd (instant_now w1)"
      using onion_asks [OF rf p v] st by (auto simp: Let_def)
    then show ?thesis using w1 pl by simp
  qed
qed (simp_all add: onion_ignores, simp add: onion_step_def)

section \<open>Properties\<close>

text \<open>
  C27: a wrapped route leads home.  If wrapping succeeds for hops that hold the secret keys
  of the named public keys, the hops, peeling one after the other, send the packet to the
  second hop, the third, and so on, the last hop sends it to the destination, and what
  arrives there is the original datagram.
\<close>
theorem onion_route_delivers:
  assumes "primitives_ok P" and "nonces_ok rng" and "length inner < 60000"
    and "map hop_pk hops = map (public P) sks" and "wrap_route P rng hops dest inner = Inr wire"
  shows "peel_route P sks wire = Inr (map hop_addr (tl hops) @ [dest], inner)"
proof -
  have h: "hops \<noteq> []" and w: "wrap_loop P rng 0 (rev hops) dest inner = Inr wire"
    using assms(5) by (auto simp: wrap_route_def split: if_splits)
  have pk: "map hop_pk (rev hops) = map (public P) (rev sks)" using assms(4) by (metis rev_map)
  from wrap_loop_route [OF assms(1,2,3) pk w, of "[]" "[]" inner]
  show ?thesis using route_addresses [OF h, of dest] by simp
qed

text \<open>Two hops, as in the test of the crate.\<close>

abbreviation demo_hop :: "256 word \<Rightarrow> u16 \<Rightarrow> 256 word onion_hop" where
  "demo_hop k port \<equiv> \<lparr>hop_addr = V4 (Ipv4Addr 127 0 0 1) port, hop_pk = public model_primitives (IdentitySecret k)\<rparr>"

abbreviation demo_rng :: "nat \<Rightarrow> 256 word \<times> bytes" where
  "demo_rng \<equiv> \<lambda>n. (of_nat n, replicate 24 1)"

theorem onion_route_delivers_witness:
  "\<exists>wire. wrap_route model_primitives demo_rng [demo_hop 3 1, demo_hop 4 2] (V4 (Ipv4Addr 127 0 0 1) 9) [7, 8] = Inr wire
    \<and> peel_route model_primitives [IdentitySecret 3, IdentitySecret 4] wire =
       Inr ([V4 (Ipv4Addr 127 0 0 1) 2, V4 (Ipv4Addr 127 0 0 1) 9], [7, 8])"
proof -
  let ?hops = "[demo_hop 3 1, demo_hop 4 2]" and ?d = "V4 (Ipv4Addr 127 0 0 1) 9"
  have "\<exists>wire. wrap_loop model_primitives demo_rng 0 (rev ?hops) ?d [7, 8] = Inr wire"
    by (subst wrap_loop_succeeds [OF model_primitives_ok]) simp_all
  then obtain wire where "wrap_route model_primitives demo_rng ?hops ?d [7, 8] = Inr wire"
    by (auto simp: wrap_route_def)
  from onion_route_delivers [OF model_primitives_ok _ _ _ this, of "[IdentitySecret 3, IdentitySecret 4]"] this
  show ?thesis by simp
qed

lemma wrap_loop_length: "wrap_loop P rng n hops next' payload = Inr wire' \<Longrightarrow> length wire' \<le> max 1200 (length payload)"
proof (induction P rng n hops next' payload rule: wrap_loop.induct)
  case (2 P rng n hop hops next' payload)
  then obtain body pkt where b: "wrap_layer P (fst (rng n)) (snd (rng n)) (hop_pk hop) next' payload = Inr body"
    "encode_datagram Onion body = Inr pkt" "wrap_loop P rng (Suc n) hops (hop_addr hop) pkt = Inr wire'"
    by (auto simp: res_bind_Inr_iff)
  have "length wire' \<le> max 1200 (length pkt)" using "2.IH" b by blast
  then show ?case using length_encode_datagram [OF b(2)] by (simp add: const_defs)
qed simp

lemma wrap_route_succeeds:
  assumes "primitives_ok P" and "nonces_ok rng" and "length inner < 60000"
  shows "(\<exists>wire. wrap_route P rng hops dest inner = Inr wire) \<longleftrightarrow>
    hops \<noteq> [] \<and> is_v4 dest \<and> list_all (\<lambda>h. is_v4 (hop_addr h)) (tl hops) \<and> length inner + 86 * length hops \<le> 1200"
proof (cases "hops = []")
  case False
  have "list_all is_v4 (rev (take (length hops) (dest # map hop_addr (rev hops)))) \<longleftrightarrow>
      is_v4 dest \<and> list_all (\<lambda>h. is_v4 (hop_addr h)) (tl hops)"
    unfolding route_addresses [OF False] by (auto simp: list_all_iff)
  then show ?thesis
    using wrap_loop_succeeds [OF assms, of 0 "rev hops" dest] False by (simp add: wrap_route_def)
qed (simp add: wrap_route_def)

text \<open>
  C28: the exact limit of wrapping.  A datagram can be wrapped exactly when there is a hop,
  the destination and every hop but the first have IPv4 addresses, and the datagram plus
  86 bytes for each hop fit into 1200 bytes; the result then has just that length.  (The
  packet description counts 78 bytes per hop and leaves out the inner header of 8.)
\<close>
theorem onion_wrap_limit:
  assumes "primitives_ok P" and "nonces_ok rng" and "length inner < 60000"
    and "map hop_pk hops = map (public P) sks"
  shows "if hops \<noteq> [] \<and> is_v4 dest \<and> list_all (\<lambda>h. is_v4 (hop_addr h)) (tl hops) \<and> length inner + 86 * length hops \<le> 1200
    then \<exists>wire. wrap_route P rng hops dest inner = Inr wire \<and> length wire = length inner + 86 * length hops
    else \<exists>e. wrap_route P rng hops dest inner = Inl e"
proof (cases "hops = []")
  case False
  have pk: "map hop_pk (rev hops) = map (public P) (rev sks)" using assms(4) by (metis rev_map)
  have len: "length wire = length inner + 86 * length hops" if "wrap_route P rng hops dest inner = Inr wire" for wire
    using wrap_loop_route [OF assms(1-3) pk, of 0 dest wire "[]" "[]" inner] that False by (simp add: wrap_route_def)
  show ?thesis
    using wrap_route_succeeds [OF assms(1-3), of hops dest] len False by (cases "wrap_route P rng hops dest inner") auto
qed (simp add: wrap_route_def)

theorem onion_wrap_limit_witness:
  "\<exists>e. wrap_route model_primitives demo_rng [demo_hop 3 1, demo_hop 4 2] (V4 (Ipv4Addr 127 0 0 1) 9) (replicate 1057 0) = Inl e"
  using onion_wrap_limit [OF model_primitives_ok, of demo_rng "replicate 1057 0" "[demo_hop 3 1, demo_hop 4 2]"
      "[IdentitySecret 3, IdentitySecret 4]" "V4 (Ipv4Addr 127 0 0 1) 9"] by simp

lemma onion_step_fresh:
  assumes "primitives_ok P" and "length nonce = 24"
    and "wrap_layer P eph nonce (public P (or_local r)) next' payload = Inr body"
    and "encode_datagram Onion body = Inr pkt" and "length payload < 60000"
    and "recv_at w (recv_no w) = Inr (pkt, fr)" and "hm_wf (seen (or_replay r))"
    and "\<not> remembers (or_replay r) (replay_key (blake3 P) payload) (clock_at w (clock_no w))"
    and "send_at w (send_no w) = None" and "onion_step P r w = (res, r', w')"
  shows "res = Inr True \<and> sent w' = sent w @ [(payload, next')] \<and> onion_payload P r pkt = Some payload
    \<and> onion_payload P r' pkt = Some payload"
proof -
  note p = peel_wrap [OF assms(1,2,5,3)]
  have len: "length pkt \<le> MAX_DATAGRAM" "decode_outer pkt = Inr (Onion, 0, body)"
    using length_encode_datagram [OF assms(4)] decode_encode_datagram [OF assms(4)] by simp_all
  then have "length payload \<le> MAX_DATAGRAM"
    using p length_encode_datagram [OF assms(4)] by simp
  moreover have "recv_from w = (Inr (pkt, fr), w\<lparr>recv_no := Suc (recv_no w)\<rparr>)"
    using len(1) by (simp add: recv_from_def assms(6))
  moreover obtain c where "accept (blake3 P) (or_replay r) payload (clock_at w (clock_no w)) = (True, c)"
    using assms(7,8) by (simp add: accept_eq)
  ultimately show ?thesis
    using p len(2) assms(9,10) by (auto simp: onion_step_def instant_now_def Let_def send_to_def onion_payload_def)
qed

text \<open>A concrete layer.\<close>

lemma demo_layer:
  "\<exists>body pkt. wrap_layer model_primitives 5 (replicate 24 1) (public model_primitives (IdentitySecret 3))
      (V4 (Ipv4Addr 127 0 0 1) 9) [7, 8] = Inr body \<and> encode_datagram Onion body = Inr pkt"
proof -
  let ?P = model_primitives
  obtain ct where "wrap_layer ?P 5 (replicate 24 1) (public ?P (IdentitySecret 3)) (V4 (Ipv4Addr 127 0 0 1) 9) [7, 8]
      = Inr (pk_bytes ?P (pk_of ?P 5) @ replicate 24 1 @ ct)" "length ct = 24"
    using wrap_layer_V4 [OF model_primitives_ok, of "replicate 24 1" "[7, 8]"] by fastforce
  moreover have "length (pk_bytes ?P (pk_of ?P 5)) = 32" by (rule length_pk_bytes [OF model_primitives_ok])
  ultimately show ?thesis by (simp add: encode_datagram_def const_defs)
qed

abbreviation demo_world :: "bytes \<Rightarrow> world" where
  "demo_world pkt \<equiv> quiet_world\<lparr>recv_at := \<lambda>_. Inr (pkt, V4 (Ipv4Addr 10 0 0 1) 9)\<rparr>"

text \<open>
  An onion hop does its part.  A layer wrapped for the hop's key, whose payload the
  cache does not remember, makes the relay send exactly the payload to exactly the next
  address of the layer.
\<close>
lemma onion_step_forwards:
  assumes "primitives_ok P" and "length nonce = 24"
    and "wrap_layer P eph nonce (public P (or_local r)) next' payload = Inr body"
    and "encode_datagram Onion body = Inr pkt" and "length payload < 60000"
    and "recv_at w (recv_no w) = Inr (pkt, fr)" and "hm_wf (seen (or_replay r))"
    and "\<not> remembers (or_replay r) (replay_key (blake3 P) payload) (clock_at w (clock_no w))"
    and "send_at w (send_no w) = None" and "onion_step P r w = (res, r', w')"
  shows "res = Inr True \<and> sent w' = sent w @ [(payload, next')]"
  using onion_step_fresh [OF assms] by simp

text \<open>
  C29: an onion hop does not repeat itself.  After it has forwarded a payload, a layer that
  peels to the same payload sends nothing, even when it is encrypted afresh and whatever the hop received in between, while the
  cache's TTL lasts and the datagrams received in between are not more than the places of the cache that are free or hold
  older entries.  The clock does not run backwards.
\<close>
theorem onion_not_twice:
  assumes "replay_inv (or_replay r)" and "mono (clock_at w)"
    and "recv_from w = (Inr (d, fr), w0)" and "onion_payload P r d = Some payload" and "onion_step P r w = (Inr True, r1, w1)"
    and "service_run (onion_step P) n r1 w1 = (r2, w2)"
    and "recv_from w2 = (Inr (d', fr'), w3)" and "onion_payload P r d' = Some payload" and "onion_step P r2 w2 = (res, r3, w4)"
    and "clock_at w (clock_no w2) - clock_at w (clock_no w) < ttl (or_replay r)"
    and "arrivals (recv_at w) (Suc (recv_no w)) n \<le> replay_room (or_replay r1) (clock_at w (clock_no w))"
  shows "sent w4 = sent w2"
  using onion.run_not_twice [OF assms] .

text \<open>The layer, a stray datagram, and the layer again.\<close>

definition again_world :: "bytes \<Rightarrow> world" where
  "again_world pkt = quiet_world\<lparr>clock_at := \<lambda>_. 0, recv_at := \<lambda>i. Inr (if i = 1 then [] else pkt, V4 (Ipv4Addr 10 0 0 1) 9)\<rparr>"

theorem onion_not_twice_witness:
  "\<exists>pkt r1 w1 r2 w2. onion_step model_primitives (onion_relay_bind (IdentitySecret 3)) (again_world pkt) = (Inr True, r1, w1)
     \<and> service_run (onion_step model_primitives) 1 r1 w1 = (r2, w2) \<and> sent (snd (snd (onion_step model_primitives r2 w2))) = sent w2"
proof -
  let ?P = model_primitives and ?r = "onion_relay_bind (IdentitySecret 3)" and ?n = "V4 (Ipv4Addr 127 0 0 1) 9"
  let ?fr = "V4 (Ipv4Addr 10 0 0 1) 9"
  obtain body pkt where b: "wrap_layer ?P 5 (replicate 24 1) (public ?P (or_local ?r)) ?n [7, 8] = Inr body"
    "encode_datagram Onion body = Inr pkt"
    using demo_layer by (auto simp: onion_relay_bind_def)
  let ?w = "again_world pkt"
  obtain res r1 w1 where st: "onion_step ?P ?r ?w = (res, r1, w1)" by (cases "onion_step ?P ?r ?w")
  obtain r2 w2 where run: "service_run (onion_step ?P) 1 r1 w1 = (r2, w2)" by (cases "service_run (onion_step ?P) 1 r1 w1")
  obtain res3 r3 w4 where st3: "onion_step ?P r2 w2 = (res3, r3, w4)" by (cases "onion_step ?P r2 w2")
  have f: "res = Inr True" "onion_payload ?P ?r pkt = Some [7, 8]"
    using onion_step_fresh [OF model_primitives_ok _ b _ _ _ _ _ st, of ?fr]
    by (simp_all add: again_world_def quiet_world_def onion_relay_bind_def replay_new_def hm_wf_def remembers_def)
  note st = st [unfolded f(1)]
  have w2: "recv_at w2 = recv_at ?w" "recv_no w2 = 2"
    using onion_service.step_one [OF st] onion_service.run_streams [OF run] by (simp_all add: again_world_def quiet_world_def)
  have "length pkt \<le> MAX_DATAGRAM" using length_encode_datagram [OF b(2)] by simp
  then have rf: "recv_from ?w = (Inr (pkt, ?fr), ?w\<lparr>recv_no := 1\<rparr>)" "recv_from w2 = (Inr (pkt, ?fr), w2\<lparr>recv_no := 3\<rparr>)"
    by (simp_all add: recv_from_def w2) (simp_all add: again_world_def quiet_world_def)
  have inv: "replay_inv (or_replay ?r)" "mono (clock_at ?w)"
    by (simp_all add: onion_relay_bind_def replay_new_def replay_inv_def hm_wf_def again_world_def mono_def)
  have "or_replay r1 = replay_new\<lparr>seen := [(replay_key (blake3 ?P) [7, 8], 0)]\<rparr>"
    using onion.asks [OF rf(1) f(2) st] accept_first [of "blake3 ?P" "[7, 8]" 0]
    by (simp add: onion_relay_bind_def instant_now_def again_world_def)
  then have "1 \<le> replay_room (or_replay r1) 0" by (simp add: replay_room_def newer_def replay_new_def DEFAULT_CAP_def)
  then have "sent w4 = sent w2"
    using onion_not_twice [OF inv rf(1) f(2) st run rf(2) f(2) st3]
    by (simp add: again_world_def quiet_world_def onion_relay_bind_def replay_new_def DEFAULT_TTL_def from_secs_def)
  then show ?thesis using st run st3 by (metis snd_conv)
qed

end
