(* ===== verification/Ppose_Session.thy ===== *)
theory Ppose_Session
  imports Ppose_Arq_Window Ppose_Cover Ppose_Noise Ppose_Onion
begin

text \<open>
  The peer session, \<^verbatim>\<open>src/session.rs\<close>: Noise handshake and transport, ARQ, and the three
  kinds of path, over the world of \<open>Ppose_Udp\<close>.  What comes from outside the crate is
  an \<open>env\<close>: the \<^verbatim>\<open>snow\<close> functions, the primitives of the onion layers, and the operating
  system's random bytes, as functions of the number of the send call they are used for.
  Operations return their result, the session and the world; an \<open>option\<close> around it is
  \<open>None\<close> where the code panics or does not return, which is shown not to happen.
\<close>

section \<open>State\<close>

record ('np, 'hs, 'ts, 'sk, 'pk) env =
  e_snow :: "('np, 'hs, 'ts) snow"
  e_prims :: "('sk, 'pk) primitives"
  e_onion_rng :: "nat \<Rightarrow> nat \<Rightarrow> 'sk \<times> bytes"
  e_cover_rng :: "nat \<Rightarrow> nat \<Rightarrow> bytes"

datatype 'pk path =
    Direct socket_addr
  | ViaRelay socket_addr socket_addr
  | ViaOnion "'pk onion_hop list" socket_addr

datatype session_error =
    SIo io_error
  | SNoise noise_error
  | SPacket packet_error
  | SArq arq_error
  | SGiveUp arq_give_up
  | UnexpectedType
  | UnexpectedAddr
  | HandshakeIncomplete
  | STimeout
  | EmptyOnion

record ('hs, 'ts, 'pk) udp_session =
  next_hop :: socket_addr
  s_peer :: socket_addr
  via_relay :: bool
  s_onion :: "'pk onion_hop list option"
  s_noise :: "('hs, 'ts) noise_session"
  s_arq :: arq
  drop_data :: u32
  s_cover :: cover_mode
  last_cover :: instant

text \<open>The operator \<^verbatim>\<open>?\<close> on an operation that changes the session and the world.\<close>

definition act_bind :: "('e + 'a) \<times> 's \<times> 'w \<Rightarrow> ('a \<Rightarrow> 's \<Rightarrow> 'w \<Rightarrow> ('e + 'b) \<times> 's \<times> 'w) \<Rightarrow> ('e + 'b) \<times> 's \<times> 'w" where
  "act_bind r f = (case r of (Inl e, s, w) \<Rightarrow> (Inl e, s, w) | (Inr a, s, w) \<Rightarrow> f a s w)"

lemma act_bind_simps [simp]:
  "act_bind (Inl e, s, w) f = (Inl e, s, w)"
  "act_bind (Inr a, s, w) f = f a s w"
  by (simp_all add: act_bind_def)

section \<open>Datagrams in and out\<close>

definition decode_incoming :: "bool \<Rightarrow> bytes \<Rightarrow> session_error + (packet_type \<times> bytes \<times> socket_addr option)" where
  "decode_incoming via bs =
     res_bind (map_err SPacket (decode_outer bs)) (\<lambda>(ty, flags, body).
       if via then
         if ty \<noteq> Forward then Inl UnexpectedType
         else res_bind (map_err SPacket (decode_forward_body body)) (\<lambda>(other, inner).
           res_bind (map_err SPacket (decode_outer inner)) (\<lambda>(ity, f, ibody).
             Inr (ity, ibody, Some other)))
       else Inr (ty, body, None))"

text \<open>
  The datagram \<^verbatim>\<open>send_inner\<close> puts on the wire; \<open>e_onion_rng E k\<close> is what wrapping draws for the \<open>k\<close>-th send call, so a wrap
  that fails before that call and the next wrap draw the same values.
\<close>

definition wire_of ::
  "('np, 'hs, 'ts, 'sk, 'pk) env \<Rightarrow> ('hs, 'ts, 'pk) udp_session \<Rightarrow> nat \<Rightarrow> packet_type \<Rightarrow> bytes \<Rightarrow> packet_error + bytes" where
  "wire_of E s k ty body =
     res_bind (encode_datagram ty body) (\<lambda>inner_dg.
       case s_onion s of
         Some hops \<Rightarrow> wrap_route (e_prims E) (e_onion_rng E k) hops (s_peer s) inner_dg
       | None \<Rightarrow>
           if via_relay s
           then res_bind (encode_forward_body (s_peer s) inner_dg) (\<lambda>fb. encode_datagram Forward fb)
           else Inr inner_dg)"

definition send_inner ::
  "('np, 'hs, 'ts, 'sk, 'pk) env \<Rightarrow> packet_type \<Rightarrow> bytes \<Rightarrow> ('hs, 'ts, 'pk) udp_session \<Rightarrow> world
     \<Rightarrow> (session_error + unit) \<times> ('hs, 'ts, 'pk) udp_session \<times> world" where
  "send_inner E ty body s w =
     (case wire_of E s (send_no w) ty body of
        Inl e \<Rightarrow> (Inl (SPacket e), s, w)
      | Inr wire' \<Rightarrow> (case send_to wire' (next_hop s) w of (r, w1) \<Rightarrow> (map_err SIo r, s, w1)))"

definition recv_inner ::
  "('hs, 'ts, 'pk) udp_session \<Rightarrow> world
     \<Rightarrow> (session_error + (packet_type \<times> bytes)) \<times> ('hs, 'ts, 'pk) udp_session \<times> world" where
  "recv_inner s w =
     (case recv_raw w of
        (Inl e, w1) \<Rightarrow> (Inl (SIo e), s, w1)
      | (Inr (raw, from), w1) \<Rightarrow>
          if from \<noteq> next_hop s then (Inl UnexpectedAddr, s, w1)
          else case decode_incoming (via_relay s) raw of
              Inl e \<Rightarrow> (Inl e, s, w1)
            | Inr (ty, body, other) \<Rightarrow>
                (Inr (ty, body), (case other of Some o' \<Rightarrow> s\<lparr>s_peer := o'\<rparr> | None \<Rightarrow> s), w1))"

section \<open>Data transfer\<close>

definition seal_and_send ::
  "('np, 'hs, 'ts, 'sk, 'pk) env \<Rightarrow> bytes \<Rightarrow> ('hs, 'ts, 'pk) udp_session \<Rightarrow> world
     \<Rightarrow> (session_error + unit) \<times> ('hs, 'ts, 'pk) udp_session \<times> world" where
  "seal_and_send E inner s w =
     (case noise_seal (e_snow E) inner MAX_DATAGRAM (s_noise s) of
        (Inl e, n) \<Rightarrow> (Inl (SNoise e), s\<lparr>s_noise := n\<rparr>, w)
      | (Inr ct, n) \<Rightarrow> send_inner E Data ct (s\<lparr>s_noise := n\<rparr>) w)"

definition seal_data ::
  "('np, 'hs, 'ts, 'sk, 'pk) env \<Rightarrow> bytes \<Rightarrow> ('hs, 'ts, 'pk) udp_session \<Rightarrow> world
     \<Rightarrow> (session_error + unit) \<times> ('hs, 'ts, 'pk) udp_session \<times> world" where
  "seal_data E inner s w =
     (if drop_data s > 0 then (Inr (), s\<lparr>drop_data := drop_data s - 1\<rparr>, w)
      else seal_and_send E inner s w)"

fun seal_all ::
  "('np, 'hs, 'ts, 'sk, 'pk) env \<Rightarrow> bytes list \<Rightarrow> ('hs, 'ts, 'pk) udp_session \<Rightarrow> world
     \<Rightarrow> (session_error + unit) \<times> ('hs, 'ts, 'pk) udp_session \<times> world" where
  "seal_all E [] s w = (Inr (), s, w)"
| "seal_all E (pt # pts) s w = act_bind (seal_data E pt s w) (\<lambda>_. seal_all E pts)"

definition flush ::
  "('np, 'hs, 'ts, 'sk, 'pk) env \<Rightarrow> ('hs, 'ts, 'pk) udp_session \<Rightarrow> world
     \<Rightarrow> ((session_error + unit) \<times> ('hs, 'ts, 'pk) udp_session \<times> world) option" where
  "flush E s w =
     (case instant_now w of (now, w1) \<Rightarrow>
      case take_new_sends (s_arq s) now of
        None \<Rightarrow> None
      | Some (news, a1) \<Rightarrow>
          (case seal_all E news (s\<lparr>s_arq := a1\<rparr>) w1 of
             (Inl e, s2, w2) \<Rightarrow> Some (Inl e, s2, w2)
           | (Inr _, s2, w2) \<Rightarrow>
               (case take_retransmits (s_arq s2) now of
                  None \<Rightarrow> None
                | Some (Inl g, a2) \<Rightarrow> Some (Inl (SGiveUp g), s2\<lparr>s_arq := a2\<rparr>, w2)
                | Some (Inr retrx, a2) \<Rightarrow> Some (seal_all E retrx (s2\<lparr>s_arq := a2\<rparr>) w2))))"

definition maybe_cover ::
  "('np, 'hs, 'ts, 'sk, 'pk) env \<Rightarrow> ('hs, 'ts, 'pk) udp_session \<Rightarrow> world
     \<Rightarrow> (session_error + unit) \<times> ('hs, 'ts, 'pk) udp_session \<times> world" where
  "maybe_cover E s w =
     (case interval (s_cover s) of
        None \<Rightarrow> (Inr (), s, w)
      | Some d \<Rightarrow>
          (case instant_now w of (now, w1) \<Rightarrow>
             if now - last_cover s < d then (Inr (), s, w1)
             else
               let s1 = s\<lparr>last_cover := now\<rparr>;
                   body = e_cover_rng E (send_no w1) (payload_len (s_cover s1))
               in send_inner E Data body s1 w1))"

text \<open>Hand an opened frame to the ARQ and seal its acknowledgement, if there is one.\<close>

definition ingest_reply ::
  "('np, 'hs, 'ts, 'sk, 'pk) env \<Rightarrow> bytes \<Rightarrow> ('hs, 'ts, 'pk) udp_session \<Rightarrow> world
     \<Rightarrow> (session_error + unit) \<times> ('hs, 'ts, 'pk) udp_session \<times> world" where
  "ingest_reply E out s w =
     (case ingest (s_arq s) out of
        (Inl e, a) \<Rightarrow> (Inl (SArq e), s\<lparr>s_arq := a\<rparr>, w)
      | (Inr None, a) \<Rightarrow> (Inr (), s\<lparr>s_arq := a\<rparr>, w)
      | (Inr (Some ack), a) \<Rightarrow> seal_and_send E ack (s\<lparr>s_arq := a\<rparr>) w)"

definition handle_incoming ::
  "('np, 'hs, 'ts, 'sk, 'pk) env \<Rightarrow> bytes \<Rightarrow> ('hs, 'ts, 'pk) udp_session \<Rightarrow> world
     \<Rightarrow> (session_error + unit) \<times> ('hs, 'ts, 'pk) udp_session \<times> world" where
  "handle_incoming E raw s w =
     (case decode_incoming (via_relay s) raw of
        Inl e \<Rightarrow> (Inl e, s, w)
      | Inr (ty, body, other) \<Rightarrow>
          let s1 = (case other of Some o' \<Rightarrow> s\<lparr>s_peer := o'\<rparr> | None \<Rightarrow> s)
          in if ty = Data then
               (case noise_open (e_snow E) body (length body) (s_noise s1) of
                  (Inl _, n) \<Rightarrow> (Inr (), s1\<lparr>s_noise := n\<rparr>, w)
                | (Inr out, n) \<Rightarrow> ingest_reply E out (s1\<lparr>s_noise := n\<rparr>) w)
             else (Inl UnexpectedType, s1, w))"

text \<open>\<^verbatim>\<open>set_read_timeout(Some(d))\<close>: the library refuses the zero duration, and the operating system may fail.\<close>

definition set_read_timeout :: "duration \<Rightarrow> world \<Rightarrow> io_error + unit" where
  "set_read_timeout d w =
     (if d = 0 then Inl InvalidInput else case opt_at w (clock_no w) of None \<Rightarrow> Inr () | Some e \<Rightarrow> Inl e)"

text \<open>
  The end of an iteration of the two waiting loops: receive and handle one datagram;
  timeouts and datagrams from elsewhere are passed over.
\<close>

definition pump ::
  "('np, 'hs, 'ts, 'sk, 'pk) env \<Rightarrow> duration \<Rightarrow> ('hs, 'ts, 'pk) udp_session \<Rightarrow> world
     \<Rightarrow> (session_error + unit) \<times> ('hs, 'ts, 'pk) udp_session \<times> world" where
  "pump E d s w =
     (case set_read_timeout d w of
        Inl e \<Rightarrow> (Inl (SIo e), s, w)
      | Inr _ \<Rightarrow>
          (case recv_raw w of
             (Inl e, w1) \<Rightarrow> if e = WouldBlock \<or> e = TimedOut then (Inr (), s, w1) else (Inl (SIo e), s, w1)
           | (Inr (raw, from), w1) \<Rightarrow>
               if from \<noteq> next_hop s then (Inr (), s, w1) else handle_incoming E raw s w1))"

partial_function (option) wait_loop ::
  "('np, 'hs, 'ts, 'sk, 'pk) env \<Rightarrow> instant \<Rightarrow> ('hs, 'ts, 'pk) udp_session \<Rightarrow> world
     \<Rightarrow> ((session_error + unit) \<times> ('hs, 'ts, 'pk) udp_session \<times> world) option" where
  "wait_loop E deadline s w =
     (case flush E s w of
        None \<Rightarrow> None
      | Some (Inl e, s1, w1) \<Rightarrow> Some (Inl e, s1, w1)
      | Some (Inr _, s1, w1) \<Rightarrow>
          (case maybe_cover E s1 w1 of
             (Inl e, s2, w2) \<Rightarrow> Some (Inl e, s2, w2)
           | (Inr _, s2, w2) \<Rightarrow>
               if unacked_len (s_arq s2) = 0 then Some (Inr (), s2, w2)
               else
                 (case instant_now w2 of (now, w3) \<Rightarrow>
                    if now \<ge> deadline then Some (Inl STimeout, s2, w3)
                    else
                      (case pump E (min (deadline - now) (from_millis 50)) s2 w3 of
                         (Inl e, s4, w4) \<Rightarrow> Some (Inl e, s4, w4)
                       | (Inr _, s4, w4) \<Rightarrow> wait_loop E deadline s4 w4))))"

definition wait_acked ::
  "('np, 'hs, 'ts, 'sk, 'pk) env \<Rightarrow> duration \<Rightarrow> ('hs, 'ts, 'pk) udp_session \<Rightarrow> world
     \<Rightarrow> ((session_error + unit) \<times> ('hs, 'ts, 'pk) udp_session \<times> world) option" where
  "wait_acked E timeout s w = (case instant_now w of (t, w1) \<Rightarrow> wait_loop E (t + timeout) s w1)"

definition send_timeout ::
  "('np, 'hs, 'ts, 'sk, 'pk) env \<Rightarrow> bytes \<Rightarrow> duration \<Rightarrow> ('hs, 'ts, 'pk) udp_session \<Rightarrow> world
     \<Rightarrow> ((session_error + unit) \<times> ('hs, 'ts, 'pk) udp_session \<times> world) option" where
  "send_timeout E plaintext timeout s w =
     (case enqueue (s_arq s) plaintext of
        (Inl e, a) \<Rightarrow> Some (Inl (SArq e), s\<lparr>s_arq := a\<rparr>, w)
      | (Inr _, a) \<Rightarrow> wait_acked E timeout (s\<lparr>s_arq := a\<rparr>) w)"

definition session_send ::
  "('np, 'hs, 'ts, 'sk, 'pk) env \<Rightarrow> bytes \<Rightarrow> ('hs, 'ts, 'pk) udp_session \<Rightarrow> world
     \<Rightarrow> ((session_error + unit) \<times> ('hs, 'ts, 'pk) udp_session \<times> world) option" where
  "session_send E plaintext s w = send_timeout E plaintext (from_secs 5) s w"

partial_function (option) recv_loop ::
  "('np, 'hs, 'ts, 'sk, 'pk) env \<Rightarrow> instant \<Rightarrow> ('hs, 'ts, 'pk) udp_session \<Rightarrow> world
     \<Rightarrow> ((session_error + bytes) \<times> ('hs, 'ts, 'pk) udp_session \<times> world) option" where
  "recv_loop E deadline s w =
     (case pop_delivered (s_arq s) of
        (Some m, a) \<Rightarrow> Some (Inr m, s\<lparr>s_arq := a\<rparr>, w)
      | (None, a) \<Rightarrow>
         (case flush E (s\<lparr>s_arq := a\<rparr>) w of
            None \<Rightarrow> None
          | Some (Inl e, s1, w1) \<Rightarrow> Some (Inl e, s1, w1)
          | Some (Inr _, s1, w1) \<Rightarrow>
              (case maybe_cover E s1 w1 of
                 (Inl e, s2, w2) \<Rightarrow> Some (Inl e, s2, w2)
               | (Inr _, s2, w2) \<Rightarrow>
                   (case instant_now w2 of (now, w3) \<Rightarrow>
                      if now \<ge> deadline then Some (Inl STimeout, s2, w3)
                      else
                        (case pump E (deadline - now) s2 w3 of
                           (Inl e, s4, w4) \<Rightarrow> Some (Inl e, s4, w4)
                         | (Inr _, s4, w4) \<Rightarrow> recv_loop E deadline s4 w4)))))"

definition session_recv ::
  "('np, 'hs, 'ts, 'sk, 'pk) env \<Rightarrow> duration \<Rightarrow> ('hs, 'ts, 'pk) udp_session \<Rightarrow> world
     \<Rightarrow> ((session_error + bytes) \<times> ('hs, 'ts, 'pk) udp_session \<times> world) option" where
  "session_recv E timeout s w = (case instant_now w of (t, w1) \<Rightarrow> recv_loop E (t + timeout) s w1)"

section \<open>Settings\<close>

definition set_outbound_onion ::
  "'pk onion_hop list \<Rightarrow> socket_addr \<Rightarrow> ('hs, 'ts, 'pk) udp_session
     \<Rightarrow> (session_error + unit) \<times> ('hs, 'ts, 'pk) udp_session" where
  "set_outbound_onion hops dest s =
     (case hops of
        [] \<Rightarrow> (Inl EmptyOnion, s)
      | first # _ \<Rightarrow>
          (Inr (), s\<lparr>next_hop := hop_addr first, s_peer := dest, s_onion := Some hops, via_relay := False\<rparr>))"

definition set_cover :: "cover_mode \<Rightarrow> ('hs, 'ts, 'pk) udp_session \<Rightarrow> world \<Rightarrow> ('hs, 'ts, 'pk) udp_session \<times> world" where
  "set_cover mode s w = (case instant_now w of (now, w1) \<Rightarrow> (s\<lparr>s_cover := mode, last_cover := now\<rparr>, w1))"

definition debug_drop_data :: "u32 \<Rightarrow> ('hs, 'ts, 'pk) udp_session \<Rightarrow> ('hs, 'ts, 'pk) udp_session" where
  "debug_drop_data n s = s\<lparr>drop_data := n\<rparr>"

definition set_retx_timeout :: "duration \<Rightarrow> ('hs, 'ts, 'pk) udp_session \<Rightarrow> ('hs, 'ts, 'pk) udp_session" where
  "set_retx_timeout d s = s\<lparr>s_arq := set_retx (s_arq s) d\<rparr>"

definition session_remote_static ::
  "('np, 'hs, 'ts, 'sk, 'pk) env \<Rightarrow> ('hs, 'ts, 'pk) udp_session \<Rightarrow> session_error + bytes" where
  "session_remote_static E s = map_err SNoise (remote_static (e_snow E) (s_noise s))"

section \<open>Handshakes\<close>

text \<open>Write the next handshake message and send it; receive one and read it.\<close>

definition send_handshake ::
  "('np, 'hs, 'ts, 'sk, 'pk) env \<Rightarrow> ('hs, 'ts, 'pk) udp_session \<Rightarrow> world
     \<Rightarrow> (session_error + unit) \<times> ('hs, 'ts, 'pk) udp_session \<times> world" where
  "send_handshake E s w =
     (case write_handshake (e_snow E) [] MAX_DATAGRAM (s_noise s) of
        (Inl e, n) \<Rightarrow> (Inl (SNoise e), s\<lparr>s_noise := n\<rparr>, w)
      | (Inr msg, n) \<Rightarrow> send_inner E Handshake msg (s\<lparr>s_noise := n\<rparr>) w)"

definition recv_handshake ::
  "('np, 'hs, 'ts, 'sk, 'pk) env \<Rightarrow> ('hs, 'ts, 'pk) udp_session \<Rightarrow> world
     \<Rightarrow> (session_error + unit) \<times> ('hs, 'ts, 'pk) udp_session \<times> world" where
  "recv_handshake E s w =
     act_bind (recv_inner s w) (\<lambda>(ty, body) s1 w1.
       if ty \<noteq> Handshake then (Inl UnexpectedType, s1, w1)
       else case read_handshake (e_snow E) body MAX_DATAGRAM (s_noise s1) of
           (Inl e, n) \<Rightarrow> (Inl (SNoise e), s1\<lparr>s_noise := n\<rparr>, w1)
         | (Inr _, n) \<Rightarrow> (Inr (), s1\<lparr>s_noise := n\<rparr>, w1))"

text \<open>The checks at the end of both handshakes.\<close>

definition finish_handshake ::
  "('np, 'hs, 'ts, 'sk, 'pk) env \<Rightarrow> 'pk public_identity option \<Rightarrow> ('hs, 'ts, 'pk) udp_session \<Rightarrow> world
     \<Rightarrow> (session_error + unit) \<times> ('hs, 'ts, 'pk) udp_session \<times> world" where
  "finish_handshake E expected s w =
     (if \<not> is_transport (s_noise s) then (Inl HandshakeIncomplete, s, w)
      else case expected of
          None \<Rightarrow> (Inr (), s, w)
        | Some ex \<Rightarrow>
            (case pin_remote (e_snow E) (as_bytes (e_prims E) ex) (s_noise s) of
               Inl e \<Rightarrow> (Inl (SNoise e), s, w)
             | Inr _ \<Rightarrow> (Inr (), s, w)))"

definition returning :: "('e + unit) \<times> 's \<times> 'w \<Rightarrow> ('e + 's) \<times> 'w" where
  "returning r = (case r of (Inl e, s, w) \<Rightarrow> (Inl e, w) | (Inr _, s, w) \<Rightarrow> (Inr s, w))"

fun resolve_path :: "'pk path \<Rightarrow> session_error + (socket_addr \<times> socket_addr \<times> bool \<times> 'pk onion_hop list option)" where
  "resolve_path (Direct peer) = Inr (peer, peer, False, None)"
| "resolve_path (ViaRelay relay' peer) = Inr (relay', peer, True, None)"
| "resolve_path (ViaOnion [] dest) = Inl EmptyOnion"
| "resolve_path (ViaOnion (first # hops) dest) = Inr (hop_addr first, dest, False, Some (first # hops))"

definition connect_initiator_pinned ::
  "('np, 'hs, 'ts, 'sk, 'pk) env \<Rightarrow> 'sk identity_secret \<Rightarrow> 'pk path \<Rightarrow> 'pk public_identity option \<Rightarrow> world
     \<Rightarrow> (session_error + ('hs, 'ts, 'pk) udp_session) \<times> world" where
  "connect_initiator_pinned E local path expected w =
     (case resolve_path path of
        Inl e \<Rightarrow> (Inl e, w)
      | Inr (hop, peer, via, onion) \<Rightarrow>
          (case noise_new (e_snow E) (e_prims E) Initiator local of
             Inl e \<Rightarrow> (Inl (SNoise e), w)
           | Inr noise \<Rightarrow>
               (case instant_now w of (now, w1) \<Rightarrow>
                  let sess = \<lparr>next_hop = hop, s_peer = peer, via_relay = via, s_onion = onion, s_noise = noise,
                        s_arq = arq_new, drop_data = 0, s_cover = Off, last_cover = now\<rparr>
                  in returning (act_bind (send_handshake E sess w1) (\<lambda>_ s2 w2.
                       act_bind (recv_handshake E s2 w2) (\<lambda>_ s3 w3.
                         act_bind (send_handshake E s3 w3) (\<lambda>_ s4 w4.
                           finish_handshake E expected s4 w4)))))))"

definition connect_initiator ::
  "('np, 'hs, 'ts, 'sk, 'pk) env \<Rightarrow> 'sk identity_secret \<Rightarrow> 'pk path \<Rightarrow> world
     \<Rightarrow> (session_error + ('hs, 'ts, 'pk) udp_session) \<times> world" where
  "connect_initiator E local path w = connect_initiator_pinned E local path None w"

definition accept_ex ::
  "('np, 'hs, 'ts, 'sk, 'pk) env \<Rightarrow> 'sk identity_secret \<Rightarrow> socket_addr option \<Rightarrow> 'pk public_identity option
     \<Rightarrow> ('pk onion_hop list \<times> socket_addr) option \<Rightarrow> world
     \<Rightarrow> (session_error + ('hs, 'ts, 'pk) udp_session) \<times> world" where
  "accept_ex E local expected_relay expected outbound_onion w =
     (case noise_new (e_snow E) (e_prims E) Responder local of
        Inl e \<Rightarrow> (Inl (SNoise e), w)
      | Inr noise \<Rightarrow>
         (case recv_raw w of
            (Inl e, w1) \<Rightarrow> (Inl (SIo e), w1)
          | (Inr (raw, from), w1) \<Rightarrow>
              if (case expected_relay of Some r \<Rightarrow> from \<noteq> r | None \<Rightarrow> False) then (Inl UnexpectedAddr, w1)
              else
                let via = expected_relay \<noteq> None
                in case decode_incoming via raw of
                     Inl e \<Rightarrow> (Inl e, w1)
                   | Inr (ty, body, other) \<Rightarrow>
                       if ty \<noteq> Handshake then (Inl UnexpectedType, w1)
                       else (case (if via then ok_or UnexpectedType other else Inr from) of
                               Inl e \<Rightarrow> (Inl e, w1)
                             | Inr peer \<Rightarrow>
                                 (case read_handshake (e_snow E) body MAX_DATAGRAM noise of
                                    (Inl e, _) \<Rightarrow> (Inl (SNoise e), w1)
                                  | (Inr _, noise1) \<Rightarrow>
                                      (case instant_now w1 of (now, w2) \<Rightarrow>
                                         let sess = \<lparr>next_hop = from, s_peer = peer, via_relay = via, s_onion = None,
                                               s_noise = noise1, s_arq = arq_new, drop_data = 0, s_cover = Off,
                                               last_cover = now\<rparr>;
                                             routed = (case outbound_onion of
                                                 None \<Rightarrow> (Inr (), sess)
                                               | Some (hops, dest) \<Rightarrow> set_outbound_onion hops dest sess)
                                         in returning (act_bind (fst routed, snd routed, w2) (\<lambda>_ s3 w3.
                                              act_bind (send_handshake E s3 w3) (\<lambda>_ s4 w4.
                                                act_bind (recv_handshake E s4 w4) (\<lambda>_ s5 w5.
                                                  finish_handshake E expected s5 w5)))))))))"

definition accept_responder ::
  "('np, 'hs, 'ts, 'sk, 'pk) env \<Rightarrow> 'sk identity_secret \<Rightarrow> socket_addr option \<Rightarrow> world
     \<Rightarrow> (session_error + ('hs, 'ts, 'pk) udp_session) \<times> world" where
  "accept_responder E local expected_relay w = accept_ex E local expected_relay None None w"

definition accept_responder_pinned ::
  "('np, 'hs, 'ts, 'sk, 'pk) env \<Rightarrow> 'sk identity_secret \<Rightarrow> socket_addr option \<Rightarrow> 'pk public_identity option \<Rightarrow> world
     \<Rightarrow> (session_error + ('hs, 'ts, 'pk) udp_session) \<times> world" where
  "accept_responder_pinned E local expected_relay expected w = accept_ex E local expected_relay expected None w"

definition accept_responder_onion ::
  "('np, 'hs, 'ts, 'sk, 'pk) env \<Rightarrow> 'sk identity_secret \<Rightarrow> 'pk onion_hop list \<Rightarrow> socket_addr \<Rightarrow> world
     \<Rightarrow> (session_error + ('hs, 'ts, 'pk) udp_session) \<times> world" where
  "accept_responder_onion E local hops dest w = accept_ex E local None None (Some (hops, dest)) w"

section \<open>Instances\<close>

text \<open>A concrete environment and an established session in it, on which the theorems are evaluated.\<close>

definition model_env :: "(unit, bool \<times> model_hs, model_ts, 256 word, 256 word) env" where
  "model_env = \<lparr>e_snow = model_snow, e_prims = model_primitives,
     e_onion_rng = (\<lambda>k n. (of_nat n, replicate 24 0)), e_cover_rng = (\<lambda>k n. replicate n 0)\<rparr>"

definition model_session :: "socket_addr \<Rightarrow> (bool \<times> model_hs, model_ts, 256 word) udp_session" where
  "model_session peer = \<lparr>next_hop = peer, s_peer = peer, via_relay = False, s_onion = None,
     s_noise = \<lparr>handshake = None, transport = Some \<lparr>mt_sn = 0, mt_rn = 0, mt_remote = []\<rparr>\<rparr>,
     s_arq = arq_new, drop_data = 0, s_cover = Off, last_cover = 0\<rparr>"

lemmas model_defs = model_env_def model_session_def model_snow_def

end
