(* ===== verification/Ppose_Session_Path.thy ===== *)
theory Ppose_Session_Path
  imports Ppose_Session Ppose_Relay
begin

text \<open>
  The routes of a session: how much a datagram can carry on each kind of path, and that a
  datagram sent through the relay reaches the other session with its type, body and sender.
\<close>

section \<open>Wire forms\<close>

lemma wire_of_relay:
  assumes "via_relay s" and "s_onion s = None"
  shows "wire_of E s k ty body = Inr wire' \<longleftrightarrow>
    (\<exists>ip port. s_peer s = V4 ip port \<and> length body \<le> 1178 \<and> wire' = forward_packet 0 ip port (encode_outer ty 0 @ body))"
  using assms
  by (auto simp: wire_of_def res_bind_Inr_iff encode_datagram_Inr_iff encode_forward_body_Inr_iff forward_packet_def
      const_defs)

lemma decode_incoming_forward:
  "decode_incoming True (forward_packet fl ip port (encode_outer ty f @ body)) = Inr (ty, body, Some (V4 ip port))"
  by (simp add: decode_incoming_def forward_packet_payload decode_forward_addr)

lemma send_inner_Inr:
  assumes "send_inner E ty body s w = (Inr u, s', w')"
  obtains wire' where "wire_of E s (send_no w) ty body = Inr wire'" "sent w' = sent w @ [(wire', next_hop s)]" "s' = s"
proof -
  obtain wire' where w: "wire_of E s (send_no w) ty body = Inr wire'"
    using assms by (auto simp: send_inner_def split: sum.splits)
  then have "send_to wire' (next_hop s) w = (Inr u, w')" "s' = s"
    using assms by (auto simp: send_inner_def split: prod.splits)
  then show thesis
    using that [OF w] sent_send_to [of wire' "next_hop s" w] fst_send_to [of wire' "next_hop s" w] by simp
qed

section \<open>Properties\<close>

text \<open>
  C14: the capacity of each path.  A packet body can be sent exactly when it has at most
  1192 bytes on a direct path; at most 1178 bytes and an IPv4 peer through a relay; and on
  an onion route when the destination and every hop but the first have IPv4 addresses and
  the body leaves 8 bytes for its header and 86 for every hop.  A full fragment of the ARQ
  (1024 bytes of payload, 9 of header, 16 of authentication tag) passes one hop but not two.
\<close>
theorem path_capacity:
  assumes "primitives_ok (e_prims E)" and "nonces_ok (e_onion_rng E k)"
  shows "(\<exists>wire'. wire_of E s k ty body = Inr wire') \<longleftrightarrow>
    (case s_onion s of
       Some hops \<Rightarrow> hops \<noteq> [] \<and> is_v4 (s_peer s) \<and> list_all (\<lambda>h. is_v4 (hop_addr h)) (tl hops) \<and>
         length body + 8 + 86 * length hops \<le> 1200
     | None \<Rightarrow> if via_relay s then is_v4 (s_peer s) \<and> length body \<le> 1178 else length body \<le> 1192)"
proof (cases "s_onion s")
  case None
  show ?thesis
  proof (cases "via_relay s")
    case True
    have "is_v4 a \<longleftrightarrow> (\<exists>ip port. a = V4 ip port)" for a by (cases a) simp_all
    then show ?thesis using None True by (auto simp: wire_of_relay)
  next
    case False
    then show ?thesis using None by (auto simp: wire_of_def res_bind_Inr_iff encode_datagram_Inr_iff const_defs)
  qed
next
  case (Some hops)
  have "(\<exists>wire'. wire_of E s k ty body = Inr wire') \<longleftrightarrow>
      length body \<le> 1192 \<and> (\<exists>wire'. wrap_route (e_prims E) (e_onion_rng E k) hops (s_peer s) (encode_outer ty 0 @ body) = Inr wire')"
    using Some by (auto simp: wire_of_def res_bind_Inr_iff encode_datagram_Inr_iff const_defs)
  also have "\<dots> \<longleftrightarrow> length body \<le> 1192 \<and> hops \<noteq> [] \<and> is_v4 (s_peer s) \<and> list_all (\<lambda>h. is_v4 (hop_addr h)) (tl hops) \<and>
      length body + 8 + 86 * length hops \<le> 1200"
    using wrap_route_succeeds [OF assms, of "encode_outer ty 0 @ body" hops "s_peer s"]
    by (auto simp: const_defs)
  finally show ?thesis using Some by auto
qed

theorem path_capacity_witness:
  "(\<exists>wire'. wire_of model_env ((model_session (V4 (Ipv4Addr 127 0 0 1) 9))\<lparr>s_onion := Some [demo_hop 3 1]\<rparr>) 0 Data
      (replicate 1049 0) = Inr wire')
   \<and> \<not> (\<exists>wire'. wire_of model_env ((model_session (V4 (Ipv4Addr 127 0 0 1) 9))\<lparr>s_onion := Some [demo_hop 3 1, demo_hop 4 2]\<rparr>) 0 Data
      (replicate 1049 0) = Inr wire')"
proof -
  have "primitives_ok (e_prims model_env)" "nonces_ok (e_onion_rng model_env 0)"
    using model_primitives_ok by (simp_all add: model_env_def)
  from path_capacity [OF this] show ?thesis by (simp add: model_session_def)
qed

text \<open>
  C12: two sessions and the relay between them.  When \<open>send_inner\<close> of the first succeeds,
  the relay has not seen the datagram before and the network carries it from hop to hop,
  the relay sends it to the peer the first session names, and \<open>recv_inner\<close> of the second
  returns its type and body and takes the first one's address as its peer.
\<close>
theorem relay_path_delivers:
  assumes "via_relay sA" and "s_onion sA = None" and "send_inner E ty body sA wA = (Inr (), sA', wA')"
    and "recv_at wR (recv_no wR) = Inr (fst (last (sent wA')), V4 aip aport)"
    and "hm_wf (seen (r_replay r))"
    and "\<not> remembers (r_replay r) (replay_key hash (encode_outer ty 0 @ body)) (clock_at wR (clock_no wR))"
    and "send_at wR (send_no wR) = None" and "relay_step hash r wR = (res, r', wR')"
    and "recv_at wB (recv_no wB) = Inr (fst (last (sent wR')), next_hop sB)" and "via_relay sB"
  shows "snd (last (sent wR')) = s_peer sA \<and>
    (\<exists>wB'. recv_inner sB wB = (Inr (ty, body), sB\<lparr>s_peer := V4 aip aport\<rparr>, wB'))"
proof -
  let ?inner = "encode_outer ty 0 @ body"
  obtain ip port where p: "s_peer sA = V4 ip port" "length body \<le> 1178"
    and wA: "sent wA' = sent wA @ [(forward_packet 0 ip port ?inner, next_hop sA)]"
    using send_inner_Inr [OF assms(3)] wire_of_relay [OF assms(1,2)] by metis
  have rA: "recv_at wR (recv_no wR) = Inr (forward_packet 0 ip port ?inner, V4 aip aport)"
    using assms(4) wA by simp
  have "length ?inner \<le> 1186" using p(2) by (simp add: const_defs)
  from relay_step_fresh [OF rA this assms(5-8)]
  have wR: "sent wR' = sent wR @ [(forward_packet 0 aip aport ?inner, V4 ip port)]" by blast
  have "length (forward_packet 0 aip aport ?inner) \<le> MAX_DATAGRAM"
    using p(2) by (simp add: forward_packet_def const_defs)
  then show ?thesis
    using assms(9,10) wR p(1)
    by (simp add: recv_inner_def recv_raw_def recv_from_def decode_incoming_forward)
qed

theorem relay_path_delivers_witness:
  "\<exists>wB'. recv_inner ((model_session (V4 (Ipv4Addr 10 0 0 5) 5))\<lparr>via_relay := True\<rparr>)
      (quiet_world\<lparr>recv_at := \<lambda>_. Inr (forward_packet 0 (Ipv4Addr 10 0 0 1) 9 (encode_outer Data 0 @ [1, 2]), V4 (Ipv4Addr 10 0 0 5) 5)\<rparr>) =
    (Inr (Data, [1, 2]), (model_session (V4 (Ipv4Addr 10 0 0 5) 5))\<lparr>via_relay := True, s_peer := V4 (Ipv4Addr 10 0 0 1) 9\<rparr>, wB')"
proof -
  let ?R = "V4 (Ipv4Addr 10 0 0 5) 5" and ?A = "V4 (Ipv4Addr 10 0 0 1) 9"
  let ?inner = "encode_outer Data 0 @ [1, 2]"
  let ?sA = "(model_session ?R)\<lparr>via_relay := True, s_peer := V4 (Ipv4Addr 10 0 0 2) 7\<rparr>"
  let ?sB = "(model_session ?R)\<lparr>via_relay := True\<rparr>"
  let ?f = "forward_packet 0 (Ipv4Addr 10 0 0 2) 7 ?inner" and ?g = "forward_packet 0 (Ipv4Addr 10 0 0 1) 9 ?inner"
  let ?wR = "quiet_world\<lparr>recv_at := \<lambda>_. Inr (?f, ?A)\<rparr>" and ?wB = "quiet_world\<lparr>recv_at := \<lambda>_. Inr (?g, ?R)\<rparr>"
  have "wire_of model_env ?sA 0 Data [1, 2] = Inr ?f"
    by (subst wire_of_relay) (simp_all add: model_session_def)
  then have sA: "send_inner model_env Data [1, 2] ?sA quiet_world = (Inr (), ?sA, quiet_world\<lparr>send_no := 1, sent := [(?f, ?R)]\<rparr>)"
    by (simp add: send_inner_def quiet_world_def send_to_def model_session_def)
  obtain res r' wR' where st: "relay_step id relay_bind ?wR = (res, r', wR')" by (cases "relay_step id relay_bind ?wR")
  have fresh: "hm_wf (seen (r_replay relay_bind))" "\<not> remembers (r_replay relay_bind) k t" for k t
    by (simp_all add: relay_bind_def replay_new_def hm_wf_def remembers_def)
  have "length ?inner \<le> 1186" by (simp add: const_defs)
  from relay_step_fresh [OF _ this fresh _ st]
  have wR: "sent wR' = [(?g, V4 (Ipv4Addr 10 0 0 2) 7)]" by (simp add: quiet_world_def)
  have "\<exists>wB'. recv_inner ?sB ?wB = (Inr (Data, [1, 2]), ?sB\<lparr>s_peer := ?A\<rparr>, wB')"
    using relay_path_delivers [OF _ _ sA _ fresh _ st, of "Ipv4Addr 10 0 0 1" 9 ?wB ?sB] wR
    by (simp add: quiet_world_def model_session_def)
  then show ?thesis by simp
qed

end
