(* ===== verification/Ppose_Session_Order.thy ===== *)
theory Ppose_Session_Order
  imports Ppose_Session
begin

text \<open>
  Sealed datagrams and the order they arrive in.  The Noise transport numbers its messages
  and does not transmit the number; the session hands every datagram to it as it comes and
  drops what does not open.
\<close>

lemma counter_write:
  assumes "counter_nonces N sn rn paired" and "ts_write N t pt n = (r, t')" and "paired t u"
  shows "paired t' u \<and> sn t \<le> sn t' \<and> (\<not> isl r \<longrightarrow> sn t' = Suc (sn t))"
  using assms unfolding counter_nonces_def by (cases r) (auto, blast+)

lemma counter_read:
  assumes "counter_nonces N sn rn paired" and "ts_write N t pt n = (Inr ct, t')" and "paired t u"
  shows "if rn u = sn t
    then \<exists>u'. ts_read N u ct (length ct) = (Inr pt, u') \<and> rn u' = Suc (rn u) \<and> paired t' u'
    else \<exists>e. ts_read N u ct (length ct) = (Inl e, u)"
  using assms unfolding counter_nonces_def by (metis order_refl)

text \<open>A session in transport mode on a direct path, losing nothing on purpose.\<close>

definition direct_with :: "('hs, 'ts, 'pk) udp_session \<Rightarrow> 'ts \<Rightarrow> bool" where
  "direct_with s t \<longleftrightarrow> transport (s_noise s) = Some t \<and> s_onion s = None \<and> \<not> via_relay s \<and> drop_data s = 0"

lemma seal_data_direct:
  assumes "direct_with s t" and "seal_data E pt s w = (r, s', w')" and "ts_write (e_snow E) t pt MAX_DATAGRAM = (x, t')"
  shows "direct_with s' t' \<and>
    (sent w' = sent w \<and> r \<noteq> Inr () \<or> (\<exists>ct. x = Inr ct \<and> sent w' = sent w @ [(encode_outer Data 0 @ ct, next_hop s)]))"
proof (cases x)
  case (Inl e)
  then show ?thesis
    using assms by (auto simp: direct_with_def seal_data_def seal_and_send_def noise_seal_def transport_call_def)
next
  case (Inr ct)
  let ?s1 = "s\<lparr>s_noise := (s_noise s)\<lparr>transport := Some t'\<rparr>\<rparr>"
  have si: "send_inner E Data ct ?s1 w = (r, s', w')"
    using assms Inr by (auto simp: direct_with_def seal_data_def seal_and_send_def noise_seal_def transport_call_def)
  have w: "wire_of E ?s1 k Data ct = encode_datagram Data ct" for k
    using assms(1) by (simp add: wire_of_def direct_with_def) (simp add: res_bind_def split: sum.splits)
  show ?thesis
    using si assms(1) Inr
    by (auto simp: send_inner_def w encode_datagram_def send_to_def direct_with_def Let_def split: if_splits option.splits)
qed

lemma handle_incoming_in_order:
  assumes "counter_nonces (e_snow E) sn rn paired" and "ts_write (e_snow E) t pt n = (Inr ct, t')" and "paired t u"
    and "transport (s_noise sB) = Some u" and "\<not> via_relay sB" and "rn u = sn t"
  obtains u' where "rn u' = sn t'" and "paired t' u'"
    and "\<And>w. handle_incoming E (encode_outer Data 0 @ ct) sB w =
      ingest_reply E pt (sB\<lparr>s_noise := (s_noise sB)\<lparr>transport := Some u'\<rparr>\<rparr>) w"
proof -
  obtain u' where "ts_read (e_snow E) u ct (length ct) = (Inr pt, u')" "rn u' = Suc (rn u)" "paired t' u'"
    using counter_read [OF assms(1-3)] assms(6) by auto
  moreover have "sn t' = Suc (sn t)" using counter_write [OF assms(1,2,3)] by simp
  ultimately show thesis
    using assms(4-6) by (intro that) (auto simp: handle_incoming_def decode_incoming_def noise_open_def transport_call_def)
qed

lemma handle_incoming_out_of_order:
  assumes "counter_nonces (e_snow E) sn rn paired" and "ts_write (e_snow E) t pt n = (Inr ct, t')" and "paired t u"
    and "transport (s_noise sB) = Some u" and "\<not> via_relay sB" and "rn u \<noteq> sn t"
  shows "handle_incoming E (encode_outer Data 0 @ ct) sB w = (Inr (), sB, w)"
proof -
  obtain e where "ts_read (e_snow E) u ct (length ct) = (Inl e, u)"
    using counter_read [OF assms(1-3)] assms(6) by auto
  moreover have "(s_noise sB)\<lparr>transport := Some u\<rparr> = s_noise sB" using assms(4) by (cases "s_noise sB") simp
  ultimately show ?thesis
    using assms(4,5) by (auto simp: handle_incoming_def decode_incoming_def noise_open_def transport_call_def)
qed

text \<open>Once the sender's counter is ahead of the receiver's, nothing it seals is ever opened.\<close>

lemma seal_all_never_opens:
  assumes "counter_nonces (e_snow E) sn rn paired" and "direct_with s t" and "paired t u" and "rn u < sn t"
    and "transport (s_noise sB) = Some u" and "\<not> via_relay sB" and "seal_all E pts s w = (r, s', w')"
  shows "\<exists>out. sent w' = sent w @ out \<and> (\<forall>(raw, dest) \<in> set out. \<forall>v. handle_incoming E raw sB v = (Inr (), sB, v))"
  using assms(2-4,7)
proof (induction pts arbitrary: s w t)
  case (Cons pt pts)
  obtain x t1 where ts: "ts_write (e_snow E) t pt MAX_DATAGRAM = (x, t1)" by (cases "ts_write (e_snow E) t pt MAX_DATAGRAM")
  obtain y s1 w1 where d: "seal_data E pt s w = (y, s1, w1)" by (cases "seal_data E pt s w")
  note sd = seal_data_direct [OF Cons.prems(1) d ts] and cw = counter_write [OF assms(1) ts Cons.prems(2)]
  obtain o1 where o1: "sent w1 = sent w @ o1"
    "\<forall>(raw, dest) \<in> set o1. \<forall>v. handle_incoming E raw sB v = (Inr (), sB, v)"
    using sd handle_incoming_out_of_order [OF assms(1) _ Cons.prems(2) assms(5,6)] ts Cons.prems(3) by fastforce
  show ?case
  proof (cases y)
    case (Inl e)
    then show ?thesis using Cons.prems(4) d o1 by auto
  next
    case (Inr v)
    then have "seal_all E pts s1 w1 = (r, s', w')" using Cons.prems(4) d by simp
    from Cons.IH [of s1 t1 w1] sd cw Cons.prems(3) this obtain o2 where
      "sent w' = sent w1 @ o2" "\<forall>(raw, dest) \<in> set o2. \<forall>v. handle_incoming E raw sB v = (Inr (), sB, v)"
      by auto
    then show ?thesis using o1 by (intro exI [of _ "o1 @ o2"]) auto
  qed
qed simp

text \<open>
  C11: delivery depends on the order of arrival.  Two sessions in step: a frame that the
  first one seals and sends is opened and ingested by the second if its datagram arrives
  next.  But if that one datagram is lost or late, every datagram the first session seals
  afterwards, retransmissions of the lost frame included, is silently dropped by the
  second, whose state never changes again: the ARQ above cannot repair a loss.
\<close>
theorem one_loss_is_final:
  assumes "counter_nonces (e_snow E) sn rn paired" and "direct_with sA tA"
    and "transport (s_noise sB) = Some tB" and "\<not> via_relay sB" and "paired tA tB" and "rn tB = sn tA"
    and "seal_data E p sA wA = (Inr (), sA1, wA1)" and "seal_all E pts sA1 wA1 = (r, sA2, wA2)"
  shows "(\<exists>raw tB'. sent wA1 = sent wA @ [(raw, next_hop sA)] \<and>
      (\<forall>v. handle_incoming E raw sB v = ingest_reply E p (sB\<lparr>s_noise := (s_noise sB)\<lparr>transport := Some tB'\<rparr>\<rparr>) v)) \<and>
    (\<exists>out. sent wA2 = sent wA1 @ out \<and> (\<forall>(raw, dest) \<in> set out. \<forall>v. handle_incoming E raw sB v = (Inr (), sB, v)))"
proof -
  obtain x t1 where ts: "ts_write (e_snow E) tA p MAX_DATAGRAM = (x, t1)" by (cases "ts_write (e_snow E) tA p MAX_DATAGRAM")
  from seal_data_direct [OF assms(2,7) ts] obtain ct where x: "x = Inr ct" and d: "direct_with sA1 t1"
    and s: "sent wA1 = sent wA @ [(encode_outer Data 0 @ ct, next_hop sA)]" by auto
  note ts = ts [unfolded x]
  obtain tB' where "\<forall>v. handle_incoming E (encode_outer Data 0 @ ct) sB v =
      ingest_reply E p (sB\<lparr>s_noise := (s_noise sB)\<lparr>transport := Some tB'\<rparr>\<rparr>) v"
    using handle_incoming_in_order [OF assms(1) ts assms(5,3,4,6)] by metis
  moreover have "paired t1 tB" "rn tB < sn t1" using counter_write [OF assms(1) ts assms(5)] assms(6) by auto
  ultimately show ?thesis using s seal_all_never_opens [OF assms(1) d _ _ assms(3,4,8)] by blast
qed

theorem one_loss_is_final_witness:
  "handle_incoming model_env (encode_outer Data 0 @ model_nonce 1 @ [1]) (model_session (V4 (Ipv4Addr 10 0 0 1) 1)) quiet_world
    = (Inr (), model_session (V4 (Ipv4Addr 10 0 0 1) 1), quiet_world)"
proof -
  let ?b = "V4 (Ipv4Addr 10 0 0 2) 2" and ?sB = "model_session (V4 (Ipv4Addr 10 0 0 1) 1)"
  let ?t = "\<lambda>n. \<lparr>mt_sn = n, mt_rn = 0, mt_remote = []\<rparr>"
  let ?s = "\<lambda>n. (model_session ?b)\<lparr>s_noise := \<lparr>handshake = None, transport = Some (?t n)\<rparr>\<rparr>"
  let ?w = "\<lambda>n. quiet_world\<lparr>send_no := n, sent := map (\<lambda>k. (encode_outer Data 0 @ model_nonce k @ [1], ?b)) [0..<n]\<rparr>"
  have d: "seal_data model_env [1] (?s n) (?w n) = (Inr (), ?s (Suc n), ?w (Suc n))" if "n < 5" for n
    using that by (simp add: seal_data_def seal_and_send_def noise_seal_def transport_call_def model_defs send_inner_def
        wire_of_def encode_datagram_def send_to_def const_defs quiet_world_def Let_def)
  have d0: "seal_data model_env [1] (?s 0) (?w 0) = (Inr (), ?s 1, ?w 1)" using d [of 0] by simp
  have d1: "seal_all model_env [[1]] (?s 1) (?w 1) = (Inr (), ?s 2, ?w 2)" using d [of 1] by (simp add: numeral_2_eq_2)
  have c: "counter_nonces (e_snow model_env) mt_sn mt_rn (\<lambda>_ _. True)"
    using model_snow_counts by (simp add: model_env_def)
  have "direct_with (?s 0) (?t 0)" "transport (s_noise ?sB) = Some (?t 0)" "\<not> via_relay ?sB"
    by (simp_all add: direct_with_def model_session_def)
  from one_loss_is_final [OF c this _ _ d0 d1] obtain out where "sent (?w 2) = sent (?w 1) @ out"
    and all: "\<forall>(raw, dest) \<in> set out. \<forall>v. handle_incoming model_env raw ?sB v = (Inr (), ?sB, v)" by auto
  then have "out = [(encode_outer Data 0 @ model_nonce 1 @ [1], ?b)]" by (simp add: numeral_2_eq_2)
  with all show ?thesis by simp
qed

end
