(* ===== verification/Ppose_Session_Run.thy ===== *)
theory Ppose_Session_Run
  imports Ppose_Session
begin

text \<open>
  Data transfer over an established session.  Every operation of a session relates the
  state and world before it to those after it; \<open>action_contract\<close> and \<open>loop_contract\<close> state
  what such a relation needs so that the two waiting loops inherit it, and are interpreted
  twice: on \<open>evolves\<close> (the ARQ takes only its own steps, datagrams fit and go to the next
  hop) and on \<open>heard\<close> (frames leave the send queue only after the next hop has spoken).
  Both loops return if the clock reaches the deadline.
\<close>

section \<open>What every operation keeps\<close>

text \<open>
  The contract between the session's operations and its callers, as a relation between the
  states before and after: a preorder that sequences of operations inherit.
\<close>

locale action_contract =
  fixes rel :: "'s \<Rightarrow> 'w \<Rightarrow> 's \<Rightarrow> 'w \<Rightarrow> bool"
  assumes rel_refl: "rel s w s w"
    and rel_trans: "rel s w s1 w1 \<Longrightarrow> rel s1 w1 s2 w2 \<Longrightarrow> rel s w s2 w2"
begin

lemma rel_act_bind:
  assumes "act_bind r f = (b, s2, w2)" and "r = (a, s1, w1)" and "rel s w s1 w1"
    and "\<And>x b s2 w2. f x s1 w1 = (b, s2, w2) \<Longrightarrow> rel s1 w1 s2 w2"
  shows "rel s w s2 w2"
  using assms by (cases a) (auto intro: rel_trans)

end

definition evolves :: "('hs, 'ts, 'pk) udp_session \<Rightarrow> world \<Rightarrow> ('hs, 'ts, 'pk) udp_session \<Rightarrow> world \<Rightarrow> bool" where
  "evolves s w s' w' \<longleftrightarrow>
     arq_step\<^sup>*\<^sup>* (s_arq s) (s_arq s') \<and> next_hop s' = next_hop s \<and> via_relay s' = via_relay s \<and>
     s_onion s' = s_onion s \<and> (via_relay s \<or> s_peer s' = s_peer s) \<and> is_transport (s_noise s') = is_transport (s_noise s) \<and>
     same_streams w w' \<and> clock_no w \<le> clock_no w' \<and> recv_no w \<le> recv_no w' \<and>
     (\<exists>out. sent w' = sent w @ out \<and> (\<forall>(pkt, dest) \<in> set out. length pkt \<le> 1200 \<and> dest = next_hop s))"

interpretation evolution: action_contract evolves
proof unfold_locales
  show "evolves s w s w" for s :: "('a, 'b, 'c) udp_session" and w by (simp add: evolves_def)
next
  fix s s1 s2 :: "('a, 'b, 'c) udp_session" and w w1 w2
  assume 1: "evolves s w s1 w1" and 2: "evolves s1 w1 s2 w2"
  obtain o1 where o1: "sent w1 = sent w @ o1" "\<forall>(pkt, dest) \<in> set o1. length pkt \<le> 1200 \<and> dest = next_hop s"
    using 1 unfolding evolves_def by blast
  obtain o2 where "sent w2 = sent w1 @ o2" "\<forall>(pkt, dest) \<in> set o2. length pkt \<le> 1200 \<and> dest = next_hop s1"
    using 2 unfolding evolves_def by blast
  then have "\<exists>out. sent w2 = sent w @ out \<and> (\<forall>(pkt, dest) \<in> set out. length pkt \<le> 1200 \<and> dest = next_hop s)"
    using o1 1 by (intro exI [of _ "o1 @ o2"]) (auto simp: evolves_def)
  then show "evolves s w s2 w2"
    using 1 2 unfolding evolves_def by (auto intro: rtranclp_trans)
qed

lemma evolves_now: "evolves s w s (w\<lparr>clock_no := Suc (clock_no w)\<rparr>)"
  by (simp add: evolves_def)

lemma evolves_recv: "recv_raw w = (r, w1) \<Longrightarrow> evolves s w s w1"
  using recv_from_frame [of w r w1] by (auto simp: recv_raw_def evolves_def)

text \<open>Changes of the session that the contract does not see.\<close>

lemma evolves_local:
  "arq_step\<^sup>*\<^sup>* (s_arq s) (s_arq t) \<Longrightarrow> next_hop t = next_hop s \<Longrightarrow> via_relay t = via_relay s \<Longrightarrow> s_onion t = s_onion s \<Longrightarrow>
     via_relay s \<or> s_peer t = s_peer s \<Longrightarrow> is_transport (s_noise t) = is_transport (s_noise s) \<Longrightarrow> evolves s w t w"
  by (simp add: evolves_def)

lemma wire_of_length: "wire_of E s k ty body = Inr wire' \<Longrightarrow> length wire' \<le> 1200"
proof -
  assume "wire_of E s k ty body = Inr wire'"
  then obtain dg where dg: "encode_datagram ty body = Inr dg"
    and w: "(case s_onion s of
         Some hops \<Rightarrow> wrap_route (e_prims E) (e_onion_rng E k) hops (s_peer s) dg
       | None \<Rightarrow> if via_relay s then res_bind (encode_forward_body (s_peer s) dg) (\<lambda>fb. encode_datagram Forward fb)
                  else Inr dg) = Inr wire'"
    by (auto simp: wire_of_def res_bind_Inr_iff)
  have "length dg \<le> 1200" using length_encode_datagram [OF dg] by (simp add: const_defs)
  then show ?thesis
    using w wrap_loop_length [where payload = dg and wire' = wire']
    by (auto simp: wrap_route_def res_bind_Inr_iff const_defs dest!: length_encode_datagram
        split: option.splits if_splits)
qed

lemma send_inner_evolves:
  assumes "send_inner E ty body s w = (r, s', w')"
  shows "s' = s \<and> evolves s w s' w'"
proof (cases "wire_of E s (send_no w) ty body")
  case (Inl e)
  then show ?thesis using assms evolution.rel_refl by (simp add: send_inner_def)
next
  case (Inr wire')
  obtain x w1 where st: "send_to wire' (next_hop s) w = (x, w1)" by (cases "send_to wire' (next_hop s) w")
  have "s' = s" "w' = w1" using assms Inr st by (simp_all add: send_inner_def)
  moreover have "sent w1 = sent w \<or> sent w1 = sent w @ [(wire', next_hop s)]"
    using sent_send_to [of wire' "next_hop s" w] st by (auto split: if_splits)
  ultimately show ?thesis
    using send_to_frame [OF st] wire_of_length [OF Inr] by (auto simp: evolves_def)
qed

lemma seal_and_send_evolves:
  assumes "seal_and_send E inner s w = (r, s', w')"
  shows "evolves s w s' w' \<and> s_arq s' = s_arq s \<and> s_peer s' = s_peer s"
proof -
  obtain x n where n: "noise_seal (e_snow E) inner MAX_DATAGRAM (s_noise s) = (x, n)"
    by (cases "noise_seal (e_snow E) inner MAX_DATAGRAM (s_noise s)")
  have t: "is_transport n = is_transport (s_noise s)"
    using transport_call_handshake n unfolding noise_seal_def by blast
  have l: "evolves s w (s\<lparr>s_noise := n\<rparr>) w" by (rule evolves_local) (simp_all add: t)
  show ?thesis
  proof (cases x)
    case (Inl e)
    then show ?thesis using assms n l by (auto simp: seal_and_send_def)
  next
    case (Inr ct)
    then have "send_inner E Data ct (s\<lparr>s_noise := n\<rparr>) w = (r, s', w')" using assms n by (simp add: seal_and_send_def)
    from send_inner_evolves [OF this] l show ?thesis using evolution.rel_trans by fastforce
  qed
qed

lemma seal_data_evolves: "seal_data E inner s w = (r, s', w') \<Longrightarrow> evolves s w s' w' \<and> s_arq s' = s_arq s"
  using seal_and_send_evolves [of E inner s w r s' w'] evolves_local [of s "s\<lparr>drop_data := drop_data s - 1\<rparr>" w]
  by (auto simp: seal_data_def split: if_splits)

lemma seal_all_evolves: "seal_all E pts s w = (r, s', w') \<Longrightarrow> evolves s w s' w' \<and> s_arq s' = s_arq s"
proof (induction E pts s w arbitrary: r s' w' rule: seal_all.induct)
  case (2 E pt pts s w)
  obtain x s1 w1 where d: "seal_data E pt s w = (x, s1, w1)" by (cases "seal_data E pt s w")
  note d' = seal_data_evolves [OF d]
  show ?case
  proof (cases x)
    case (Inr u)
    then have "seal_all E pts s1 w1 = (r, s', w')" using "2.prems" d by simp
    from "2.IH" [OF this] d' show ?thesis using evolution.rel_trans by fastforce
  qed (use "2.prems" d d' in simp)
qed (simp add: evolution.rel_refl)

lemma flush_evolves:
  assumes "flush E s w = Some (r, s', w')"
  shows "evolves s w s' w' \<and> Suc (clock_no w) \<le> clock_no w'"
proof -
  let ?w1 = "w\<lparr>clock_no := Suc (clock_no w)\<rparr>" and ?now = "clock_at w (clock_no w)"
  obtain news a1 where n: "take_new_sends (s_arq s) ?now = Some (news, a1)"
    using assms by (auto simp: flush_def instant_now_def split: option.splits)
  obtain x s2 w2 where sa: "seal_all E news (s\<lparr>s_arq := a1\<rparr>) ?w1 = (x, s2, w2)"
    by (cases "seal_all E news (s\<lparr>s_arq := a1\<rparr>) ?w1")
  have l: "evolves s ?w1 (s\<lparr>s_arq := a1\<rparr>) ?w1"
    using step_new_sends [OF n] by (intro evolves_local) auto
  have e2: "evolves s ?w1 s2 w2" "s_arq s2 = a1"
    using seal_all_evolves [OF sa] evolution.rel_trans [OF l] by auto
  have "evolves s ?w1 s' w'"
  proof (cases x)
    case (Inl e)
    then show ?thesis using assms n sa e2 by (simp add: flush_def instant_now_def)
  next
    case (Inr u)
    obtain y a2 where r: "take_retransmits (s_arq s2) ?now = Some (y, a2)"
      using assms n sa Inr by (auto simp: flush_def instant_now_def split: option.splits)
    have l2: "evolves s2 w2 (s2\<lparr>s_arq := a2\<rparr>) w2"
      using step_retransmits [OF r] by (intro evolves_local) auto
    show ?thesis
    proof (cases y)
      case (Inl g)
      then have "s' = s2\<lparr>s_arq := a2\<rparr>" "w' = w2" using assms n sa Inr r by (simp_all add: flush_def instant_now_def)
      then show ?thesis using evolution.rel_trans [OF e2(1) l2] by simp
    next
      case (Inr retrx)
      then have "seal_all E retrx (s2\<lparr>s_arq := a2\<rparr>) w2 = (r, s', w')"
        using assms n sa \<open>x = Inr u\<close> \<open>take_retransmits (s_arq s2) ?now = Some (y, a2)\<close> by (simp add: flush_def instant_now_def)
      from seal_all_evolves [OF this] show ?thesis
        using evolution.rel_trans [OF evolution.rel_trans [OF e2(1) l2]] by blast
    qed
  qed
  moreover have "evolves s w s ?w1" by (rule evolves_now)
  ultimately show ?thesis
    using evolution.rel_trans by (fastforce simp: evolves_def)
qed

lemma maybe_cover_evolves:
  assumes "maybe_cover E s w = (r, s', w')"
  shows "evolves s w s' w' \<and> s_arq s' = s_arq s"
proof (cases "interval (s_cover s)")
  case None
  then show ?thesis using assms evolution.rel_refl by (auto simp: maybe_cover_def)
next
  case (Some d)
  let ?now = "clock_at w (clock_no w)" and ?w1 = "w\<lparr>clock_no := Suc (clock_no w)\<rparr>"
  note e1 = evolves_now [of s w]
  show ?thesis
  proof (cases "?now - last_cover s < d")
    case True
    then show ?thesis using assms Some e1 by (auto simp: maybe_cover_def instant_now_def)
  next
    case False
    let ?s1 = "s\<lparr>last_cover := ?now\<rparr>"
    have l: "evolves s ?w1 ?s1 ?w1" by (rule evolves_local) simp_all
    obtain body where "send_inner E Data body ?s1 ?w1 = (r, s', w')"
      using assms Some False by (auto simp: maybe_cover_def instant_now_def Let_def)
    from send_inner_evolves [OF this] show ?thesis
      using evolution.rel_trans [OF evolution.rel_trans [OF e1 l]] by auto
  qed
qed

lemma ingest_reply_evolves:
  assumes "ingest_reply E out s w = (r, s', w')"
  shows "evolves s w s' w'"
proof -
  obtain y a where a: "ingest (s_arq s) out = (y, a)" by (cases "ingest (s_arq s) out")
  have l: "evolves s w (s\<lparr>s_arq := a\<rparr>) w" by (rule evolves_local) (auto intro: step_ingest [OF a])
  consider "s' = s\<lparr>s_arq := a\<rparr>" "w' = w" | ack where "seal_and_send E ack (s\<lparr>s_arq := a\<rparr>) w = (r, s', w')"
    using assms by (auto simp: ingest_reply_def a split: sum.splits option.splits)
  then show ?thesis using l seal_and_send_evolves evolution.rel_trans [OF l] by cases blast+
qed

lemma handle_incoming_evolves:
  assumes "handle_incoming E raw s w = (r, s', w')"
  shows "evolves s w s' w'"
proof (cases "decode_incoming (via_relay s) raw")
  case (Inl e)
  then show ?thesis using assms evolution.rel_refl by (auto simp: handle_incoming_def)
next
  case (Inr res)
  obtain ty body other where res: "res = (ty, body, other)" by (cases res)
  define s1 where "s1 = (case other of Some o' \<Rightarrow> s\<lparr>s_peer := o'\<rparr> | None \<Rightarrow> s)"
  have "via_relay s \<or> other = None" using Inr by (cases "via_relay s") (auto simp: res decode_incoming_def res_bind_Inr_iff)
  then have l1: "evolves s w s1 w" by (intro evolves_local) (auto simp: s1_def split: option.splits)
  obtain x n where n: "noise_open (e_snow E) body (length body) (s_noise s1) = (x, n)"
    by (cases "noise_open (e_snow E) body (length body) (s_noise s1)")
  have t: "is_transport n = is_transport (s_noise s1)"
    using transport_call_handshake n unfolding noise_open_def by blast
  have l2: "evolves s w (s1\<lparr>s_noise := n\<rparr>) w"
    by (rule evolution.rel_trans [OF l1 evolves_local]) (simp_all add: t)
  consider "s' = s1" "w' = w" | "s' = s1\<lparr>s_noise := n\<rparr>" "w' = w"
    | out where "ingest_reply E out (s1\<lparr>s_noise := n\<rparr>) w = (r, s', w')"
    using assms by (cases x) (auto simp: handle_incoming_def Inr res Let_def s1_def [symmetric] n split: if_splits)
  then show ?thesis
    using l1 l2 ingest_reply_evolves evolution.rel_trans [OF l2] by cases blast+
qed

lemma pump_evolves:
  assumes "pump E d s w = (r, s', w')"
  shows "evolves s w s' w'"
proof -
  obtain x w1 where rr: "recv_raw w = (x, w1)" by (cases "recv_raw w")
  consider "s' = s" "w' = w \<or> w' = w1" | raw where "handle_incoming E raw s w1 = (r, s', w')"
    using assms by (cases x) (auto simp: pump_def rr split: sum.splits if_splits)
  then show ?thesis
    using evolves_recv [OF rr, of s] evolution.rel_refl [of s w]
      handle_incoming_evolves evolution.rel_trans [OF evolves_recv [OF rr, of s]] by cases blast+
qed

section \<open>The waiting loops\<close>

lemma arq_reachable_evolves: "arq_reachable (s_arq s) \<Longrightarrow> evolves s w s' w' \<Longrightarrow> arq_reachable (s_arq s')"
  by (auto simp: evolves_def intro: reach_steps)

lemma flush_defined:
  assumes "arq_reachable (s_arq s)"
  shows "\<exists>r s' w'. flush E s w = Some (r, s', w')"
proof -
  let ?w1 = "w\<lparr>clock_no := Suc (clock_no w)\<rparr>" and ?now = "clock_at w (clock_no w)"
  obtain news a1 where n: "take_new_sends (s_arq s) ?now = Some (news, a1)"
    using take_new_sends_eq [of "s_arq s" ?now] reachable_arq_inv [OF assms] by (auto simp: arq_inv_def)
  obtain x s2 w2 where sa: "seal_all E news (s\<lparr>s_arq := a1\<rparr>) ?w1 = (x, s2, w2)"
    by (cases "seal_all E news (s\<lparr>s_arq := a1\<rparr>) ?w1")
  have "arq_reachable (s_arq s2)"
    using seal_all_evolves [OF sa] arq_reach_step [OF assms step_new_sends [OF n]] by simp
  from take_retransmits_defined [OF this, of ?now] obtain y a2
    where "take_retransmits (s_arq s2) ?now = Some (y, a2)" by blast
  then show ?thesis using n sa
    by (cases x; cases y) (auto simp: flush_def instant_now_def intro: prod_cases3)
qed

text \<open>What both loops do before they read the clock: flush and cover.\<close>

definition before_wait ::
  "('np, 'hs, 'ts, 'sk, 'pk) env \<Rightarrow> ('hs, 'ts, 'pk) udp_session \<Rightarrow> world
     \<Rightarrow> ((session_error + unit) \<times> ('hs, 'ts, 'pk) udp_session \<times> world) option" where
  "before_wait E s w = map_option (\<lambda>x. act_bind x (\<lambda>_. maybe_cover E)) (flush E s w)"

lemma before_wait_evolves:
  assumes "before_wait E s w = Some (r, s', w')"
  shows "evolves s w s' w' \<and> clock_no w < clock_no w'"
proof -
  obtain x s1 w1 where f: "flush E s w = Some (x, s1, w1)"
    and b: "act_bind (x, s1, w1) (\<lambda>_. maybe_cover E) = (r, s', w')"
    using assms by (cases "flush E s w") (auto simp: before_wait_def intro: prod_cases3)
  have "evolves s1 w1 s' w'"
    using b maybe_cover_evolves [of E s1 w1 r s' w'] evolution.rel_refl by (cases x) auto
  then show ?thesis
    using flush_evolves [OF f] evolution.rel_trans by (fastforce simp: evolves_def)
qed

lemma before_wait_defined:
  assumes "arq_reachable (s_arq s)"
  obtains r s' w' where "before_wait E s w = Some (r, s', w')"
  using flush_defined [OF assms, of E w] that
  by (cases "the (before_wait E s w)") (auto simp: before_wait_def)

text \<open>One turn of the loops, over \<open>before_wait\<close>.\<close>

lemma wait_loop_unfold:
  "wait_loop E deadline s w =
     (case before_wait E s w of
        None \<Rightarrow> None
      | Some (Inl e, s2, w2) \<Rightarrow> Some (Inl e, s2, w2)
      | Some (Inr _, s2, w2) \<Rightarrow>
          if unacked_len (s_arq s2) = 0 then Some (Inr (), s2, w2)
          else let now = clock_at w2 (clock_no w2); w3 = w2\<lparr>clock_no := Suc (clock_no w2)\<rparr>
            in if now \<ge> deadline then Some (Inl STimeout, s2, w3)
               else (case pump E (min (deadline - now) (from_millis 50)) s2 w3 of
                       (Inl e, s4, w4) \<Rightarrow> Some (Inl e, s4, w4)
                     | (Inr _, s4, w4) \<Rightarrow> wait_loop E deadline s4 w4))"
proof (cases "flush E s w")
  case (Some x)
  obtain r s1 w1 where x: "x = (r, s1, w1)" by (cases x)
  then show ?thesis
    using Some by (cases r; cases "maybe_cover E s1 w1"; cases "fst (maybe_cover E s1 w1)")
      (simp_all add: wait_loop.simps [of E deadline s w] before_wait_def instant_now_def)
qed (simp add: wait_loop.simps [of E deadline s w] before_wait_def)

lemma recv_loop_unfold:
  "recv_loop E deadline s w =
     (case pop_delivered (s_arq s) of
        (Some m, a) \<Rightarrow> Some (Inr m, s\<lparr>s_arq := a\<rparr>, w)
      | (None, a) \<Rightarrow>
        (case before_wait E (s\<lparr>s_arq := a\<rparr>) w of
           None \<Rightarrow> None
         | Some (Inl e, s2, w2) \<Rightarrow> Some (Inl e, s2, w2)
         | Some (Inr _, s2, w2) \<Rightarrow>
             let now = clock_at w2 (clock_no w2); w3 = w2\<lparr>clock_no := Suc (clock_no w2)\<rparr>
             in if now \<ge> deadline then Some (Inl STimeout, s2, w3)
                else (case pump E (deadline - now) s2 w3 of
                        (Inl e, s4, w4) \<Rightarrow> Some (Inl e, s4, w4)
                      | (Inr _, s4, w4) \<Rightarrow> recv_loop E deadline s4 w4)))"
proof (cases "pop_delivered (s_arq s)")
  case (Pair m a)
  show ?thesis
  proof (cases "flush E (s\<lparr>s_arq := a\<rparr>) w")
    case (Some x)
    obtain r s1 w1 where x: "x = (r, s1, w1)" by (cases x)
    then show ?thesis
      using Some Pair by (cases m; cases r; cases "maybe_cover E s1 w1"; cases "fst (maybe_cover E s1 w1)")
        (simp_all add: recv_loop.simps [of E deadline s w] before_wait_def instant_now_def)
  qed (use Pair in \<open>cases m; simp add: recv_loop.simps [of E deadline s w] before_wait_def\<close>)
qed

section \<open>Interface: what the loops inherit\<close>

lemma pop_delivered_None: "pop_delivered a = (None, a') \<Longrightarrow> a' = a"
  by (auto simp: pop_delivered_def split: list.splits)

locale loop_contract = action_contract rel
  for rel :: "('hs, 'ts, 'pk) udp_session \<Rightarrow> world \<Rightarrow> ('hs, 'ts, 'pk) udp_session \<Rightarrow> world \<Rightarrow> bool" +
  fixes E :: "('np, 'hs, 'ts, 'sk, 'pk) env"
  assumes rel_now: "rel s w s (w\<lparr>clock_no := Suc (clock_no w)\<rparr>)"
    and rel_flush: "flush E s w = Some (r, s', w') \<Longrightarrow> rel s w s' w'"
    and rel_cover: "maybe_cover E s w = (r, s', w') \<Longrightarrow> rel s w s' w'"
    and rel_pump: "pump E d s w = (r, s', w') \<Longrightarrow> rel s w s' w'"
begin

text \<open>The outcomes of one turn: it ends the loop, or goes on after a datagram was handled.\<close>

lemma rel_turn:
  assumes "flush E s w = Some (u, s1, w1)" and "maybe_cover E s1 w1 = (v, s2, w2)"
    and "pump E d s2 (w2\<lparr>clock_no := Suc (clock_no w2)\<rparr>) = (y, s4, w4)"
  shows "rel s w s1 w1" "rel s w s2 w2" "rel s w s2 (w2\<lparr>clock_no := Suc (clock_no w2)\<rparr>)" "rel s w s4 w4"
  using rel_flush [OF assms(1)] rel_cover [OF assms(2)] rel_now rel_pump [OF assms(3)] rel_trans by meson+

lemma wait_loop_rel:
  "wait_loop E0 deadline s w = Some (r, s', w') \<Longrightarrow> E0 = E \<Longrightarrow>
     rel s w s' w' \<and> (r = Inr () \<longrightarrow> unacked (s_arq s') = [])"
proof (induction E0 deadline s w "(r, s', w')" arbitrary: r s' w' rule: wait_loop.raw_induct [rotated, consumes 1])
  case (1 f E0 d s w r s' w')
  obtain u s1 w1 where f: "flush E s w = Some (u, s1, w1)"
    using 1(2,3) by (auto split: option.splits)
  obtain v s2 w2 where c: "maybe_cover E s1 w1 = (v, s2, w2)" by (cases "maybe_cover E s1 w1")
  let ?w3 = "w2\<lparr>clock_no := Suc (clock_no w2)\<rparr>" and ?d = "min (d - clock_at w2 (clock_no w2)) (from_millis 50)"
  obtain y s4 w4 where p: "pump E ?d s2 ?w3 = (y, s4, w4)" by (cases "pump E ?d s2 ?w3")
  have "isl r \<and> (s', w') \<in> {(s1, w1), (s2, w2), (s2, ?w3), (s4, w4)} \<or>
      unacked (s_arq s2) = [] \<and> s' = s2 \<and> w' = w2 \<or> f E d s4 w4 = Some (r, s', w')"
    using 1(2) unfolding 1(3)
    by (cases u; cases v; cases y) (auto simp: f c p instant_now_def unacked_len_def split: if_splits)
  then consider (fin) "isl r" "(s', w') \<in> {(s1, w1), (s2, w2), (s2, ?w3), (s4, w4)}"
    | (acked) "unacked (s_arq s2) = []" "s' = s2" "w' = w2" | (more) "f E d s4 w4 = Some (r, s', w')"
    by blast
  then show ?case
  proof cases
    case more
    from 1(1) [OF this refl] rel_trans [OF rel_turn(4) [OF f c p]] show ?thesis by blast
  qed (use rel_turn [OF f c p] in auto)
qed

text \<open>A call of \<open>recv\<close> that returns a message ends with taking it out of the ARQ.\<close>

lemma recv_loop_rel:
  "recv_loop E0 deadline s w = Some (r, s', w') \<Longrightarrow> E0 = E \<Longrightarrow>
     (case r of Inl e \<Rightarrow> rel s w s' w'
      | Inr m \<Rightarrow> \<exists>t a. rel s w t w' \<and> pop_delivered (s_arq t) = (Some m, a) \<and> s' = t\<lparr>s_arq := a\<rparr>)"
proof (induction E0 deadline s w "(r, s', w')" arbitrary: r s' w' rule: recv_loop.raw_induct [rotated, consumes 1])
  case (1 f E0 d s w r s' w')
  obtain m a where pd: "pop_delivered (s_arq s) = (m, a)" by (cases "pop_delivered (s_arq s)")
  show ?case
  proof (cases m)
    case None
    have pd: "pop_delivered (s_arq s) = (None, s_arq s)" using pd None pop_delivered_None by metis
    obtain u s1 w1 where f: "flush E s w = Some (u, s1, w1)"
      using 1(2,3) pd by (auto split: option.splits)
    obtain v s2 w2 where c: "maybe_cover E s1 w1 = (v, s2, w2)" by (cases "maybe_cover E s1 w1")
    let ?w3 = "w2\<lparr>clock_no := Suc (clock_no w2)\<rparr>" and ?d = "d - clock_at w2 (clock_no w2)"
    obtain y s4 w4 where p: "pump E ?d s2 ?w3 = (y, s4, w4)" by (cases "pump E ?d s2 ?w3")
    consider (fin) "isl r" "(s', w') \<in> {(s1, w1), (s2, w2), (s2, ?w3), (s4, w4)}" | (more) "f E d s4 w4 = Some (r, s', w')"
      using 1(2) unfolding 1(3) pd
      by (cases u; cases v; cases y) (auto simp: f c p instant_now_def split: if_splits)
    then show ?thesis
    proof cases
      case fin
      then show ?thesis using rel_turn [OF f c p] by (cases r) auto
    next
      case more
      from 1(1) [OF this refl] rel_trans [OF rel_turn(4) [OF f c p]]
      show ?thesis by (auto split: sum.splits)
    qed
  next
    case (Some m')
    then have "r = Inr m'" "s' = s\<lparr>s_arq := a\<rparr>" "w' = w" using 1(2) pd by simp_all
    then show ?thesis using Some pd rel_refl [of s w] by auto
  qed
qed

end

lemma evolves_pop: "pop_delivered (s_arq s) = (m, a) \<Longrightarrow> evolves s w (s\<lparr>s_arq := a\<rparr>) w"
  by (rule evolves_local) (auto intro: step_pop)

interpretation evolution: loop_contract evolves E for E
  using evolves_now flush_evolves maybe_cover_evolves pump_evolves
  by unfold_locales blast+

lemma recv_loop_evolves: "recv_loop E deadline s w = Some (r, s', w') \<Longrightarrow> evolves s w s' w'"
  using evolution.recv_loop_rel [of E deadline s w r s' w'] evolves_pop evolution.rel_trans
  by (cases r) (auto; blast)+

text \<open>One turn of a loop brings the session and the world to the next in the contract.\<close>

lemma turn_evolves:
  assumes "before_wait E s w = Some (Inr u, s2, w2)"
    and "pump E d s2 (w2\<lparr>clock_no := Suc (clock_no w2)\<rparr>) = (r, s4, w4)"
  shows "evolves s w s4 w4 \<and> clock_no w < clock_no w4"
proof -
  note e2 = before_wait_evolves [OF assms(1)] and e4 = pump_evolves [OF assms(2)]
  have "evolves s w s4 w4"
    using e2 e4 evolves_now [of s2 w2] evolution.rel_trans by blast
  then show ?thesis using e2 e4 by (auto simp: evolves_def)
qed

text \<open>A clock that has not reached the deadline has readings left before \<open>N\<close>.\<close>

lemma clock_before:
  assumes "\<forall>k \<ge> N. deadline \<le> clock_at w k" and "evolves s w s2 w2" and "\<not> deadline \<le> clock_at w2 (clock_no w2)"
  shows "clock_no w < N"
proof (rule ccontr)
  assume "\<not> clock_no w < N"
  moreover have "clock_no w \<le> clock_no w2" "clock_at w2 = clock_at w" using assms(2) by (simp_all add: evolves_def)
  ultimately show False using assms(1,3) by (metis le_trans linorder_not_less)
qed

lemma turn_progress:
  assumes "\<forall>k \<ge> N. deadline \<le> clock_at w k" and "before_wait E s w = Some (Inr u, s2, w2)"
    and "pump E d s2 (w2\<lparr>clock_no := Suc (clock_no w2)\<rparr>) = (r, s4, w4)" and "\<not> deadline \<le> clock_at w2 (clock_no w2)"
  shows "N - clock_no w4 < N - clock_no w"
  using clock_before [OF assms(1) _ assms(4)] before_wait_evolves [OF assms(2)] turn_evolves [OF assms(2,3)]
  by (auto intro: diff_less_mono2)

lemma wait_loop_returns:
  assumes "arq_reachable (s_arq s)" and "\<forall>k \<ge> N. deadline \<le> clock_at w k"
  shows "\<exists>r s' w'. wait_loop E deadline s w = Some (r, s', w')"
  using assms
proof (induction "N - clock_no w" arbitrary: s w rule: less_induct)
  case less
  obtain x s2 w2 where b: "before_wait E s w = Some (x, s2, w2)"
    using before_wait_defined [OF less.prems(1)] by blast
  let ?now = "clock_at w2 (clock_no w2)" and ?w3 = "w2\<lparr>clock_no := Suc (clock_no w2)\<rparr>"
  let ?d = "min (deadline - ?now) (from_millis 50)"
  obtain y s4 w4 where p: "pump E ?d s2 ?w3 = (y, s4, w4)" by (cases "pump E ?d s2 ?w3")
  note unf = wait_loop_unfold [of E deadline s w] b p Let_def
  show ?case
  proof (cases "isl x \<or> unacked_len (s_arq s2) = 0 \<or> deadline \<le> ?now \<or> isl y")
    case True
    then show ?thesis by (cases x; cases y) (auto simp: unf)
  next
    case False
    then obtain u v where x: "x = Inr u" and y: "y = Inr v" and now: "\<not> deadline \<le> ?now" by (cases x; cases y) auto
    have e4: "evolves s w s4 w4" using turn_evolves [OF b [unfolded x] p] by blast
    then have "\<forall>k \<ge> N. deadline \<le> clock_at w4 k" using less.prems(2) by (simp add: evolves_def)
    from less.hyps [OF turn_progress [OF less.prems(2) b [unfolded x] p now]
        arq_reachable_evolves [OF less.prems(1) e4] this]
    show ?thesis using False x y by (simp add: unf)
  qed
qed

lemma recv_loop_returns:
  assumes "arq_reachable (s_arq s)" and "\<forall>k \<ge> N. deadline \<le> clock_at w k"
  shows "\<exists>r s' w'. recv_loop E deadline s w = Some (r, s', w')"
  using assms
proof (induction "N - clock_no w" arbitrary: s w rule: less_induct)
  case less
  obtain z a where pd: "pop_delivered (s_arq s) = (z, a)" by (cases "pop_delivered (s_arq s)")
  let ?s1 = "s\<lparr>s_arq := a\<rparr>"
  note e1 = evolves_pop [OF pd, of w]
  obtain x s2 w2 where b: "before_wait E ?s1 w = Some (x, s2, w2)"
    using before_wait_defined [OF arq_reachable_evolves [OF less.prems(1) e1]] by blast
  let ?now = "clock_at w2 (clock_no w2)" and ?w3 = "w2\<lparr>clock_no := Suc (clock_no w2)\<rparr>"
  obtain y s4 w4 where p: "pump E (deadline - ?now) s2 ?w3 = (y, s4, w4)" by (cases "pump E (deadline - ?now) s2 ?w3")
  note unf = recv_loop_unfold [of E deadline s w] pd b p Let_def
  show ?case
  proof (cases "z \<noteq> None \<or> isl x \<or> deadline \<le> ?now \<or> isl y")
    case True
    then show ?thesis by (cases z; cases x; cases y) (auto simp: unf)
  next
    case False
    then obtain u v where x: "x = Inr u" and y: "y = Inr v" and now: "\<not> deadline \<le> ?now" by (cases x; cases y) auto
    have e4: "evolves s w s4 w4" using turn_evolves [OF b [unfolded x] p] evolution.rel_trans [OF e1] by blast
    then have "\<forall>k \<ge> N. deadline \<le> clock_at w4 k" using less.prems(2) by (simp add: evolves_def)
    from less.hyps [OF turn_progress [OF less.prems(2) b [unfolded x] p now]
        arq_reachable_evolves [OF less.prems(1) e4] this]
    show ?thesis using False x y by (simp add: unf)
  qed
qed

section \<open>What the next hop has to say before frames disappear\<close>

definition hop_data :: "bool \<Rightarrow> socket_addr \<Rightarrow> io_error + (bytes \<times> socket_addr) \<Rightarrow> bool" where
  "hop_data via hop r =
     (case r of
        Inl e \<Rightarrow> False
      | Inr (raw, from) \<Rightarrow>
          from = hop \<and> (case decode_incoming via (take MAX_DATAGRAM raw) of Inr (Data, body, other) \<Rightarrow> True | _ \<Rightarrow> False))"

definition hop_spoke :: "('hs, 'ts, 'pk) udp_session \<Rightarrow> world \<Rightarrow> nat \<Rightarrow> bool" where
  "hop_spoke s w n \<longleftrightarrow> (\<exists>i \<in> {recv_no w..<n}. hop_data (via_relay s) (next_hop s) (recv_at w i))"

definition heard :: "('hs, 'ts, 'pk) udp_session \<Rightarrow> world \<Rightarrow> ('hs, 'ts, 'pk) udp_session \<Rightarrow> world \<Rightarrow> bool" where
  "heard s w s' w' \<longleftrightarrow>
     evolves s w s' w' \<and>
     (arq_reachable (s_arq s) \<longrightarrow>
       hop_spoke s w (recv_no w') \<or> bt_keys (unacked (s_arq s')) = bt_keys (unacked (s_arq s)))"

lemma heard_trans: "heard s w s1 w1 \<Longrightarrow> heard s1 w1 s2 w2 \<Longrightarrow> heard s w s2 w2"
proof -
  assume 1: "heard s w s1 w1" and 2: "heard s1 w1 s2 w2"
  have e: "evolves s w s1 w1" "evolves s1 w1 s2 w2" using 1 2 by (simp_all add: heard_def)
  have "hop_spoke s1 w1 (recv_no w2) \<or> hop_spoke s w (recv_no w1) \<Longrightarrow> hop_spoke s w (recv_no w2)"
    using e by (fastforce simp: hop_spoke_def evolves_def)
  then have "hop_spoke s w (recv_no w2) \<or> bt_keys (unacked (s_arq s2)) = bt_keys (unacked (s_arq s))"
    if "arq_reachable (s_arq s)"
    using 1 2 that arq_reachable_evolves [OF that e(1)] unfolding heard_def by argo
  then show ?thesis using evolution.rel_trans [OF e] by (simp add: heard_def)
qed

lemma heard_quiet:
  assumes "evolves s w s' w'" and "arq_reachable (s_arq s) \<Longrightarrow> bt_keys (unacked (s_arq s')) = bt_keys (unacked (s_arq s))"
  shows "heard s w s' w'"
  using assms by (simp add: heard_def)

lemma flush_keys:
  assumes "flush E s w = Some (r, s', w')" and "arq_reachable (s_arq s)"
  shows "bt_keys (unacked (s_arq s')) = bt_keys (unacked (s_arq s))"
proof -
  let ?w1 = "w\<lparr>clock_no := Suc (clock_no w)\<rparr>" and ?now = "clock_at w (clock_no w)"
  obtain news a1 where n: "take_new_sends (s_arq s) ?now = Some (news, a1)"
    using assms by (auto simp: flush_def instant_now_def split: option.splits)
  have wf: "bt_wf (unacked (s_arq s))" "in_flight (unacked (s_arq s)) < 2 ^ 32"
    using reachable_arq_inv [OF assms(2)] by (simp_all add: arq_inv_def)
  then have k1: "bt_keys (unacked a1) = bt_keys (unacked (s_arq s))"
    using n take_new_sends_eq by auto
  obtain x s2 w2 where sa: "seal_all E news (s\<lparr>s_arq := a1\<rparr>) ?w1 = (x, s2, w2)"
    by (cases "seal_all E news (s\<lparr>s_arq := a1\<rparr>) ?w1")
  have a2: "s_arq s2 = a1" using seal_all_evolves [OF sa] by simp
  show ?thesis
  proof (cases x)
    case (Inl e)
    then show ?thesis using assms n sa a2 k1 by (auto simp: flush_def instant_now_def)
  next
    case (Inr u)
    obtain y a3 where r: "take_retransmits a1 ?now = Some (y, a3)"
      using assms n sa Inr a2 by (auto simp: flush_def instant_now_def split: option.splits)
    have "s_arq s' = a3"
      using assms n sa Inr r a2 seal_all_evolves [of E _ "s2\<lparr>s_arq := a3\<rparr>" w2 r s' w']
      by (cases y) (auto simp: flush_def instant_now_def)
    then show ?thesis
      using take_retransmits_keys [OF _ r] k1 wf(1) bt_wf_keys_cong [OF k1] by simp
  qed
qed

lemma handle_incoming_other:
  assumes "handle_incoming E raw s w = (r, s', w')"
    and "\<And>res. decode_incoming (via_relay s) raw = Inr res \<Longrightarrow> fst res \<noteq> Data"
  shows "s_arq s' = s_arq s"
  using assms by (auto simp: handle_incoming_def Let_def split: sum.splits option.splits if_splits)

lemma pump_heard:
  assumes "pump E d s w = (r, s', w')"
  shows "heard s w s' w'"
proof -
  have w1: "recv_raw w = (map_sum id (\<lambda>(d, from). (take MAX_DATAGRAM d, from)) (recv_at w (recv_no w)),
      w\<lparr>recv_no := Suc (recv_no w)\<rparr>)"
    by (simp add: recv_raw_def recv_from_def)
  show ?thesis
  proof (cases "hop_data (via_relay s) (next_hop s) (recv_at w (recv_no w)) \<and> recv_no w < recv_no w'")
    case True
    then show ?thesis using pump_evolves [OF assms] by (auto simp: heard_def hop_spoke_def)
  next
    case False
    consider "s' = s" | raw where "recv_at w (recv_no w) = Inr (raw, next_hop s)"
        "handle_incoming E (take MAX_DATAGRAM raw) s (w\<lparr>recv_no := Suc (recv_no w)\<rparr>) = (r, s', w')"
      using assms by (cases "recv_at w (recv_no w)") (auto simp: pump_def w1 split: sum.splits if_splits)
    then have "s_arq s' = s_arq s"
    proof cases
      case 2
      have "recv_no w < recv_no w'" using handle_incoming_evolves [OF 2(2)] by (simp add: evolves_def)
      then show ?thesis
        using False 2 by (intro handle_incoming_other [OF 2(2)]) (auto simp: hop_data_def)
    qed simp
    then show ?thesis using pump_evolves [OF assms] by (intro heard_quiet) simp_all
  qed
qed

interpretation hearing: loop_contract heard E for E
proof unfold_locales
  fix s s1 s2 :: "('a, 'b, 'c) udp_session" and w w1 w2 r d m a
  show "heard s w s w" using evolution.rel_refl by (simp add: heard_def)
  show "heard s w s1 w1 \<Longrightarrow> heard s1 w1 s2 w2 \<Longrightarrow> heard s w s2 w2" by (rule heard_trans)
  show "heard s w s (w\<lparr>clock_no := Suc (clock_no w)\<rparr>)" using evolves_now by (intro heard_quiet) simp_all
  show "flush E s w = Some (r, s1, w1) \<Longrightarrow> heard s w s1 w1"
    using flush_keys flush_evolves by (intro heard_quiet) blast+
  show "maybe_cover E s w = (r, s1, w1) \<Longrightarrow> heard s w s1 w1"
    using maybe_cover_evolves by (intro heard_quiet) fastforce+
  show "pump E d s w = (r, s1, w1) \<Longrightarrow> heard s w s1 w1" by (rule pump_heard)
qed

lemma bt_insert_not_Nil [simp]: "bt_insert k v m \<noteq> []"
  by (induction k v m rule: bt_insert.induct) auto

lemma enqueue_chunks_not_Nil: "unacked a \<noteq> [] \<or> cs \<noteq> [] \<Longrightarrow> unacked (enqueue_chunks f t i cs a) \<noteq> []"
  by (induction f t i cs a rule: enqueue_chunks.induct) (auto simp: Let_def)

lemma enqueue_not_Nil: "enqueue a m = (Inr u, a') \<Longrightarrow> unacked a' \<noteq> [] \<and> length m \<le> 261120"
  using length_chunks_payload [of m] chunks_eq_Nil_iff [of MAX_PAYLOAD m]
  by (auto simp: enqueue_def enqueue_one_def Let_def MAX_PAYLOAD_def split: if_splits intro!: enqueue_chunks_not_Nil)

lemma send_timeout_cases:
  assumes "send_timeout E m timeout s w = Some (r, s', w')"
  obtains e where "enqueue (s_arq s) m = (Inl e, s_arq s)" "r = Inl (SArq e)" "s' = s" "w' = w"
  | a where "enqueue (s_arq s) m = (Inr (), a)"
      "wait_loop E (clock_at w (clock_no w) + timeout) (s\<lparr>s_arq := a\<rparr>) (w\<lparr>clock_no := Suc (clock_no w)\<rparr>) = Some (r, s', w')"
  using assms
  by (cases "fst (enqueue (s_arq s) m)")
    (auto simp: send_timeout_def wait_acked_def instant_now_def enqueue_def Let_def enqueue_one_def split: if_splits prod.splits)

text \<open>Both calls keep the contract, and return once the clock stays past the deadline.\<close>

lemma send_timeout_evolves: "send_timeout E m timeout s w = Some (r, s', w') \<Longrightarrow> evolves s w s' w'"
proof (erule send_timeout_cases)
  fix a
  let ?s = "s\<lparr>s_arq := a\<rparr>"
  assume q: "enqueue (s_arq s) m = (Inr (), a)"
    and l: "wait_loop E (clock_at w (clock_no w) + timeout) ?s (w\<lparr>clock_no := Suc (clock_no w)\<rparr>) = Some (r, s', w')"
  have "evolves s w ?s w" by (rule evolves_local) (use step_enqueue [OF q] in auto)
  then show ?thesis using evolution.wait_loop_rel [OF l] evolves_now [of ?s w] evolution.rel_trans by blast
qed (simp add: evolution.rel_refl)

lemma session_recv_evolves: "session_recv E timeout s w = Some (r, s', w') \<Longrightarrow> evolves s w s' w'"
  using evolves_now [of s w] evolution.rel_trans
  by (auto simp: session_recv_def instant_now_def dest!: recv_loop_evolves)

lemma send_timeout_returns:
  assumes "arq_reachable (s_arq s)" and "\<forall>k \<ge> N. clock_at w (clock_no w) + timeout \<le> clock_at w k"
  shows "\<exists>r s' w'. send_timeout E m timeout s w = Some (r, s', w')"
proof -
  obtain q a where q: "enqueue (s_arq s) m = (q, a)" by (cases "enqueue (s_arq s) m")
  have "arq_reachable a" using arq_reach_step [OF assms(1) step_enqueue [OF q]] .
  then show ?thesis
    using wait_loop_returns [of "s\<lparr>s_arq := a\<rparr>" N _ "w\<lparr>clock_no := Suc (clock_no w)\<rparr>" E] assms(2)
    by (cases q) (simp_all add: send_timeout_def wait_acked_def instant_now_def q)
qed

lemma session_recv_returns:
  assumes "arq_reachable (s_arq s)" and "\<forall>k \<ge> N. clock_at w (clock_no w) + timeout \<le> clock_at w k"
  shows "\<exists>r s' w'. session_recv E timeout s w = Some (r, s', w')"
  using recv_loop_returns [of s N _ "w\<lparr>clock_no := Suc (clock_no w)\<rparr>" E] assms
  by (simp add: session_recv_def instant_now_def)

text \<open>A run in which a one-byte message is sent and acknowledged by the peer.\<close>

definition ack_world :: "nat \<Rightarrow> nat \<Rightarrow> nat \<Rightarrow> (bytes \<times> socket_addr) list \<Rightarrow> world" where
  "ack_world r c k out = \<lparr>
     recv_at = (\<lambda>_. Inr (encode_outer Data 0 @ model_nonce 0 @ encode_ack 1 0, V4 (Ipv4Addr 127 0 0 1) 9)), recv_no = r,
     clock_at = (\<lambda>_. 0), clock_no = c, send_at = (\<lambda>_. None), send_no = k, opt_at = (\<lambda>_. None), sent = out\<rparr>"

lemma ack_world_simps [simp]:
  "(ack_world r c k out)\<lparr>clock_no := c'\<rparr> = ack_world r c' k out" "clock_no (ack_world r c k out) = c"
  "clock_at (ack_world r c k out) = (\<lambda>_. 0)" "sent (ack_world r c k out) = out"
  by (simp_all add: ack_world_def)

abbreviation (input) demo_session :: "arq \<Rightarrow> nat \<Rightarrow> nat \<Rightarrow> (bool \<times> model_hs, model_ts, 256 word) udp_session" where
  "demo_session a sn rn \<equiv> (model_session (V4 (Ipv4Addr 127 0 0 1) 9))\<lparr>s_arq := a,
     s_noise := \<lparr>handshake = None, transport = Some \<lparr>mt_sn = sn, mt_rn = rn, mt_remote = []\<rparr>\<rparr>\<rparr>"

lemma ack_run_flush:
  "flush model_env (demo_session (run_sender None 0) 0 0) (ack_world 0 1 0 []) =
     Some (Inr (), demo_session (run_sender (Some 0) 1) 1 0,
       ack_world 0 2 1 [(encode_outer Data 0 @ model_nonce 0 @ run_frame, V4 (Ipv4Addr 127 0 0 1) 9)])"
proof -
  have "take_retransmits (run_sender (Some 0) 1) 0 = Some (Inr [], run_sender (Some 0) 1)"
    by (simp add: take_retransmits_def run_sender_def arq_new_def DEFAULT_RETX_def from_millis_def)
  then show ?thesis
    by (simp add: flush_def instant_now_def run_new_sends ack_world_def model_defs seal_data_def
        seal_and_send_def noise_seal_def transport_call_def send_inner_def wire_of_def encode_datagram_def send_to_def const_defs Let_def)
qed

lemma ack_run_pump:
  "pump model_env 7 (demo_session (run_sender (Some 0) 1) 1 0) (ack_world 0 3 1 out) =
     (Inr (), demo_session ((run_sender (Some 0) 1)\<lparr>unacked := []\<rparr>) 1 1,
       ack_world 1 3 1 out)"
proof -
  have "decode_incoming False (encode_outer Data 0 @ model_nonce 0 @ encode_ack 1 0) =
      Inr (Data, model_nonce 0 @ encode_ack 1 0, None)"
    by (simp add: decode_incoming_def)
  moreover have "length (encode_outer Data 0 @ model_nonce 0 @ encode_ack 1 0) \<le> MAX_DATAGRAM"
    by (simp add: const_defs ACK_LEN_def)
  ultimately show ?thesis
    by (simp add: pump_def set_read_timeout_def recv_raw_def recv_from_def ack_world_def model_defs
        handle_incoming_def noise_open_def transport_call_def run_ingest_ack ingest_reply_def Let_def)
qed

lemma ack_run:
  "\<exists>s' w'. send_timeout model_env [104] 7 (model_session (V4 (Ipv4Addr 127 0 0 1) 9)) (ack_world 0 0 0 []) = Some (Inr (), s', w')"
proof -
  let ?p = "V4 (Ipv4Addr 127 0 0 1) 9"
  let ?out = "[(encode_outer Data 0 @ model_nonce 0 @ run_frame, ?p)]"
  let ?s4 = "demo_session ((run_sender (Some 0) 1)\<lparr>unacked := []\<rparr>) 1 1"
  let ?w4 = "ack_world 1 3 1 ?out"
  have c: "maybe_cover E (demo_session a i j) w = (Inr (), demo_session a i j, w)" for E a i j w
    by (simp add: maybe_cover_def model_session_def)
  have b: "before_wait model_env (demo_session (run_sender None 0) 0 0) (ack_world 0 1 0 []) =
     Some (Inr (), demo_session (run_sender (Some 0) 1) 1 0, ack_world 0 2 1 ?out)"
    by (simp only: before_wait_def ack_run_flush option.map act_bind_simps c)
  have "flush model_env ?s4 ?w4 = Some (Inr (), ?s4, ack_world 1 4 1 ?out)"
    by (simp add: flush_def instant_now_def take_new_sends_def take_retransmits_def run_sender_def)
  then have b4: "before_wait model_env ?s4 ?w4 = Some (Inr (), ?s4, ack_world 1 4 1 ?out)"
    by (simp only: before_wait_def option.map act_bind_simps c)
  have "wait_loop model_env 7 ?s4 ?w4 = Some (Inr (), ?s4, ack_world 1 4 1 ?out)"
    unfolding wait_loop_unfold [of _ _ ?s4] b4 by (simp add: unacked_len_def)
  then have "wait_loop model_env 7 (demo_session (run_sender None 0) 0 0) (ack_world 0 1 0 []) =
      Some (Inr (), ?s4, ack_world 1 4 1 ?out)"
    unfolding wait_loop_unfold [of _ _ "demo_session (run_sender None 0) 0 0"] b
    using ack_run_pump [of ?out] by (simp add: unacked_len_def run_sender_def from_millis_def)
  then show ?thesis
    by (simp add: send_timeout_def wait_acked_def instant_now_def run_enqueue ack_world_def model_session_def)
qed

section \<open>Properties\<close>

text \<open>
  C5: the two blocking calls return.  If the clock eventually stays at or past the deadline,
  sending (flush, cover traffic, retransmission and the wait for acknowledgements) and
  receiving come back with a result, whatever datagrams and I/O errors the network
  produces, without a panic, and leave the ARQ in a reachable state.
\<close>
theorem session_calls_return:
  assumes "arq_reachable (s_arq s)" and "\<exists>N. \<forall>k \<ge> N. clock_at w (clock_no w) + timeout \<le> clock_at w k"
  shows "(\<exists>r s' w'. send_timeout E m timeout s w = Some (r, s', w') \<and> arq_reachable (s_arq s')) \<and>
    (\<exists>r s' w'. session_recv E timeout s w = Some (r, s', w') \<and> arq_reachable (s_arq s'))"
proof -
  obtain N where N: "\<forall>k \<ge> N. clock_at w (clock_no w) + timeout \<le> clock_at w k" using assms(2) by blast
  note ra = arq_reachable_evolves [OF assms(1)]
  show ?thesis
    using send_timeout_returns [OF assms(1) N] session_recv_returns [OF assms(1) N]
      ra [OF send_timeout_evolves] ra [OF session_recv_evolves] by meson
qed

theorem session_calls_return_witness:
  "\<exists>r s' w'. session_recv model_env 7 (model_session (V4 (Ipv4Addr 127 0 0 1) 9)) quiet_world = Some (r, s', w')"
proof -
  have "arq_reachable (s_arq (model_session (V4 (Ipv4Addr 127 0 0 1) 9)))"
    using arq_reach_init by (simp add: model_session_def)
  moreover have "\<exists>N. \<forall>k \<ge> N. clock_at quiet_world (clock_no quiet_world) + 7 \<le> clock_at quiet_world k"
    by (auto simp: quiet_world_def)
  ultimately show ?thesis
    using session_calls_return [of "model_session (V4 (Ipv4Addr 127 0 0 1) 9)" quiet_world 7 model_env] by blast
qed

text \<open>
  C6: what a successful send means.  \<open>send\<close> answers \<open>Ok\<close> only for a message within the
  limit, with no frame left unacknowledged, and only after a \<open>Data\<close> datagram from the next
  hop was received during the call: silence is never taken for an acknowledgement.
\<close>
theorem send_ok_acknowledged:
  assumes "arq_reachable (s_arq s)" and "send_timeout E m timeout s w = Some (Inr (), s', w')"
  shows "length m \<le> 261120 \<and> unacked (s_arq s') = [] \<and> hop_spoke s w (recv_no w')"
  using assms(2)
proof (cases rule: send_timeout_cases)
  case (2 a)
  let ?s = "s\<lparr>s_arq := a\<rparr>"
  have ra: "arq_reachable (s_arq ?s)" using arq_reach_step [OF assms(1) step_enqueue [OF 2(1)]] by simp
  have "unacked (s_arq s') = []" using evolution.wait_loop_rel [OF 2(2)] by blast
  moreover have "heard ?s (w\<lparr>clock_no := Suc (clock_no w)\<rparr>) s' w'" using hearing.wait_loop_rel [OF 2(2)] by blast
  ultimately have "hop_spoke s w (recv_no w')"
    using ra enqueue_not_Nil [OF 2(1)] by (auto simp: heard_def hop_spoke_def)
  then show ?thesis using \<open>unacked (s_arq s') = []\<close> enqueue_not_Nil [OF 2(1)] by blast
qed simp

theorem send_ok_acknowledged_witness:
  "\<exists>s' w'. unacked (s_arq s') = [] \<and> hop_spoke (model_session (V4 (Ipv4Addr 127 0 0 1) 9)) (ack_world 0 0 0 []) (recv_no w')
    \<and> send_timeout model_env [104] 7 (model_session (V4 (Ipv4Addr 127 0 0 1) 9)) (ack_world 0 0 0 []) = Some (Inr (), s', w')"
proof -
  have "arq_reachable (s_arq (model_session (V4 (Ipv4Addr 127 0 0 1) 9)))"
    using arq_reach_init by (simp add: model_session_def)
  with ack_run show ?thesis using send_ok_acknowledged by meson
qed

text \<open>
  C15: what an established session puts on the wire.  Every datagram that \<open>send\<close> or \<open>recv\<close> emits
  (data, retransmission, acknowledgement, cover) has at most 1200 bytes and goes to the next
  hop.  Neither call changes the next hop, the use of a relay or the onion route; on a direct or onion path they do not change the
  peer either.  (Through a relay \<open>recv\<close> takes the peer from the datagrams that arrive.)
\<close>
theorem session_output_bounds:
  assumes "send_timeout E m timeout s w = Some (r, s', w') \<or> session_recv E timeout s w = Some (q, s', w')"
  shows "next_hop s' = next_hop s \<and> via_relay s' = via_relay s \<and> s_onion s' = s_onion s \<and> (via_relay s \<or> s_peer s' = s_peer s) \<and>
    (\<exists>out. sent w' = sent w @ out \<and> (\<forall>(pkt, dest) \<in> set out. length pkt \<le> 1200 \<and> dest = next_hop s))"
  using assms
proof
  assume "send_timeout E m timeout s w = Some (r, s', w')"
  from send_timeout_evolves [OF this] show ?thesis by (simp add: evolves_def)
next
  assume "session_recv E timeout s w = Some (q, s', w')"
  from session_recv_evolves [OF this] show ?thesis by (simp add: evolves_def)
qed

theorem session_output_bounds_witness:
  "\<exists>s' w'. \<exists>out. send_timeout model_env [104] 7 (model_session (V4 (Ipv4Addr 127 0 0 1) 9)) (ack_world 0 0 0 []) = Some (Inr (), s', w')
    \<and> sent w' = out \<and> (\<forall>(pkt, dest) \<in> set out. length pkt \<le> 1200 \<and> dest = V4 (Ipv4Addr 127 0 0 1) 9)"
proof -
  obtain s' w' where r: "send_timeout model_env [104] 7 (model_session (V4 (Ipv4Addr 127 0 0 1) 9)) (ack_world 0 0 0 []) = Some (Inr (), s', w')"
    using ack_run by blast
  have "next_hop (model_session p) = p" for p by (simp add: model_session_def)
  then show ?thesis using session_output_bounds [OF disjI1 [OF r]] r by auto
qed

end
