(* ===== verification/Ppose_Arq_System.thy ===== *)
theory Ppose_Arq_System
  imports Ppose_Arq_Window "HOL-Library.Multiset"
begin

text \<open>
  Two ARQ endpoints (\<^verbatim>\<open>src/reliability/arq.rs\<close>) joined by a network that may lose,
  delay, reorder and duplicate every datagram: the wire of a direction is the set of all
  plaintexts ever sent on it, and a delivery picks any of them, any number of times.
  Endpoints are named by a bool; \<open>queued s x\<close> lists the messages endpoint \<open>x\<close>
  accepted for sending, \<open>received s x\<close> those its application has popped.  Shown:
  exactly-once delivery, for as long as the sequence and fragment counters have not
  wrapped (\<open>bounded\<close>).
\<close>

section \<open>The two endpoints and the network\<close>

record duplex =
  endpoint :: "bool \<Rightarrow> arq"
  wire :: "bool \<Rightarrow> bytes set"
  queued :: "bool \<Rightarrow> bytes list"
  received :: "bool \<Rightarrow> bytes list"

definition duplex_init :: duplex where
  "duplex_init = \<lparr>endpoint = (\<lambda>_. arq_new), wire = (\<lambda>_. {}), queued = (\<lambda>_. []), received = (\<lambda>_. [])\<rparr>"

definition set_ep :: "duplex \<Rightarrow> bool \<Rightarrow> arq \<Rightarrow> duplex" where
  "set_ep s x a = s\<lparr>endpoint := (endpoint s)(x := a)\<rparr>"

definition emit :: "duplex \<Rightarrow> bool \<Rightarrow> bytes set \<Rightarrow> duplex" where
  "emit s x ps = s\<lparr>wire := (wire s)(x := wire s x \<union> ps)\<rparr>"

inductive duplex_step :: "duplex \<Rightarrow> duplex \<Rightarrow> bool" where
  d_enqueue: "enqueue (endpoint s x) m = (Inr (), a) \<Longrightarrow>
     duplex_step s ((set_ep s x a)\<lparr>queued := (queued s)(x := queued s x @ [m])\<rparr>)"
| d_new_sends: "take_new_sends (endpoint s x) now = Some (out, a) \<Longrightarrow>
     duplex_step s (emit (set_ep s x a) x (set out))"
| d_retransmits: "take_retransmits (endpoint s x) now = Some (Inr out, a) \<Longrightarrow>
     duplex_step s (emit (set_ep s x a) x (set out))"
| d_give_up: "take_retransmits (endpoint s x) now = Some (Inl g, a) \<Longrightarrow>
     duplex_step s (set_ep s x a)"
| d_deliver: "pt \<in> wire s (\<not> x) \<Longrightarrow> ingest (endpoint s x) pt = (Inr r, a) \<Longrightarrow>
     duplex_step s (emit (set_ep s x a) x (set_option r))"
| d_take_ack: "take_ack (endpoint s x) = (k, a) \<Longrightarrow>
     duplex_step s (emit (set_ep s x a) x (set_option k))"
| d_pop: "pop_delivered (endpoint s x) = (Some m, a) \<Longrightarrow>
     duplex_step s ((set_ep s x a)\<lparr>received := (received s)(x := received s x @ [m])\<rparr>)"
| d_set_retx: "duplex_step s (set_ep s x (set_retx (endpoint s x) d))"

abbreviation duplex_reachable :: "duplex \<Rightarrow> bool" where
  "duplex_reachable \<equiv> reach duplex_init duplex_step"

section \<open>The frames of a message list\<close>

definition pieces :: "bytes \<Rightarrow> bytes list" where
  "pieces m = (if m = [] then [[]] else chunks MAX_PAYLOAD m)"

abbreviation nfr :: "bytes \<Rightarrow> nat" where
  "nfr m \<equiv> length (pieces m)"

definition slots :: "bytes list \<Rightarrow> (nat \<times> nat) list" where
  "slots ms = concat (map (\<lambda>j. map (Pair j) [0..<nfr (ms ! j)]) [0..<length ms])"

definition nonempty :: "bytes list \<Rightarrow> nat" where
  "nonempty ms = length (filter (\<lambda>m. m \<noteq> []) ms)"

definition fid :: "bytes list \<Rightarrow> nat \<Rightarrow> u16" where
  "fid ms j = (if ms ! j = [] then 0 else of_nat (nonempty (take j ms) + 1))"

definition frame_bytes :: "bytes list \<Rightarrow> nat \<Rightarrow> bytes" where
  "frame_bytes ms n = (case slots ms ! n of (j, i) \<Rightarrow>
     encode_data (of_nat n) (fid ms j) (of_nat i) (of_nat (nfr (ms ! j))) (pieces (ms ! j) ! i))"

definition bounded :: "bytes list \<Rightarrow> bool" where
  "bounded ms \<longleftrightarrow> length (slots ms) \<le> 2 ^ 32 - 1000000 \<and> nonempty ms < 65535 \<and> (\<forall>m \<in> set ms. nfr m \<le> 255)"

lemma payload_pos [simp]: "0 < MAX_PAYLOAD"
  by (simp add: MAX_PAYLOAD_def)

lemma nfr_pos [simp]: "0 < nfr m"
  by (auto simp: pieces_def chunks_eq_Nil_iff)

lemma pieces_not_Nil [simp]: "pieces m \<noteq> []"
  using nfr_pos [of m] by (metis length_greater_0_conv)

lemma concat_pieces: "concat (pieces m) = m"
  by (simp add: pieces_def concat_chunks)

lemma pieces_single: "nfr m = 1 \<Longrightarrow> pieces m ! 0 = m"
  using concat_pieces [of m] by (auto simp: length_Suc_conv)

lemma slots_Nil [simp]: "slots [] = []"
  by (simp add: slots_def)

lemma slots_snoc: "slots (ms @ [m]) = slots ms @ map (Pair (length ms)) [0..<nfr m]"
proof -
  have eq: "map (\<lambda>j. map (Pair j) [0..<nfr ((ms @ [m]) ! j)]) [0..<length ms] =
      map (\<lambda>j. map (Pair j) [0..<nfr (ms ! j)]) [0..<length ms]"
    by (simp add: nth_append)
  show ?thesis by (simp add: slots_def eq)
qed

lemma set_slots: "(j, i) \<in> set (slots ms) \<longleftrightarrow> j < length ms \<and> i < nfr (ms ! j)"
  by (fastforce simp: slots_def)

lemma distinct_slots: "distinct (slots ms)"
proof (induction ms rule: rev_induct)
  case (snoc m ms)
  have "set (slots ms) \<inter> set (map (Pair (length ms)) [0..<nfr m]) = {}"
    using set_slots [where ms = ms] by auto
  with snoc show ?case by (simp add: slots_snoc distinct_map inj_on_def)
qed simp

lemma slots_nth: "n < length (slots ms) \<Longrightarrow> slots ms ! n = (j, i) \<Longrightarrow> j < length ms \<and> i < nfr (ms ! j)"
  using nth_mem [of n "slots ms"] set_slots [of j i ms] by simp

lemma nonempty_snoc: "nonempty (ms @ [m]) = nonempty ms + (if m = [] then 0 else 1)"
  by (simp add: nonempty_def)

lemma nonempty_take: "nonempty (take j ms) \<le> nonempty ms"
  unfolding nonempty_def by (metis append_take_drop_id filter_append le_add1 length_append)

lemma fid_snoc: "j < length ms \<Longrightarrow> fid (ms @ [m]) j = fid ms j"
  by (simp add: fid_def nth_append)

lemma frame_bytes_snoc: "n < length (slots ms) \<Longrightarrow> frame_bytes (ms @ [m]) n = frame_bytes ms n"
proof -
  assume n: "n < length (slots ms)"
  obtain j i where s: "slots ms ! n = (j, i)" by (cases "slots ms ! n")
  with n have "j < length ms" using slots_nth by blast
  with n s show ?thesis
    by (simp add: frame_bytes_def slots_snoc nth_append fid_snoc)
qed

lemma bounded_snocD: "bounded (ms @ [m]) \<Longrightarrow> bounded ms"
  by (auto simp: bounded_def slots_snoc nonempty_snoc split: if_splits)

lemma nonempty_lt:
  assumes "j < length ms" and "ms ! j \<noteq> []"
  shows "nonempty (take j ms) < nonempty (take (Suc j) ms)"
  using assms by (simp add: take_Suc_conv_app_nth nonempty_def)

lemma nonempty_mono: "j \<le> k \<Longrightarrow> nonempty (take j ms) \<le> nonempty (take k ms)"
  using nonempty_take [of j "take k ms"] by (simp add: min_def)

lemma fid_inj:
  assumes "bounded ms" and j: "j < length ms" "ms ! j \<noteq> []" and k: "k < length ms" "ms ! k \<noteq> []"
    and "fid ms j = fid ms k"
  shows "j = k"
proof (rule ccontr)
  assume "j \<noteq> k"
  then consider "j < k" | "k < j" by linarith
  then have "nonempty (take j ms) \<noteq> nonempty (take k ms)"
  proof cases
    case 1
    then show ?thesis using nonempty_lt [OF j] nonempty_mono [of "Suc j" k ms] by simp
  next
    case 2
    then show ?thesis using nonempty_lt [OF k] nonempty_mono [of "Suc k" j ms] by simp
  qed
  moreover have "nonempty (take i ms) + 1 < 65536" for i
    using assms(1) nonempty_take [of i ms] by (simp add: bounded_def)
  then have "unat (of_nat (nonempty (take i ms) + 1) :: u16) = nonempty (take i ms) + 1" for i
    by (simp add: unat_of_nat del: of_nat_add of_nat_Suc)
  ultimately show False
    using assms(6) j(2) k(2) by (metis Suc_eq_plus1 fid_def nat.inject)
qed

lemma multi_nonempty: "2 \<le> nfr m \<Longrightarrow> m \<noteq> []"
  by (auto simp: pieces_def)

lemma frame_decodes:
  assumes "bounded ms" and n: "n < length (slots ms)" and s: "slots ms ! n = (j, i)"
  shows "decode_inner (frame_bytes ms n) =
    Inr (DataFrame (of_nat n) (fid ms j) (of_nat i) (of_nat (nfr (ms ! j))) (pieces (ms ! j) ! i))"
proof -
  have ji: "j < length ms" "i < nfr (ms ! j)" using slots_nth [OF n s] by simp_all
  then have "nfr (ms ! j) \<le> 255" using assms(1) by (simp add: bounded_def)
  then have "(of_nat i :: u8) < of_nat (nfr (ms ! j))"
    using ji by (simp add: word_less_nat_alt unat_of_nat)
  then show ?thesis by (simp add: frame_bytes_def s decode_encode_data)
qed

section \<open>What the endpoints know\<close>

definition got :: "bytes list \<Rightarrow> nat set \<Rightarrow> (nat \<times> nat) set" where
  "got ms S = (\<lambda>n. slots ms ! n) ` S"

definition complete :: "bytes list \<Rightarrow> (nat \<times> nat) set \<Rightarrow> nat \<Rightarrow> bool" where
  "complete ms A j \<longleftrightarrow> (\<forall>i < nfr (ms ! j). (j, i) \<in> A)"

definition buf_of :: "bytes list \<Rightarrow> (nat \<times> nat) set \<Rightarrow> nat \<Rightarrow> frag_buf" where
  "buf_of ms A j = \<lparr>fb_total = of_nat (nfr (ms ! j)),
     fb_parts = map (\<lambda>i. if (j, i) \<in> A then Some (pieces (ms ! j) ! i) else None) [0..<nfr (ms ! j)]\<rparr>"

definition open_buf :: "bytes list \<Rightarrow> (nat \<times> nat) set \<Rightarrow> nat \<Rightarrow> bool" where
  "open_buf ms A j \<longleftrightarrow> j < length ms \<and> 2 \<le> nfr (ms ! j) \<and> (\<exists>i. (j, i) \<in> A) \<and> \<not> complete ms A j"

definition frags_rel :: "bytes list \<Rightarrow> (nat \<times> nat) set \<Rightarrow> (u16 \<times> frag_buf) list \<Rightarrow> bool" where
  "frags_rel ms A fs \<longleftrightarrow> hm_wf fs \<and>
     (\<forall>f b. hm_get fs f = Some b \<longleftrightarrow> (\<exists>j. open_buf ms A j \<and> f = fid ms j \<and> b = buf_of ms A j))"

definition delivery_rel :: "bytes list \<Rightarrow> (nat \<times> nat) set \<Rightarrow> bytes list \<Rightarrow> bool" where
  "delivery_rel ms A D \<longleftrightarrow> (\<exists>js. distinct js \<and> set js = {j. j < length ms \<and> complete ms A j}
     \<and> D = map (\<lambda>j. ms ! j) js)"

definition sender_inv :: "bytes list \<Rightarrow> nat set \<Rightarrow> arq \<Rightarrow> bool" where
  "sender_inv ms S a \<longleftrightarrow>
     next_seq a = of_nat (length (slots ms)) \<and> next_frag_id a = of_nat (nonempty ms + 1) \<and>
     bt_wf (unacked a) \<and> in_flight (unacked a) \<le> 32 \<and>
     (\<forall>q o'. (q, o') \<in> set (unacked a) \<longrightarrow>
        (\<exists>n < length (slots ms). q = of_nat n \<and> og_plaintext o' = frame_bytes ms n)) \<and>
     (\<forall>n < length (slots ms). n \<notin> S \<longrightarrow> of_nat n \<in> fst ` set (unacked a))"

definition receiver_inv :: "bytes list \<Rightarrow> nat set \<Rightarrow> bytes list \<Rightarrow> arq \<Rightarrow> bool" where
  "receiver_inv ms S R b \<longleftrightarrow>
     S \<subseteq> {..<length (slots ms)} \<and>
     (\<exists>n. window_rel S n (recv_base b) (recv_bits b) \<and> n \<notin> S) \<and>
     frags_rel ms (got ms S) (fragments b) \<and> delivery_rel ms (got ms S) (R @ delivered b)"

definition wire_ok :: "bytes list \<Rightarrow> nat set \<Rightarrow> bytes \<Rightarrow> bool" where
  "wire_ok ms S pt \<longleftrightarrow> (\<exists>n < length (slots ms). pt = frame_bytes ms n) \<or>
     (\<exists>base bits S' n. pt = encode_ack base bits \<and> S' \<subseteq> S \<and> window_rel S' n base bits)"

section \<open>The receiver accepts a frame\<close>

lemma got_insert: "got ms (insert n S) = insert (slots ms ! n) (got ms S)"
  by (simp add: got_def)

lemma got_new:
  assumes "S \<subseteq> {..<length (slots ms)}" and "n < length (slots ms)" and "n \<notin> S"
  shows "slots ms ! n \<notin> got ms S"
proof
  assume "slots ms ! n \<in> got ms S"
  then obtain k where "k \<in> S" "slots ms ! n = slots ms ! k" by (auto simp: got_def)
  then show False
    using assms distinct_slots [of ms] by (metis lessThan_iff nth_eq_iff_index_eq subsetD)
qed

lemma got_subset: "S \<subseteq> {..<length (slots ms)} \<Longrightarrow> got ms S \<subseteq> set (slots ms)"
  by (auto simp: got_def)

lemma complete_insert_other: "j \<noteq> k \<Longrightarrow> complete ms (insert (j, i) A) k \<longleftrightarrow> complete ms A k"
  by (simp add: complete_def)

lemma open_buf_insert_other: "j \<noteq> k \<Longrightarrow> open_buf ms (insert (j, i) A) k \<longleftrightarrow> open_buf ms A k"
  by (simp add: open_buf_def complete_insert_other)

lemma buf_of_insert_other: "j \<noteq> k \<Longrightarrow> buf_of ms (insert (j, i) A) k = buf_of ms A k"
  by (simp add: buf_of_def)

lemma delivery_complete:
  assumes "delivery_rel ms A D" and "j < length ms" and "(j, i) \<notin> A" and "i < nfr (ms ! j)"
    and "complete ms (insert (j, i) A) j"
  shows "delivery_rel ms (insert (j, i) A) (D @ [ms ! j])"
proof -
  obtain js where js: "distinct js" "set js = {k. k < length ms \<and> complete ms A k}"
    "D = map (\<lambda>j. ms ! j) js" using assms(1) by (auto simp: delivery_rel_def)
  have nc: "\<not> complete ms A j" using assms(3,4) by (auto simp: complete_def)
  have "complete ms (insert (j, i) A) k \<longleftrightarrow> k = j \<or> complete ms A k" for k
    using assms(5) complete_insert_other [of j k ms i A] by (cases "k = j") auto
  then have "{k. k < length ms \<and> complete ms (insert (j, i) A) k} = insert j (set js)"
    using assms(2) by (auto simp: js(2))
  then have "distinct (js @ [j]) \<and> set (js @ [j]) = {k. k < length ms \<and> complete ms (insert (j, i) A) k}"
    using js nc by auto
  then show ?thesis
    unfolding delivery_rel_def by (intro exI [of _ "js @ [j]"]) (simp add: js(3))
qed

lemma delivery_incomplete:
  assumes "delivery_rel ms A D" and "\<not> complete ms (insert (j, i) A) j"
  shows "delivery_rel ms (insert (j, i) A) D"
proof -
  have "\<not> complete ms A j" using assms(2) by (auto simp: complete_def)
  then have "complete ms (insert (j, i) A) k \<longleftrightarrow> complete ms A k" for k
    using assms(2) complete_insert_other [of j k ms i A] by (cases "k = j") auto
  with assms(1) show ?thesis by (simp add: delivery_rel_def)
qed

lemma frags_single:
  assumes "frags_rel ms A fs" and "nfr (ms ! j) = 1"
  shows "frags_rel ms (insert (j, i) A) fs"
proof -
  have "open_buf ms (insert (j, i) A) k \<longleftrightarrow> open_buf ms A k" for k
    using assms(2) open_buf_insert_other [of j k] by (cases "k = j") (auto simp: open_buf_def)
  moreover have "open_buf ms A k \<Longrightarrow> buf_of ms (insert (j, i) A) k = buf_of ms A k" for k
    using assms(2) buf_of_insert_other [of j k] by (cases "k = j") (auto simp: open_buf_def)
  ultimately show ?thesis
    using assms(1) unfolding frags_rel_def by metis
qed

lemma flatten_Some: "flatten (map (\<lambda>i. Some (f i)) xs) = map f xs"
  by (induction xs) (simp_all add: flatten_def List.map_filter_simps)

lemma concat_complete:
  assumes "complete ms A j"
  shows "concat (flatten (fb_parts (buf_of ms A j))) = ms ! j"
proof -
  have "fb_parts (buf_of ms A j) = map (\<lambda>i. Some (pieces (ms ! j) ! i)) [0..<nfr (ms ! j)]"
    using assms by (simp add: buf_of_def complete_def)
  then show ?thesis
    by (simp add: flatten_Some map_nth concat_pieces)
qed

lemma open_buf_fid:
  assumes "bounded ms" and "open_buf ms A k" and "j < length ms" and "2 \<le> nfr (ms ! j)"
  shows "fid ms k = fid ms j \<longleftrightarrow> k = j"
  using fid_inj [OF assms(1), of k j] multi_nonempty assms by (auto simp: open_buf_def)

lemma frags_lookup:
  assumes bnd: "bounded ms" and fr: "frags_rel ms A fs"
    and j: "j < length ms" "2 \<le> nfr (ms ! j)" and nc: "\<not> complete ms A j"
    and t: "unat t = nfr (ms ! j)" "t = of_nat (nfr (ms ! j))"
  shows "(case hm_get fs (fid ms j) of Some b \<Rightarrow> b
      | None \<Rightarrow> \<lparr>fb_total = t, fb_parts = replicate (unat t) None\<rparr>) = buf_of ms A j"
proof (cases "open_buf ms A j")
  case True
  then have "hm_get fs (fid ms j) = Some (buf_of ms A j)"
    using fr by (auto simp: frags_rel_def)
  then show ?thesis by simp
next
  case False
  have "hm_get fs (fid ms j) \<noteq> Some b" for b
    using fr False open_buf_fid [OF bnd _ j] by (metis frags_rel_def)
  then have "hm_get fs (fid ms j) = None" by (meson not_None_eq)
  moreover have "\<forall>i. (j, i) \<notin> A" using False nc j by (auto simp: open_buf_def)
  ultimately show ?thesis
    by (simp add: buf_of_def t(1) t(2) [symmetric] map_replicate_const)
qed

lemma frags_update:
  assumes bnd: "bounded ms" and fr: "frags_rel ms A fs"
    and j: "j < length ms" "2 \<le> nfr (ms ! j)" and wf: "hm_wf fs'"
    and get: "hm_get fs' = (hm_get fs)(fid ms j :=
        if complete ms (insert (j, i) A) j then None else Some (buf_of ms (insert (j, i) A) j))"
  shows "frags_rel ms (insert (j, i) A) fs'"
proof -
  let ?A = "insert (j, i) A"
  have "hm_get fs' f = Some c \<longleftrightarrow> (\<exists>k. open_buf ms ?A k \<and> f = fid ms k \<and> c = buf_of ms ?A k)" for f c
  proof (cases "f = fid ms j")
    case True
    have "(\<exists>k. open_buf ms ?A k \<and> f = fid ms k \<and> c = buf_of ms ?A k) \<longleftrightarrow>
        open_buf ms ?A j \<and> c = buf_of ms ?A j"
      using open_buf_fid [OF bnd _ j] True by metis
    then show ?thesis using True j by (auto simp: get open_buf_def)
  next
    case False
    have "(open_buf ms ?A k \<and> f = fid ms k \<and> c = buf_of ms ?A k) \<longleftrightarrow>
        (open_buf ms A k \<and> f = fid ms k \<and> c = buf_of ms A k)" for k
      using False open_buf_insert_other [of j k] buf_of_insert_other [of j k] by (cases "k = j") auto
    then show ?thesis using fr False by (simp add: frags_rel_def get)
  qed
  with wf show ?thesis by (simp add: frags_rel_def)
qed

lemma buf_of_insert:
  assumes "i < nfr (ms ! j)"
  shows "(fb_parts (buf_of ms A j))[i := Some (pieces (ms ! j) ! i)]
      = fb_parts (buf_of ms (insert (j, i) A) j)"
    and "list_all (\<lambda>p. p \<noteq> None) (fb_parts (buf_of ms B j)) \<longleftrightarrow> complete ms B j"
    and "(buf_of ms A j)\<lparr>fb_parts := fb_parts (buf_of ms B j)\<rparr> = buf_of ms B j"
proof -
  show "(fb_parts (buf_of ms A j))[i := Some (pieces (ms ! j) ! i)]
      = fb_parts (buf_of ms (insert (j, i) A) j)"
    using assms by (intro nth_equalityI) (auto simp: buf_of_def nth_list_update)
qed (auto simp: buf_of_def complete_def list_all_iff split: if_splits)

lemma buf_of_simps [simp]:
  "fb_total (buf_of ms A j) = of_nat (nfr (ms ! j))"
  "length (fb_parts (buf_of ms A j)) = nfr (ms ! j)"
  by (simp_all add: buf_of_def)

lemma store_fragment_rel:
  assumes bnd: "bounded ms" and fr: "frags_rel ms A (fragments b)"
    and ji: "j < length ms" "i < nfr (ms ! j)" and two: "2 \<le> nfr (ms ! j)" and new: "(j, i) \<notin> A"
  shows "\<exists>fs. frags_rel ms (insert (j, i) A) fs \<and>
     store_fragment b (fid ms j) (of_nat i) (of_nat (nfr (ms ! j))) (pieces (ms ! j) ! i) =
     b\<lparr>fragments := fs,
       delivered := delivered b @ (if complete ms (insert (j, i) A) j then [ms ! j] else [])\<rparr>"
proof -
  let ?A = "insert (j, i) A" and ?f = "fid ms j" and ?t = "of_nat (nfr (ms ! j)) :: u8"
  have "nfr (ms ! j) \<le> 255" using bnd ji by (simp add: bounded_def)
  then have ut: "unat ?t = nfr (ms ! j)" and ui: "unat (of_nat i :: u8) = i"
    using ji by (simp_all add: unat_of_nat)
  have wf: "hm_wf (fragments b)" using fr by (simp add: frags_rel_def)
  have "\<not> complete ms A j" using new ji by (auto simp: complete_def)
  note buf = frags_lookup [OF bnd fr ji(1) two this ut refl]
  let ?f2 = "hm_insert ?f (buf_of ms ?A j) (hm_insert ?f (buf_of ms A j) (fragments b))"
  define fs where "fs = (if complete ms ?A j then hm_remove ?f ?f2 else ?f2)"
  have "store_fragment b ?f (of_nat i) ?t (pieces (ms ! j) ! i) =
     b\<lparr>fragments := fs, delivered := delivered b @ (if complete ms ?A j then [ms ! j] else [])\<rparr>"
    unfolding store_fragment_def buf ui buf_of_insert [OF ji(2)] Let_def
    using ji by (simp add: fs_def concat_complete buf_of_insert(3) [OF ji(2)])
  moreover have "frags_rel ms ?A fs"
    using wf by (intro frags_update [OF bnd fr ji(1) two])
      (auto simp: fs_def hm.map_of_ins hm.map_of_del hm.wf_ins hm.wf_del)
  ultimately show ?thesis by blast
qed

section \<open>Enqueueing\<close>

definition fresh_slot :: "bytes \<Rightarrow> outgoing" where
  "fresh_slot pt = \<lparr>og_plaintext = pt, og_last_sent = None, og_attempts = 0\<rparr>"

definition new_entries :: "nat \<Rightarrow> u16 \<Rightarrow> u8 \<Rightarrow> nat \<Rightarrow> bytes list \<Rightarrow> (u32 \<times> outgoing) list" where
  "new_entries N f tot i cs = map (\<lambda>d. (of_nat (N + d),
     fresh_slot (encode_data (of_nat (N + d)) f (of_nat (i + d)) tot (cs ! d)))) [0..<length cs]"

lemma new_entries_Cons:
  "new_entries N f tot i (c # cs) =
     (of_nat N, fresh_slot (encode_data (of_nat N) f (of_nat i) tot c)) # new_entries (Suc N) f tot (Suc i) cs"
  by (simp add: new_entries_def upt_conv_Cons map_Suc_upt [symmetric] algebra_simps del: upt_Suc)

lemma bt_insert_next:
  assumes "\<And>q. q \<in> fst ` set m \<Longrightarrow> \<exists>n < N. q = of_nat n" and "N < 2 ^ 32"
  shows "bt_insert (of_nat N :: u32) o' m = m @ [(of_nat N, o')]"
proof (rule bt_insert_greatest)
  fix q assume "q \<in> set (map fst m)"
  then obtain n where "n < N" "q = of_nat n" using assms(1) by auto
  then show "q < of_nat N"
    using assms(2) by (simp add: word_less_nat_alt unat_of_nat)
qed

lemma enqueue_chunks_eq:
  assumes "next_seq a = of_nat N" and "\<And>q. q \<in> fst ` set (unacked a) \<Longrightarrow> \<exists>n < N. q = of_nat n"
    and "N + length cs < 2 ^ 32"
  shows "enqueue_chunks f tot i cs a =
    a\<lparr>next_seq := of_nat (N + length cs), unacked := unacked a @ new_entries N f tot i cs\<rparr>"
  using assms
proof (induction cs arbitrary: a N i)
  case Nil
  then show ?case by (simp add: new_entries_def)
next
  case (Cons c cs)
  let ?o = "fresh_slot (encode_data (of_nat N) f (of_nat i) tot c)"
  let ?a = "a\<lparr>next_seq := of_nat (Suc N), unacked := unacked a @ [(of_nat N, ?o)]\<rparr>"
  have "enqueue_chunks f tot i (c # cs) a = enqueue_chunks f tot (Suc i) cs ?a"
    using Cons.prems bt_insert_next [of "unacked a" N]
    by (simp add: Let_def fresh_slot_def add.commute)
  also have "\<dots> = ?a\<lparr>next_seq := of_nat (Suc N + length cs),
      unacked := unacked ?a @ new_entries (Suc N) f tot (Suc i) cs\<rparr>"
  proof (rule Cons.IH)
    show "\<exists>n < Suc N. q = of_nat n" if "q \<in> fst ` set (unacked ?a)" for q
      using that Cons.prems(2) [of q] by (force simp: less_Suc_eq)
  qed (use Cons.prems(3) in simp_all)
  finally show ?case by (simp add: new_entries_Cons)
qed

lemma enqueue_eq:
  assumes "enqueue a m = (Inr (), a')" and "next_seq a = of_nat N"
    and "\<And>q. q \<in> fst ` set (unacked a) \<Longrightarrow> \<exists>n < N. q = of_nat n" and "N + nfr m < 2 ^ 32"
  shows "nfr m \<le> 255 \<and> a' = a\<lparr>next_seq := of_nat (N + nfr m),
     next_frag_id := (if m = [] then next_frag_id a else next_frag_id (bump_frag_id a)),
     unacked := unacked a @ new_entries N (if m = [] then 0 else next_frag_id a) (of_nat (nfr m)) 0 (pieces m)\<rparr>"
proof (cases "m = []")
  case True
  have "bt_insert (of_nat N) o' (unacked a) = unacked a @ [(of_nat N, o')]" for o'
    using assms(3,4) by (intro bt_insert_next) auto
  with True show ?thesis
    using assms(1,2)
    by (auto simp: enqueue_def enqueue_one_def Let_def pieces_def new_entries_def fresh_slot_def add.commute)
next
  case False
  then have p: "pieces m = chunks MAX_PAYLOAD m" by (simp add: pieces_def)
  have "bump_frag_id a = a\<lparr>next_frag_id := next_frag_id (bump_frag_id a)\<rparr>"
    by (simp add: bump_frag_id_def Let_def)
  then have "enqueue_chunks (next_frag_id a) (of_nat (nfr m)) 0 (pieces m) (bump_frag_id a) =
    a\<lparr>next_seq := of_nat (N + nfr m), next_frag_id := next_frag_id (bump_frag_id a),
     unacked := unacked a @ new_entries N (next_frag_id a) (of_nat (nfr m)) 0 (pieces m)\<rparr>"
    using enqueue_chunks_eq [of "bump_frag_id a" N "pieces m" "next_frag_id a" "of_nat (nfr m)" 0] assms
    by (metis (no_types, lifting) arq.select_convs(1,3) arq.surjective arq.update_convs(1,2,3))
  with False show ?thesis
    using assms(1) by (auto simp: enqueue_def Let_def p split: if_splits)
qed

section \<open>Each operation keeps what the endpoints know\<close>

lemma sender_inv_cong:
  "next_seq a = next_seq b \<Longrightarrow> next_frag_id a = next_frag_id b \<Longrightarrow> unacked a = unacked b \<Longrightarrow>
     sender_inv ms S a \<longleftrightarrow> sender_inv ms S b"
  by (simp add: sender_inv_def)

lemma receiver_inv_cong:
  "recv_base a = recv_base b \<Longrightarrow> recv_bits a = recv_bits b \<Longrightarrow> fragments a = fragments b \<Longrightarrow>
     delivered a = delivered b \<Longrightarrow> receiver_inv ms S R a \<longleftrightarrow> receiver_inv ms S R b"
  by (simp add: receiver_inv_def)

lemma sender_inv_entry:
  "sender_inv ms S a \<Longrightarrow> (q, o') \<in> set (unacked a) \<Longrightarrow>
     \<exists>n < length (slots ms). q = of_nat n \<and> og_plaintext o' = frame_bytes ms n"
  by (simp add: sender_inv_def)

lemma sender_invI:
  assumes "next_seq a = of_nat (length (slots ms))" and "next_frag_id a = of_nat (nonempty ms + 1)"
    and "bt_wf (unacked a)" and "in_flight (unacked a) \<le> 32"
    and "\<And>q o'. (q, o') \<in> set (unacked a) \<Longrightarrow>
        \<exists>n < length (slots ms). q = of_nat n \<and> og_plaintext o' = frame_bytes ms n"
    and "\<And>n. n < length (slots ms) \<Longrightarrow> n \<notin> S \<Longrightarrow> of_nat n \<in> fst ` set (unacked a)"
  shows "sender_inv ms S a"
  using assms unfolding sender_inv_def by blast

lemma sender_inv_mono: "sender_inv ms S a \<Longrightarrow> S \<subseteq> T \<Longrightarrow> sender_inv ms T a"
  by (auto simp: sender_inv_def)

lemma wire_ok_mono: "wire_ok ms S pt \<Longrightarrow> S \<subseteq> T \<Longrightarrow> wire_ok ms T pt"
  unfolding wire_ok_def by (elim disjE) (blast intro: subset_trans)+

lemma wire_ok_snoc: "wire_ok ms S pt \<Longrightarrow> wire_ok (ms @ [m]) S pt"
  unfolding wire_ok_def using frame_bytes_snoc [of _ ms m]
  by (metis length_append slots_snoc trans_less_add1)

lemma new_entries_frames:
  "new_entries (length (slots ms)) (if m = [] then 0 else of_nat (nonempty ms + 1))
      (of_nat (nfr m)) 0 (pieces m) =
    map (\<lambda>n. (of_nat n, fresh_slot (frame_bytes (ms @ [m]) n)))
      [length (slots ms) ..< length (slots (ms @ [m]))]"
  by (rule nth_equalityI)
    (auto simp: new_entries_def frame_bytes_def slots_snoc nth_append fid_def)

lemma bt_wf_append_fresh:
  assumes "bt_wf m" and "\<And>q. q \<in> fst ` set m \<Longrightarrow> \<exists>n < N. q = of_nat n" and "M < 2 ^ 32"
  shows "bt_wf (m @ map (\<lambda>n. (of_nat n :: u32, g n)) [N ..< M])"
proof -
  have lt: "(of_nat i :: u32) < of_nat j" if "i < j" "j < M" for i j
    using that assms(3) by (simp add: word_less_nat_alt unat_of_nat)
  have "sorted_wrt (<) (map (of_nat :: nat \<Rightarrow> u32) [N ..< M])"
    by (auto simp: sorted_wrt_map sorted_wrt_iff_nth_less simp del: of_nat_add intro!: lt)
  moreover have "x < y" if "x \<in> fst ` set m" "y \<in> of_nat ` {N ..< M}" for x y
    using assms(2) [OF that(1)] that(2) lt by auto
  ultimately show ?thesis
    using assms(1) by (auto simp: bt_wf_def sorted_wrt_append comp_def)
qed

lemma next_frag_id_enqueue:
  assumes "bounded (ms @ [m])" and "next_frag_id a = of_nat (nonempty ms + 1)"
  shows "(if m = [] then next_frag_id a else next_frag_id (bump_frag_id a))
    = of_nat (nonempty (ms @ [m]) + 1)"
proof (cases "m = []")
  case False
  have "nonempty ms + 2 < 2 ^ 16" using assms(1) False by (simp add: bounded_def nonempty_snoc)
  then have "unat (of_nat (nonempty ms + 2) :: u16) = nonempty ms + 2"
    by (subst unat_of_nat) simp
  then have "(of_nat (nonempty ms + 2) :: u16) \<noteq> 0"
    by (metis add_is_0 unat_0 zero_neq_numeral)
  then show ?thesis using False assms(2)
    by (simp add: bump_frag_id_def nonempty_snoc Let_def add.commute)
qed (simp add: assms(2) nonempty_snoc)

lemma sender_inv_enqueue:
  assumes bnd: "bounded (ms @ [m])" and inv: "sender_inv ms S a" and enq: "enqueue a m = (Inr (), a')"
  shows "sender_inv (ms @ [m]) S a'"
proof -
  let ?N = "length (slots ms)" and ?M = "length (slots (ms @ [m]))"
  let ?new = "map (\<lambda>n. (of_nat n :: u32, fresh_slot (frame_bytes (ms @ [m]) n))) [?N ..< ?M]"
  have keys: "\<exists>n < ?N. q = of_nat n" if "q \<in> fst ` set (unacked a)" for q
    using that inv by (force simp: sender_inv_def)
  have M: "?M = ?N + nfr m" "?M < 2 ^ 32" using bnd by (simp_all add: bounded_def slots_snoc)
  have seq: "next_seq a = of_nat ?N" and nf: "next_frag_id a = of_nat (nonempty ms + 1)"
    using inv by (simp_all add: sender_inv_def)
  have N: "?N + nfr m < 2 ^ 32" using M by simp
  note eq = enqueue_eq [OF enq seq keys N, THEN conjunct2,
      unfolded next_frag_id_enqueue [OF bnd nf], unfolded nf new_entries_frames M(1) [symmetric]]
  have a': "a' = a\<lparr>next_seq := of_nat ?M, next_frag_id := of_nat (nonempty (ms @ [m]) + 1),
      unacked := unacked a @ ?new\<rparr>"
    by (rule eq)
  have old: "\<exists>n < ?M. q = of_nat n \<and> og_plaintext o' = frame_bytes (ms @ [m]) n"
    if e: "(q, o') \<in> set (unacked a)" for q o'
  proof -
    obtain n where "n < ?N" "q = of_nat n" "og_plaintext o' = frame_bytes ms n"
      using sender_inv_entry [OF inv e] by blast
    then show ?thesis using frame_bytes_snoc [of n ms m] M by (intro exI [of _ n]) simp
  qed
  have un: "unacked a' = unacked a @ ?new" by (simp add: a')
  show ?thesis
  proof (rule sender_invI)
    show "next_seq a' = of_nat ?M" "next_frag_id a' = of_nat (nonempty (ms @ [m]) + 1)"
      by (simp_all add: a')
    show "bt_wf (unacked a')"
      unfolding un using inv keys M by (intro bt_wf_append_fresh) (auto simp: sender_inv_def)
    have "filter (\<lambda>e. \<not> unsent (snd e)) ?new = []"
      by (auto simp: filter_empty_conv fresh_slot_def unsent_def)
    then show "in_flight (unacked a') \<le> 32"
      using inv by (simp add: un sender_inv_def in_flight_def)
  next
    fix q o' assume "(q, o') \<in> set (unacked a')"
    then consider "(q, o') \<in> set (unacked a)" | "(q, o') \<in> set ?new" by (auto simp: un)
    then show "\<exists>n < ?M. q = of_nat n \<and> og_plaintext o' = frame_bytes (ms @ [m]) n"
      by cases (use old in \<open>auto simp: fresh_slot_def\<close>)
  next
    fix n assume n: "n < ?M" "n \<notin> S"
    show "(of_nat n :: u32) \<in> fst ` set (unacked a')"
    proof (cases "n < ?N")
      case True
      then have "(of_nat n :: u32) \<in> fst ` set (unacked a)" using inv n by (simp add: sender_inv_def)
      then show ?thesis unfolding un set_append image_Un by blast
    next
      case False
      with n have "n \<in> set [?N ..< ?M]" by simp
      then have "(of_nat n :: u32) \<in> fst ` set ?new" unfolding set_map image_image fst_conv by (rule imageI)
      then show ?thesis unfolding un set_append image_Un by blast
    qed
  qed
qed

lemma receiver_inv_snoc:
  assumes "receiver_inv ms S R b"
  shows "receiver_inv (ms @ [m]) S R b"
proof -
  let ?A = "got ms S"
  have S: "S \<subseteq> {..<length (slots ms)}" using assms by (simp add: receiver_inv_def)
  then have A: "got (ms @ [m]) S = ?A"
    by (auto simp: got_def slots_snoc nth_append subset_iff intro!: image_cong)
  have lim: "j < length ms" if "(j, i) \<in> ?A" for j i
    using got_subset [OF S] that set_slots by blast
  have nc: "\<not> complete (ms @ [m]) ?A (length ms)"
    using lim [of "length ms" 0] nfr_pos [of m] unfolding complete_def by fastforce
  have c: "j < length (ms @ [m]) \<and> complete (ms @ [m]) ?A j \<longleftrightarrow> j < length ms \<and> complete ms ?A j" for j
    using nc by (cases "j = length ms") (auto simp: complete_def nth_append)
  have o: "open_buf (ms @ [m]) ?A j \<longleftrightarrow> open_buf ms ?A j" for j
    using lim c [of j] by (cases "j = length ms") (auto simp: open_buf_def nth_append)
  have "open_buf ms ?A j \<Longrightarrow> buf_of (ms @ [m]) ?A j = buf_of ms ?A j \<and> fid (ms @ [m]) j = fid ms j" for j
    by (simp add: buf_of_def open_buf_def nth_append fid_snoc)
  then have f: "frags_rel (ms @ [m]) ?A fs \<longleftrightarrow> frags_rel ms ?A fs" for fs
    unfolding frags_rel_def by (metis o)
  have "map (\<lambda>j. (ms @ [m]) ! j) js = map (\<lambda>j. ms ! j) js" if "set js \<subseteq> {..<length ms}" for js
    using that by (auto simp: nth_append)
  then have d: "delivery_rel ms ?A D \<Longrightarrow> delivery_rel (ms @ [m]) ?A D" for D
    unfolding delivery_rel_def c by (smt (verit, best) lessThan_iff mem_Collect_eq subsetI)
  show ?thesis
    using assms S f d by (auto simp: receiver_inv_def A slots_snoc)
qed

lemma sender_inv_same_plaintexts:
  assumes "sender_inv ms S a" and "map fst m = map fst (unacked a)" and "in_flight m \<le> 32"
    and "\<And>q o'. (q, o') \<in> set m \<Longrightarrow> \<exists>o0. (q, o0) \<in> set (unacked a) \<and> og_plaintext o' = og_plaintext o0"
  shows "sender_inv ms S (a\<lparr>unacked := m\<rparr>)"
proof -
  have "fst ` set m = fst ` set (unacked a)" using assms(2) by (metis list.set_map)
  moreover have "\<exists>n < length (slots ms). q = of_nat n \<and> og_plaintext o' = frame_bytes ms n"
    if "(q, o') \<in> set m" for q o'
    using assms(4) [OF that] sender_inv_entry [OF assms(1)] by metis
  ultimately show ?thesis
    using assms(1,3) bt_wf_keys_cong [OF assms(2)] by (simp add: sender_inv_def)
qed

lemma mark_first_plaintext:
  "(q, o') \<in> set (mark_first now k m) \<Longrightarrow> \<exists>o0. (q, o0) \<in> set m \<and> og_plaintext o' = og_plaintext o0"
  by (induction now k m rule: mark_first.induct) (auto simp: mark_sent_def split: if_splits)

lemma mark_due_plaintext:
  "(q, o') \<in> set (mark_due now rt m) \<Longrightarrow> \<exists>o0. (q, o0) \<in> set m \<and> og_plaintext o' = og_plaintext o0"
  by (auto simp: mark_due_def mark_resent_def)

lemma unacked_on_wire:
  "sender_inv ms S a \<Longrightarrow> (q, o') \<in> set (unacked a) \<Longrightarrow> wire_ok ms T (og_plaintext o')"
  unfolding sender_inv_def wire_ok_def by blast

lemma new_sends_ok:
  assumes inv: "sender_inv ms S a" and ts: "take_new_sends a now = Some (out, a')"
  shows "sender_inv ms S a' \<and> (\<forall>pt \<in> set out. wire_ok ms T pt) \<and> (\<exists>m. a' = a\<lparr>unacked := m\<rparr>)"
proof -
  let ?k = "32 - in_flight (unacked a)"
  have wf: "bt_wf (unacked a)" "in_flight (unacked a) \<le> 32" using inv by (simp_all add: sender_inv_def)
  then have out: "out = take ?k (map (\<lambda>e. og_plaintext (snd e)) (filter (\<lambda>e. unsent (snd e)) (unacked a)))"
    and a': "a' = a\<lparr>unacked := mark_first now ?k (unacked a)\<rparr>"
    using take_new_sends_eq [of a now] ts by simp_all
  have "in_flight (mark_first now ?k (unacked a)) \<le> 32"
    using in_flight_mark_first [of now ?k "unacked a"] wf by simp
  then have "sender_inv ms S a'"
    unfolding a' using inv mark_first_plaintext
    by (intro sender_inv_same_plaintexts) auto
  moreover have "wire_ok ms T pt" if "pt \<in> set out" for pt
    using that unacked_on_wire [OF inv] by (auto simp: out dest!: in_set_takeD)
  ultimately show ?thesis using a' by blast
qed

lemma retransmits_ok:
  assumes inv: "sender_inv ms S a" and tr: "take_retransmits a now = Some (r, a')"
  shows "sender_inv ms S a' \<and> (\<forall>out. r = Inr out \<longrightarrow> (\<forall>pt \<in> set out. wire_ok ms T pt))
    \<and> (\<exists>m. a' = a\<lparr>unacked := m\<rparr>)"
proof -
  have wf: "bt_wf (unacked a)" and fl: "in_flight (unacked a) \<le> 32"
    using inv by (simp_all add: sender_inv_def)
  consider (go) "\<And>p x. (p, x) \<in> set (unacked a) \<Longrightarrow> \<not> exhausted now (retx a) (max_attempts a) x"
    | (up) mid q o' suf where "unacked a = mid @ (q, o') # suf"
        "exhausted now (retx a) (max_attempts a) o'"
        "\<And>p x. (p, x) \<in> set mid \<Longrightarrow> \<not> exhausted now (retx a) (max_attempts a) x"
    using first_exhausted [of "unacked a" now "retx a" "max_attempts a"] by blast
  then show ?thesis
  proof cases
    case go
    have r: "r = Inr (due_frames now (retx a) (unacked a))"
      and a': "a' = a\<lparr>unacked := mark_due now (retx a) (unacked a)\<rparr>"
      using take_retransmits_go [OF wf go] tr by simp_all
    have "sender_inv ms S a'"
      unfolding a' using inv fl mark_due_plaintext
      by (intro sender_inv_same_plaintexts) (auto simp: in_flight_mark_due)
    moreover have "wire_ok ms T pt" if "pt \<in> set (due_frames now (retx a) (unacked a))" for pt
      using that unacked_on_wire [OF inv] by (auto simp: due_frames_def)
    ultimately show ?thesis using r a' by auto
  next
    case up
    have r: "r = Inl \<lparr>gu_seq = q, gu_attempts = og_attempts o'\<rparr>"
      and a': "a' = a\<lparr>unacked := mark_due now (retx a) mid @ (q, o') # suf\<rparr>"
      using take_retransmits_give_up [OF wf up] tr by simp_all
    have "in_flight (mark_due now (retx a) mid @ (q, o') # suf) \<le> 32"
      using fl in_flight_mark_due [of now "retx a" mid] by (simp add: up(1) in_flight_def)
    then have "sender_inv ms S a'"
      unfolding a' using inv mark_due_plaintext [of _ _ now "retx a" mid]
      by (intro sender_inv_same_plaintexts) (auto simp: up(1) dest: mark_due_plaintext)
    then show ?thesis using r a' by auto
  qed
qed

lemma acked_sound:
  assumes rel: "window_rel S n base bits" and near: "k < n + (2 ^ 32 - 1000000)" "n \<le> k + (2 ^ 32 - 64)"
    and "acked base bits (of_nat k)"
  shows "k \<in> S"
proof (cases "n < k + 1000000")
  case True
  then show ?thesis using acked_window [OF rel near(1)] assms(4) by simp
next
  case False
  have base: "base = of_nat n" using rel by (simp add: window_rel_def)
  have "unat (of_nat k - base :: u32) = 2 ^ 32 - (n - k)" "unat (base - of_nat k :: u32) = n - k"
    using seq_behind [of k n] seq_ahead [of k n] False near by (simp_all add: base)
  then have "\<not> acked base bits (of_nat k)"
    using False near by (auto simp: acked_def Let_def word_less_nat_alt)
  with assms(4) show ?thesis by simp
qed

lemma window_rel_base_le: "window_rel S n base bits \<Longrightarrow> S \<subseteq> {..<N} \<Longrightarrow> n \<le> N"
  unfolding window_rel_def by (meson lessThan_subset_iff subset_trans)

lemma in_flight_filter: "in_flight (filter P m) \<le> in_flight m"
  by (induction m) (auto simp: in_flight_def)

lemma on_ack_ok:
  assumes bnd: "bounded ms" and inv: "sender_inv ms S a" and S: "S \<subseteq> {..<length (slots ms)}"
    and rel: "window_rel S' n base bits" and sub: "S' \<subseteq> S"
  shows "sender_inv ms S (on_ack a base bits)"
proof -
  let ?N = "length (slots ms)"
  let ?m = "filter (\<lambda>e. \<not> acked base bits (fst e)) (unacked a)"
  have eq: "on_ack a base bits = a\<lparr>unacked := ?m\<rparr>"
    using on_ack_filter [of a base bits] by (simp add: on_ack_def)
  have n: "n \<le> ?N" using window_rel_base_le [OF rel] sub S by blast
  have "(of_nat k :: u32) \<in> fst ` set ?m" if k: "k < ?N" "k \<notin> S" for k
  proof -
    have "\<not> acked base bits (of_nat k)"
      using acked_sound [OF rel, of k] k n sub bnd by (auto simp: bounded_def)
    moreover have "(of_nat k :: u32) \<in> fst ` set (unacked a)" using inv k by (simp add: sender_inv_def)
    ultimately show ?thesis by force
  qed
  then show ?thesis
    using inv in_flight_filter [of "\<lambda>e. \<not> acked base bits (fst e)" "unacked a"]
    unfolding eq by (intro sender_invI) (auto simp: sender_inv_def bt_wf_filter)
qed

lemma store_fragment_send: "next_seq (store_fragment a f i t p) = next_seq a \<and>
  next_frag_id (store_fragment a f i t p) = next_frag_id a \<and> unacked (store_fragment a f i t p) = unacked a
  \<and> recv_base (store_fragment a f i t p) = recv_base a \<and> recv_bits (store_fragment a f i t p) = recv_bits a"
  by (simp add: store_fragment_def Let_def)

lemma on_data_send: "next_seq (on_data a q f i t p) = next_seq a \<and>
  next_frag_id (on_data a q f i t p) = next_frag_id a \<and> unacked (on_data a q f i t p) = unacked a"
proof -
  obtain r a1 where mr: "mark_received a q = (r, a1)" by (cases "mark_received a q")
  obtain x y where "a1 = a\<lparr>recv_base := x, recv_bits := y\<rparr>" using mark_received_frame [OF mr] by blast
  then show ?thesis by (cases r) (simp_all add: on_data_def mr store_fragment_send)
qed

lemma on_data_ok:
  assumes bnd: "bounded ms" and inv: "receiver_inv ms S R b"
    and n: "n < length (slots ms)" and s: "slots ms ! n = (j, i)"
  shows "\<exists>S'. S \<subseteq> S' \<and> receiver_inv ms S' R
    (on_data b (of_nat n) (fid ms j) (of_nat i) (of_nat (nfr (ms ! j))) (pieces (ms ! j) ! i))"
proof -
  let ?N = "length (slots ms)" and ?t = "of_nat (nfr (ms ! j)) :: u8"
  obtain n0 where rel: "window_rel S n0 (recv_base b) (recv_bits b)" "n0 \<notin> S" and S: "S \<subseteq> {..<?N}"
    and fr: "frags_rel ms (got ms S) (fragments b)" and de: "delivery_rel ms (got ms S) (R @ delivered b)"
    using inv by (auto simp: receiver_inv_def)
  obtain r b1 where mr: "mark_received b (of_nat n) = (r, b1)" by (cases "mark_received b (of_nat n)")
  obtain x y where b1: "b1 = b\<lparr>recv_base := x, recv_bits := y\<rparr>" using mark_received_frame [OF mr] by blast
  have near: "n0 \<le> n + (2 ^ 32 - 64)" "n < n0 + 2 ^ 32"
    using window_rel_base_le [OF rel(1) S] n bnd by (simp_all add: bounded_def)
  note win = mark_received_window [OF rel near mr]
  show ?thesis
  proof (cases r)
    case False
    then show ?thesis
      using win S fr de by (intro exI [of _ S]) (auto simp: on_data_def mr receiver_inv_def b1)
  next
    case True
    then have "n \<notin> S" using win by simp
    have ji: "j < length ms" "i < nfr (ms ! j)" using slots_nth [OF n s] by simp_all
    have new: "(j, i) \<notin> got ms S" using got_new [OF S n \<open>n \<notin> S\<close>] s by simp
    have A: "got ms (insert n S) = insert (j, i) (got ms S)" by (simp add: got_insert s)
    have S': "insert n S \<subseteq> {..<?N}" using S n by simp
    have win': "\<exists>n'. window_rel (insert n S) n' x y \<and> n' \<notin> insert n S" using win True by (simp add: b1)
    have "nfr (ms ! j) \<le> 255" using bnd ji by (simp add: bounded_def)
    then have one: "?t = 1 \<longleftrightarrow> nfr (ms ! j) = 1" by (simp add: word_unat_eq_iff unat_of_nat)
    show ?thesis
    proof (cases "nfr (ms ! j) = 1")
      case single: True
      then have "i = 0" using ji by simp
      then have "complete ms (insert (j, i) (got ms S)) j" using single by (simp add: complete_def)
      from delivery_complete [OF de ji(1) new ji(2) this] show ?thesis
        using True single S' win' one \<open>i = 0\<close> frags_single [OF fr single]
        by (intro exI [of _ "insert n S"])
          (auto simp: on_data_def mr receiver_inv_def b1 A pieces_single)
    next
      case False
      then have two: "2 \<le> nfr (ms ! j)" using nfr_pos [of "ms ! j"] by linarith
      have fr1: "frags_rel ms (got ms S) (fragments b1)" using fr by (simp add: b1)
      obtain fs where fs: "frags_rel ms (insert (j, i) (got ms S)) fs"
        "store_fragment b1 (fid ms j) (of_nat i) ?t (pieces (ms ! j) ! i) = b1\<lparr>fragments := fs,
          delivered := delivered b1 @ (if complete ms (insert (j, i) (got ms S)) j then [ms ! j] else [])\<rparr>"
        using store_fragment_rel [OF bnd fr1 ji two new] by blast
      moreover have "delivery_rel ms (insert (j, i) (got ms S)) (R @ delivered b @
          (if complete ms (insert (j, i) (got ms S)) j then [ms ! j] else []))"
        using delivery_complete [OF de ji(1) new ji(2)] delivery_incomplete [OF de, of j i] by auto
      ultimately show ?thesis
        using True False S' win' one
        by (intro exI [of _ "insert n S"]) (auto simp: on_data_def mr receiver_inv_def b1 A)
    qed
  qed
qed

section \<open>The invariant of the system\<close>

definition duplex_inv :: "(bool \<Rightarrow> nat set) \<Rightarrow> duplex \<Rightarrow> bool" where
  "duplex_inv S s \<longleftrightarrow> (\<forall>x. sender_inv (queued s x) (S x) (endpoint s x) \<and>
     receiver_inv (queued s x) (S x) (received s (\<not> x)) (endpoint s (\<not> x)) \<and>
     (\<forall>pt \<in> wire s x. wire_ok (queued s x) (S (\<not> x)) pt))"

lemma duplex_invD:
  assumes "duplex_inv S s"
  shows "sender_inv (queued s x) (S x) (endpoint s x)"
    and "receiver_inv (queued s (\<not> x)) (S (\<not> x)) (received s x) (endpoint s x)"
    and "pt \<in> wire s (\<not> x) \<Longrightarrow> wire_ok (queued s (\<not> x)) (S x) pt"
    and "S x \<subseteq> {..<length (slots (queued s x))}"
proof -
  show "receiver_inv (queued s (\<not> x)) (S (\<not> x)) (received s x) (endpoint s x)"
    using assms [unfolded duplex_inv_def, rule_format, of "\<not> x"] by simp
  show "wire_ok (queued s (\<not> x)) (S x) pt" if "pt \<in> wire s (\<not> x)"
    using assms [unfolded duplex_inv_def, rule_format, of "\<not> x"] that by simp
qed (use assms in \<open>auto simp: duplex_inv_def receiver_inv_def\<close>)

text \<open>A step of endpoint \<open>x\<close> that leaves the message lists alone: new endpoint state,
  new datagrams, and a larger set of frames received by \<open>x\<close>.\<close>

lemma duplex_inv_local:
  assumes inv: "duplex_inv S s" and sub: "S (\<not> x) \<subseteq> T"
    and snd: "sender_inv (queued s x) (S x) a"
    and rcv: "receiver_inv (queued s (\<not> x)) T R a"
    and out: "\<And>pt. pt \<in> ps \<Longrightarrow> wire_ok (queued s x) T pt"
  shows "duplex_inv (S(\<not> x := T)) ((emit (set_ep s x a) x ps)\<lparr>received := (received s)(x := R)\<rparr>)"
  unfolding duplex_inv_def
proof (intro allI)
  fix y
  let ?s = "(emit (set_ep s x a) x ps)\<lparr>received := (received s)(x := R)\<rparr>" and ?S = "S(\<not> x := T)"
  have sel: "queued ?s = queued s" "endpoint ?s = (endpoint s)(x := a)"
    "received ?s = (received s)(x := R)" "wire ?s = (wire s)(x := wire s x \<union> ps)"
    by (simp_all add: emit_def set_ep_def)
  note D = duplex_invD [OF inv]
  show "sender_inv (queued ?s y) (?S y) (endpoint ?s y) \<and>
     receiver_inv (queued ?s y) (?S y) (received ?s (\<not> y)) (endpoint ?s (\<not> y)) \<and>
     (\<forall>pt \<in> wire ?s y. wire_ok (queued ?s y) (?S (\<not> y)) pt)"
  proof (cases "y = x")
    case True
    have "receiver_inv (queued s x) (S x) (received s (\<not> x)) (endpoint s (\<not> x))"
      using D(2) [of "\<not> x"] by simp
    moreover have "wire_ok (queued s x) T pt" if "pt \<in> wire s x" for pt
      using D(3) [of pt "\<not> x"] that wire_ok_mono [OF _ sub] by simp
    ultimately show ?thesis using True snd out by (auto simp: sel)
  next
    case False
    then have y: "y = (\<not> x)" by simp
    have "sender_inv (queued s (\<not> x)) T (endpoint s (\<not> x))"
      using D(1) [of "\<not> x"] sender_inv_mono [OF _ sub] by blast
    then show ?thesis using D(3) [of _ x] rcv by (auto simp: sel y)
  qed
qed

lemma enqueue_chunks_recv:
  "recv_base (enqueue_chunks f t i cs a) = recv_base a \<and> recv_bits (enqueue_chunks f t i cs a) = recv_bits a
   \<and> fragments (enqueue_chunks f t i cs a) = fragments a
   \<and> delivered (enqueue_chunks f t i cs a) = delivered a"
  by (induction f t i cs a rule: enqueue_chunks.induct) (simp_all add: Let_def)

lemma enqueue_recv:
  assumes "enqueue a m = (r, a')"
  shows "receiver_inv ms S R a' \<longleftrightarrow> receiver_inv ms S R a"
  using assms by (intro receiver_inv_cong)
    (auto simp: enqueue_def enqueue_one_def bump_frag_id_def Let_def enqueue_chunks_recv split: if_splits)

lemma duplex_inv_enqueue:
  assumes inv: "duplex_inv S s" and enq: "enqueue (endpoint s x) m = (Inr (), a)"
    and bnd: "bounded (queued s x @ [m])"
  shows "duplex_inv S ((set_ep s x a)\<lparr>queued := (queued s)(x := queued s x @ [m])\<rparr>)"
proof -
  note D = duplex_invD [OF inv]
  have rx: "receiver_inv (queued s (\<not> x)) (S (\<not> x)) (received s x) a"
    using D(2) [of x] by (simp add: enqueue_recv [OF enq])
  have "sender_inv (queued s x @ [m]) (S x) a"
    by (rule sender_inv_enqueue [OF bnd D(1) enq])
  moreover have "receiver_inv (queued s x @ [m]) (S x) (received s (\<not> x)) (endpoint s (\<not> x))"
    using D(2) [of "\<not> x"] by (simp add: receiver_inv_snoc)
  ultimately show ?thesis
    using inv rx wire_ok_snoc [of "queued s x" _ _ m] D(3) [of _ x]
    by (auto simp: duplex_inv_def set_ep_def)
qed

lemma ingest_ok:
  assumes bndA: "bounded A" and bndB: "bounded B"
    and snd: "sender_inv A S a" and SA: "S \<subseteq> {..<length (slots A)}"
    and rcv: "receiver_inv B T R a" and pt: "wire_ok B S pt" and ing: "ingest a pt = (Inr r, a')"
  shows "\<exists>T'. T \<subseteq> T' \<and> sender_inv A S a' \<and> receiver_inv B T' R a' \<and> (\<forall>k \<in> set_option r. wire_ok A T' k)"
proof -
  consider (data) n where "n < length (slots B)" "pt = frame_bytes B n"
    | (ack) base bits S' n where "pt = encode_ack base bits" "S' \<subseteq> S" "window_rel S' n base bits"
    using pt unfolding wire_ok_def by blast
  then show ?thesis
  proof cases
    case data
    obtain j i where s: "slots B ! n = (j, i)" by (cases "slots B ! n")
    let ?a = "on_data a (of_nat n) (fid B j) (of_nat i) (of_nat (nfr (B ! j))) (pieces (B ! j) ! i)"
    have a': "a' = ?a\<lparr>pending_ack := True\<rparr>" "r = Some (encode_ack (recv_base ?a) (recv_bits ?a))"
      using ing frame_decodes [OF bndB data(1) s] by (simp_all add: ingest_def data(2) Let_def)
    obtain T' where T': "T \<subseteq> T'" "receiver_inv B T' R ?a"
      using on_data_ok [OF bndB rcv data(1) s] by blast
    have "sender_inv A S a'"
      using snd sender_inv_cong [of a' a] on_data_send by (simp add: a')
    moreover have "receiver_inv B T' R a'"
      using T'(2) receiver_inv_cong [of a' ?a] by (simp add: a')
    moreover have "wire_ok A T' (encode_ack (recv_base ?a) (recv_bits ?a))"
      using T'(2) unfolding wire_ok_def receiver_inv_def by blast
    ultimately show ?thesis using T'(1) a'(2) by auto
  next
    case ack
    have a': "a' = on_ack a base bits" "r = None" using ing by (simp_all add: ingest_def ack(1) decode_encode_ack [where rest = "[]", simplified])
    have "sender_inv A S a'" unfolding a' by (rule on_ack_ok [OF bndA snd SA ack(3,2)])
    moreover have "receiver_inv B T R a'"
      using rcv receiver_inv_cong [of a' a] by (simp add: a' on_ack_def)
    ultimately show ?thesis using a'(2) by auto
  qed
qed

lemma duplex_inv_quiet:
  assumes inv: "duplex_inv S s"
    and snd: "sender_inv (queued s x) (S x) a" and un: "a = (endpoint s x)\<lparr>unacked := m\<rparr>"
    and out: "\<And>pt. pt \<in> ps \<Longrightarrow> wire_ok (queued s x) (S (\<not> x)) pt"
  shows "duplex_inv S (emit (set_ep s x a) x ps)"
proof -
  have "receiver_inv (queued s (\<not> x)) (S (\<not> x)) (received s x) a"
    using duplex_invD(2) [OF inv, of x] receiver_inv_cong [of a "endpoint s x"] by (simp add: un)
  from duplex_inv_local [OF inv subset_refl snd this out] show ?thesis
    by (simp add: emit_def set_ep_def)
qed

lemma delivery_head:
  "receiver_inv ms S R (a\<lparr>delivered := m # ds\<rparr>) \<longleftrightarrow> receiver_inv ms S (R @ [m]) (a\<lparr>delivered := ds\<rparr>)"
  by (simp add: receiver_inv_def)

lemma emit_nothing: "emit s x {} = s"
  by (simp add: emit_def)

lemma duplex_inv_step:
  assumes "duplex_step s t" and inv: "duplex_inv S s" and bnd: "\<And>x. bounded (queued t x)"
  shows "\<exists>S. duplex_inv S t"
  using assms(1)
proof cases
  case (d_enqueue x m a)
  have "bounded (queued s x @ [m])" using bnd [of x] by (simp add: d_enqueue(1) set_ep_def)
  then show ?thesis using duplex_inv_enqueue [OF inv d_enqueue(2)] d_enqueue(1) by blast
next
  case (d_new_sends x now out a)
  let ?T = "S (\<not> x)"
  have D: "sender_inv (queued s x) (S x) a" "\<forall>pt \<in> set out. wire_ok (queued s x) ?T pt"
    "\<exists>m. a = (endpoint s x)\<lparr>unacked := m\<rparr>"
    using new_sends_ok [OF duplex_invD(1) [OF inv, of x] d_new_sends(2), of ?T] by auto
  then obtain m where "a = (endpoint s x)\<lparr>unacked := m\<rparr>" by blast
  from duplex_inv_quiet [OF inv D(1) this, of "set out"] D(2) show ?thesis
    unfolding d_new_sends(1) by blast
next
  case (d_retransmits x now out a)
  let ?T = "S (\<not> x)"
  have D: "sender_inv (queued s x) (S x) a" "\<forall>pt \<in> set out. wire_ok (queued s x) ?T pt"
    "\<exists>m. a = (endpoint s x)\<lparr>unacked := m\<rparr>"
    using retransmits_ok [OF duplex_invD(1) [OF inv, of x] d_retransmits(2), of ?T] by auto
  then obtain m where "a = (endpoint s x)\<lparr>unacked := m\<rparr>" by blast
  from duplex_inv_quiet [OF inv D(1) this, of "set out"] D(2) show ?thesis
    unfolding d_retransmits(1) by blast
next
  case (d_give_up x now g a)
  have D: "sender_inv (queued s x) (S x) a" "\<exists>m. a = (endpoint s x)\<lparr>unacked := m\<rparr>"
    using retransmits_ok [OF duplex_invD(1) [OF inv, of x] d_give_up(2)] by auto
  then obtain m where "a = (endpoint s x)\<lparr>unacked := m\<rparr>" by blast
  from duplex_inv_quiet [OF inv D(1) this, of "{}"] show ?thesis
    unfolding d_give_up(1) emit_nothing by blast
next
  case (d_deliver pt x r a)
  have b: "bounded (queued s y)" for y using bnd [of y] by (simp add: d_deliver(1) emit_def set_ep_def)
  obtain T where T: "S (\<not> x) \<subseteq> T" "sender_inv (queued s x) (S x) a"
     "receiver_inv (queued s (\<not> x)) T (received s x) a" "\<forall>k \<in> set_option r. wire_ok (queued s x) T k"
    using ingest_ok [OF b b duplex_invD(1,4,2) [OF inv] duplex_invD(3) [OF inv d_deliver(2)] d_deliver(3)]
    by blast
  from duplex_inv_local [OF inv T(1,2,3), of "set_option r"] T(4)
  have "duplex_inv (S(\<not> x := T)) (emit (set_ep s x a) x (set_option r))"
    by (simp add: emit_def set_ep_def)
  then show ?thesis using d_deliver(1) by blast
next
  case (d_take_ack x k a)
  note D = duplex_invD [OF inv]
  have a: "a = (endpoint s x)\<lparr>pending_ack := pending_ack a\<rparr>" and
    k: "\<forall>pt \<in> set_option k. pt = encode_ack (recv_base (endpoint s x)) (recv_bits (endpoint s x))"
    using d_take_ack(2) by (auto simp: take_ack_def split: if_splits)
  have "sender_inv (queued s x) (S x) a" using D(1) [of x] a sender_inv_cong by (metis arq.ext_inject arq.surjective arq.update_convs(8))
  moreover have "receiver_inv (queued s (\<not> x)) (S (\<not> x)) (received s x) a"
    using D(2) [of x] a receiver_inv_cong by (metis arq.ext_inject arq.surjective arq.update_convs(8))
  moreover have "wire_ok (queued s x) (S (\<not> x)) pt" if "pt \<in> set_option k" for pt
    using k that D(2) [of x] unfolding wire_ok_def receiver_inv_def by blast
  ultimately have "duplex_inv S (emit (set_ep s x a) x (set_option k))"
    using duplex_inv_local [OF inv subset_refl, of x a "received s x" "set_option k"]
    by (simp add: emit_def set_ep_def)
  then show ?thesis using d_take_ack(1) by blast
next
  case (d_pop x m a)
  note D = duplex_invD [OF inv, where x = x]
  obtain ds where ds: "delivered (endpoint s x) = m # ds" "a = (endpoint s x)\<lparr>delivered := ds\<rparr>"
    using d_pop(2) by (auto simp: pop_delivered_def split: list.splits)
  have "sender_inv (queued s x) (S x) a" using D(1) sender_inv_cong [of a "endpoint s x"] by (simp add: ds)
  moreover have "receiver_inv (queued s (\<not> x)) (S (\<not> x)) (received s x @ [m]) a"
    using D(2) by (simp add: ds receiver_inv_def)
  ultimately have "duplex_inv S ((set_ep s x a)\<lparr>received := (received s)(x := received s x @ [m])\<rparr>)"
    using duplex_inv_local [OF inv subset_refl, of x a "received s x @ [m]" "{}"]
    by (simp add: emit_nothing)
  then show ?thesis using d_pop(1) by blast
next
  case (d_set_retx x d)
  note D = duplex_invD [OF inv, where x = x]
  let ?a = "set_retx (endpoint s x) d"
  have "sender_inv (queued s x) (S x) ?a" "receiver_inv (queued s (\<not> x)) (S (\<not> x)) (received s x) ?a"
    using D(1,2) sender_inv_cong [of ?a "endpoint s x"] receiver_inv_cong [of ?a "endpoint s x"]
    by (simp_all add: set_retx_def)
  from duplex_inv_local [OF inv subset_refl this, of "{}"] show ?thesis
    unfolding d_set_retx by (auto simp: emit_nothing set_ep_def)
qed

section \<open>Exactly-once delivery\<close>

lemma queued_step:
  assumes "duplex_step s t"
  shows "queued t x = queued s x \<or> (\<exists>m. queued t x = queued s x @ [m])"
  using assms by cases (auto simp: emit_def set_ep_def)

lemma bounded_step: "duplex_step s t \<Longrightarrow> bounded (queued t x) \<Longrightarrow> bounded (queued s x)"
  using queued_step [of s t x] bounded_snocD by metis

lemma duplex_inv_init: "duplex_inv (\<lambda>_. {}) duplex_init"
proof -
  have s: "slots [] = []" by simp
  have "sender_inv [] {} arq_new"
    by (simp add: sender_inv_def arq_new_def nonempty_def bt_wf_def in_flight_def)
  moreover have "window_rel {} 0 0 0" by (simp add: window_rel_def)
  then have "receiver_inv [] {} [] arq_new"
    by (auto simp: receiver_inv_def arq_new_def frags_rel_def delivery_rel_def got_def open_buf_def
        hm_wf_def)
  ultimately show ?thesis by (simp add: duplex_inv_def duplex_init_def)
qed

definition system_inv :: "duplex \<Rightarrow> bool" where
  "system_inv s \<longleftrightarrow> ((\<forall>x. bounded (queued s x)) \<longrightarrow> (\<exists>S. duplex_inv S s))"

interpretation duplex_machine: step_invariant duplex_init duplex_step system_inv
proof unfold_locales
  show "system_inv duplex_init" using duplex_inv_init by (auto simp: system_inv_def)
  show "system_inv t" if "duplex_step s t" "system_inv s" for s t
    using that bounded_step [OF that(1)] duplex_inv_step [OF that(1)] unfolding system_inv_def by blast
qed

lemma reachable_duplex_inv:
  assumes "duplex_reachable s" and "bounded (queued s True)" and "bounded (queued s False)"
  shows "\<exists>S. duplex_inv S s"
proof -
  have "bounded (queued s y)" for y using assms(2,3) by (cases y) auto
  then show ?thesis using duplex_machine.reach_inv [OF assms(1)] by (simp add: system_inv_def)
qed

lemma delivery_rel_subset:
  assumes "delivery_rel ms A D"
  shows "mset D \<subseteq># mset ms"
proof -
  obtain js where js: "distinct js" "set js \<subseteq> {..<length ms}" "D = map (\<lambda>j. ms ! j) js"
    using assms by (auto simp: delivery_rel_def)
  have "mset js \<subseteq># mset [0..<length ms]"
    using subset_imp_msubset_mset_set [of "set js" "{..<length ms}"] js(1,2)
    by (metis atLeast_upt distinct_upt finite_lessThan mset_set_set)
  then have "image_mset ((!) ms) (mset js) \<subseteq># image_mset ((!) ms) (mset [0..<length ms])"
    by (rule image_mset_subseteq_mono)
  moreover have "image_mset ((!) ms) (mset [0..<length ms]) = mset ms"
    by (metis map_nth mset_map)
  ultimately show ?thesis by (simp add: js(3))
qed

lemma delivery_rel_all:
  assumes "delivery_rel ms A D" and "set (slots ms) \<subseteq> A"
  shows "mset D = mset ms"
proof -
  obtain js where js: "distinct js" "set js = {j. j < length ms \<and> complete ms A j}"
    "D = map (\<lambda>j. ms ! j) js" using assms(1) by (auto simp: delivery_rel_def)
  have "complete ms A j" if "j < length ms" for j
    using assms(2) that set_slots [of j _ ms] by (auto simp: complete_def)
  then have "set js = set [0..<length ms]" using js(2) by auto
  then have "mset js = mset [0..<length ms]" using js(1) set_eq_iff_mset_eq_distinct [of js "[0..<length ms]"] by simp
  then have "mset D = mset (map ((!) ms) [0..<length ms])" by (simp add: js(3))
  then show ?thesis by (simp add: map_nth)
qed

lemma duplex_inv_acked:
  assumes "duplex_inv S s" and "unacked (endpoint s x) = []"
  shows "mset (received s (\<not> x) @ delivered (endpoint s (\<not> x))) = mset (queued s x)"
proof -
  have snd: "sender_inv (queued s x) (S x) (endpoint s x)"
    and rcv: "receiver_inv (queued s x) (S x) (received s (\<not> x)) (endpoint s (\<not> x))"
    using assms(1) by (simp_all add: duplex_inv_def)
  have "{..<length (slots (queued s x))} \<subseteq> S x"
    using snd assms(2) by (auto simp: sender_inv_def)
  then have "set (slots (queued s x)) \<subseteq> got (queued s x) (S x)"
    unfolding got_def subset_iff in_set_conv_nth by (metis image_eqI lessThan_iff)
  then show ?thesis using rcv delivery_rel_all unfolding receiver_inv_def by blast
qed

lemmas duplex_reach_step = reach_step [where init = duplex_init and step = duplex_step]
lemmas duplex_reach_init = reach_init [where init = duplex_init and step = duplex_step]

text \<open>The end of the concrete run: the byte is delivered and acknowledged.\<close>

definition run_end :: duplex where
  "run_end = \<lparr>endpoint = (\<lambda>x. if x then (run_sender (Some 0) 1)\<lparr>unacked := []\<rparr> else run_receiver),
     wire = (\<lambda>x. if x then {run_frame} else {encode_ack 1 0}),
     queued = (\<lambda>x. if x then [[104]] else []), received = (\<lambda>_. [])\<rparr>"

lemma run_end_reachable: "duplex_reachable run_end"
proof -
  let ?s1 = "(set_ep duplex_init True (run_sender None 0))\<lparr>queued := (queued duplex_init)(True := queued duplex_init True @ [[104]])\<rparr>"
  let ?s2 = "emit (set_ep ?s1 True (run_sender (Some 0) 1)) True (set [run_frame])"
  let ?s3 = "emit (set_ep ?s2 False run_receiver) False (set_option (Some (encode_ack 1 0)))"
  let ?s4 = "emit (set_ep ?s3 True ((run_sender (Some 0) 1)\<lparr>unacked := []\<rparr>)) True (set_option None)"
  have st1: "duplex_step duplex_init ?s1"
    by (rule d_enqueue) (simp add: duplex_init_def run_enqueue)
  have st2: "duplex_step ?s1 ?s2"
    by (rule d_new_sends [where now = 0]) (simp add: set_ep_def run_new_sends)
  have st3: "duplex_step ?s2 ?s3"
    by (rule d_deliver [where pt = run_frame]) (simp_all add: set_ep_def emit_def duplex_init_def run_ingest_data)
  have st4: "duplex_step ?s3 ?s4"
    by (rule d_deliver [where pt = "encode_ack 1 0"]) (simp_all add: set_ep_def emit_def duplex_init_def run_ingest_ack)
  note r1 = duplex_reach_step [OF reach_init [of duplex_init duplex_step] st1]
  note r2 = duplex_reach_step [OF r1 st2]
  note r3 = duplex_reach_step [OF r2 st3]
  have "duplex_reachable ?s4" by (rule duplex_reach_step [OF r3 st4])
  moreover have "?s4 = run_end"
    by (simp add: run_end_def duplex_init_def set_ep_def emit_def fun_upd_def cong: if_cong)
  ultimately show ?thesis by simp
qed

lemma run_end_bounded: "bounded (queued run_end x)"
  by (simp add: run_end_def bounded_def slots_def nonempty_def pieces_def chunks.simps MAX_PAYLOAD_def)

text \<open>
  C3: safety of the ARQ over any network.  In every reachable state of two endpoints
  joined by a network that loses, reorders and duplicates datagrams at will, the messages
  the receiver's application has taken or can take are, counted with multiplicity, among
  those the sender queued: nothing is invented, altered, or delivered twice.  This holds
  while a direction has used fewer than \<open>2 ^ 32 - 10 ^ 6\<close> sequence numbers and 65535
  fragment ids.
\<close>
theorem delivery_at_most_once:
  assumes "duplex_reachable s" and "bounded (queued s True)" and "bounded (queued s False)"
  shows "mset (received s (\<not> x) @ delivered (endpoint s (\<not> x))) \<subseteq># mset (queued s x)"
proof -
  obtain S where "duplex_inv S s" using reachable_duplex_inv [OF assms(1-3)] by blast
  then show ?thesis unfolding duplex_inv_def receiver_inv_def by (meson delivery_rel_subset)
qed

theorem delivery_at_most_once_witness:
  "duplex_reachable run_end \<and> mset (received run_end False @ delivered (endpoint run_end False)) \<subseteq># {#[104]#}"
  using delivery_at_most_once [OF run_end_reachable run_end_bounded run_end_bounded, of True] run_end_reachable
  by (simp add: run_end_def)

text \<open>
  C4: an empty retransmission queue means delivery.  Under the same conditions, when a
  sender has no unacknowledged frame left (what \<open>wait_acked\<close> waits for), the receiver has
  delivered exactly the messages that were queued, each exactly once.
\<close>
theorem acked_means_delivered:
  assumes "duplex_reachable s" and "bounded (queued s True)" and "bounded (queued s False)"
    and "unacked_len (endpoint s x) = 0"
  shows "mset (received s (\<not> x) @ delivered (endpoint s (\<not> x))) = mset (queued s x)"
proof -
  obtain S where "duplex_inv S s" using reachable_duplex_inv [OF assms(1-3)] by blast
  then show ?thesis using duplex_inv_acked assms(4) by (auto simp: unacked_len_def)
qed

theorem acked_means_delivered_witness:
  "unacked_len (endpoint run_end True) = 0 \<and> mset (received run_end False @ delivered (endpoint run_end False)) = {#[104]#}"
proof -
  have z: "unacked_len (endpoint run_end True) = 0" by (simp add: run_end_def unacked_len_def)
  from acked_means_delivered [OF run_end_reachable run_end_bounded run_end_bounded z] z show ?thesis
    by (simp add: run_end_def)
qed

end
