(* ===== verification/Ppose_Session_System.thy ===== *)
theory Ppose_Session_System
  imports Ppose_Session_Run Ppose_Arq_System
begin

text \<open>
  Two sessions end to end.  The public calls of a session are sequences of the actions below
  (queue a message, flush, cover, read the clock, receive, handle a datagram, pop a message,
  change a setting), so two sessions that run at the same time are an interleaving of such
  actions.  The network is arbitrary: each session's world decides what bytes arrive.  What
  is assumed of the Noise transport is its authenticity, as a guard on the one action where
  it matters: a datagram opens only to a plaintext that the other session has handed to its
  transport.  Under that guard two sessions implement the abstract system of
  \<open>Ppose_Arq_System\<close>, and its guarantees hold for what the applications send and receive.
\<close>

section \<open>The actions of a session\<close>

datatype action =
    AQueue bytes
  | AFlush
  | ACover
  | AClock
  | ASkip
  | AIncoming bytes
  | APop bytes
  | ASet

inductive sess_step ::
  "('np, 'hs, 'ts, 'sk, 'pk) env \<Rightarrow> action \<Rightarrow> ('hs, 'ts, 'pk) udp_session \<Rightarrow> world
     \<Rightarrow> ('hs, 'ts, 'pk) udp_session \<Rightarrow> world \<Rightarrow> bool" for E where
  do_queue: "enqueue (s_arq s) m = (Inr (), a) \<Longrightarrow> sess_step E (AQueue m) s w (s\<lparr>s_arq := a\<rparr>) w"
| do_flush: "flush E s w = Some (r, s', w') \<Longrightarrow> sess_step E AFlush s w s' w'"
| do_cover: "maybe_cover E s w = (r, s', w') \<Longrightarrow> sess_step E ACover s w s' w'"
| do_clock: "instant_now w = (t, w') \<Longrightarrow> sess_step E AClock s w s w'"
| do_skip: "recv_raw w = (x, w') \<Longrightarrow> sess_step E ASkip s w s w'"
| do_incoming: "recv_raw w = (Inr (raw, next_hop s), w1) \<Longrightarrow> handle_incoming E raw s w1 = (r, s', w') \<Longrightarrow>
     sess_step E (AIncoming raw) s w s' w'"
| do_pop: "pop_delivered (s_arq s) = (Some m, a) \<Longrightarrow> sess_step E (APop m) s w (s\<lparr>s_arq := a\<rparr>) w"
| do_set_retx: "sess_step E ASet s w (set_retx_timeout d s) w"
| do_set_cover: "set_cover mode s w = (s', w') \<Longrightarrow> sess_step E ASet s w s' w'"
| do_drop_data: "sess_step E ASet s w (debug_drop_data n s) w"
| do_set_onion: "set_outbound_onion hops dest s = (r, s') \<Longrightarrow> sess_step E ASet s w s' w"

text \<open>The actions inside a call: everything but queueing, popping and settings.\<close>

fun inner :: "action \<Rightarrow> bool" where
  "inner (AQueue m) \<longleftrightarrow> False"
| "inner (APop m) \<longleftrightarrow> False"
| "inner ASet \<longleftrightarrow> False"
| "inner act \<longleftrightarrow> True"

inductive inner_steps ::
  "('np, 'hs, 'ts, 'sk, 'pk) env \<Rightarrow> ('hs, 'ts, 'pk) udp_session \<Rightarrow> world
     \<Rightarrow> ('hs, 'ts, 'pk) udp_session \<Rightarrow> world \<Rightarrow> bool" for E where
  inner_refl: "inner_steps E s w s w"
| inner_step: "sess_step E act s w s1 w1 \<Longrightarrow> inner act \<Longrightarrow> inner_steps E s1 w1 s' w' \<Longrightarrow> inner_steps E s w s' w'"

lemma inner_one: "sess_step E act s w s' w' \<Longrightarrow> inner act \<Longrightarrow> inner_steps E s w s' w'"
  by (blast intro: inner_refl inner_step)

lemma inner_trans: "inner_steps E s w s1 w1 \<Longrightarrow> inner_steps E s1 w1 s2 w2 \<Longrightarrow> inner_steps E s w s2 w2"
  by (induction rule: inner_steps.induct) (auto intro: inner_step)

lemma inner_clock: "inner_steps E s w s (w\<lparr>clock_no := Suc (clock_no w)\<rparr>)"
  by (rule inner_one [OF do_clock]) (simp_all add: instant_now_def)

lemma inner_pump:
  assumes "pump E d s w = (r, s', w')"
  shows "inner_steps E s w s' w'"
proof -
  obtain x w1 where rr: "recv_raw w = (x, w1)" by (cases "recv_raw w")
  consider "s' = s" "w' = w" | "s' = s" "w' = w1"
    | raw where "x = Inr (raw, next_hop s)" "handle_incoming E raw s w1 = (r, s', w')"
    using assms by (cases x) (auto simp: pump_def rr split: sum.splits if_splits)
  then show ?thesis
  proof cases
    case 1
    then show ?thesis by (simp add: inner_refl)
  next
    case 2
    then show ?thesis using inner_one [OF do_skip [OF rr]] by simp
  next
    case 3
    then show ?thesis using inner_one [OF do_incoming] rr by simp
  qed
qed

interpretation actions: loop_contract "inner_steps E" E for E
proof unfold_locales
  fix s s1 s2 :: "('b, 'c, 'e) udp_session" and w w1 w2 r d
  show "inner_steps E s w s w" by (rule inner_refl)
  show "inner_steps E s w s1 w1 \<Longrightarrow> inner_steps E s1 w1 s2 w2 \<Longrightarrow> inner_steps E s w s2 w2" by (rule inner_trans)
  show "inner_steps E s w s (w\<lparr>clock_no := Suc (clock_no w)\<rparr>)" by (rule inner_clock)
  show "flush E s w = Some (r, s1, w1) \<Longrightarrow> inner_steps E s w s1 w1" by (rule inner_one [OF do_flush]) simp_all
  show "maybe_cover E s w = (r, s1, w1) \<Longrightarrow> inner_steps E s w s1 w1" by (rule inner_one [OF do_cover]) simp_all
  show "pump E d s w = (r, s1, w1) \<Longrightarrow> inner_steps E s w s1 w1" by (rule inner_pump)
qed

section \<open>Two sessions\<close>

text \<open>The frames an action hands to the Noise transport.\<close>

definition flush_frames ::
  "('np, 'hs, 'ts, 'sk, 'pk) env \<Rightarrow> ('hs, 'ts, 'pk) udp_session \<Rightarrow> world \<Rightarrow> bytes set" where
  "flush_frames E s w =
     (case instant_now w of (now, w1) \<Rightarrow>
      case take_new_sends (s_arq s) now of
        None \<Rightarrow> {}
      | Some (news, a1) \<Rightarrow>
          set news \<union>
          (if isl (fst (seal_all E news (s\<lparr>s_arq := a1\<rparr>) w1)) then {}
           else case take_retransmits a1 now of Some (Inr retrx, a2) \<Rightarrow> set retrx | _ \<Rightarrow> {}))"

text \<open>The plaintext a datagram opens to.\<close>

definition opened :: "('np, 'hs, 'ts, 'sk, 'pk) env \<Rightarrow> bytes \<Rightarrow> ('hs, 'ts, 'pk) udp_session \<Rightarrow> bytes option" where
  "opened E raw s =
     (case decode_incoming (via_relay s) raw of
        Inr (Data, body, other) \<Rightarrow>
          (case noise_open (e_snow E) body (length body) (s_noise s) of (Inr pt, n) \<Rightarrow> Some pt | _ \<Rightarrow> None)
      | _ \<Rightarrow> None)"

definition ack_frames :: "bytes option \<Rightarrow> arq \<Rightarrow> bytes set" where
  "ack_frames pt a = (case pt of None \<Rightarrow> {} | Some p \<Rightarrow> (case ingest a p of (Inr r, _) \<Rightarrow> set_option r | _ \<Rightarrow> {}))"

fun handed ::
  "('np, 'hs, 'ts, 'sk, 'pk) env \<Rightarrow> action \<Rightarrow> ('hs, 'ts, 'pk) udp_session \<Rightarrow> world \<Rightarrow> bytes set" where
  "handed E AFlush s w = flush_frames E s w"
| "handed E (AIncoming raw) s w = ack_frames (opened E raw s) (s_arq s)"
| "handed E act s w = {}"

fun queues :: "action \<Rightarrow> bytes list" where
  "queues (AQueue m) = [m]"
| "queues act = []"

fun pops :: "action \<Rightarrow> bytes list" where
  "pops (APop m) = [m]"
| "pops act = []"

text \<open>The guard: what opens was handed to the transport on the other side.\<close>

fun authentic ::
  "('np, 'hs, 'ts, 'sk, 'pk) env \<Rightarrow> action \<Rightarrow> ('hs, 'ts, 'pk) udp_session \<Rightarrow> bytes set \<Rightarrow> bool" where
  "authentic E (AIncoming raw) s K \<longleftrightarrow> (\<forall>pt. opened E raw s = Some pt \<longrightarrow> pt \<in> K)"
| "authentic E act s K \<longleftrightarrow> True"

record ('hs, 'ts, 'pk) pair =
  p_sess :: "bool \<Rightarrow> ('hs, 'ts, 'pk) udp_session"
  p_world :: "bool \<Rightarrow> world"
  p_sealed :: "bool \<Rightarrow> bytes set"
  p_queued :: "bool \<Rightarrow> bytes list"
  p_got :: "bool \<Rightarrow> bytes list"

definition pair_init :: "(bool \<Rightarrow> ('hs, 'ts, 'pk) udp_session) \<Rightarrow> (bool \<Rightarrow> world) \<Rightarrow> ('hs, 'ts, 'pk) pair" where
  "pair_init ss ws = \<lparr>p_sess = ss, p_world = ws, p_sealed = (\<lambda>_. {}), p_queued = (\<lambda>_. []), p_got = (\<lambda>_. [])\<rparr>"

definition pair_do ::
  "('np, 'hs, 'ts, 'sk, 'pk) env \<Rightarrow> bool \<Rightarrow> action \<Rightarrow> ('hs, 'ts, 'pk) udp_session \<Rightarrow> world
     \<Rightarrow> ('hs, 'ts, 'pk) pair \<Rightarrow> ('hs, 'ts, 'pk) pair" where
  "pair_do E x act s w p = \<lparr>
     p_sess = (p_sess p)(x := s), p_world = (p_world p)(x := w),
     p_sealed = (p_sealed p)(x := p_sealed p x \<union> handed E act (p_sess p x) (p_world p x)),
     p_queued = (p_queued p)(x := p_queued p x @ queues act), p_got = (p_got p)(x := p_got p x @ pops act)\<rparr>"

inductive pair_step ::
  "(bool \<Rightarrow> ('np, 'hs, 'ts, 'sk, 'pk) env) \<Rightarrow> ('hs, 'ts, 'pk) pair \<Rightarrow> ('hs, 'ts, 'pk) pair \<Rightarrow> bool" for E where
  pair_act: "sess_step (E x) act (p_sess p x) (p_world p x) s w \<Longrightarrow> authentic (E x) act (p_sess p x) (p_sealed p (\<not> x)) \<Longrightarrow>
     pair_step E p (pair_do (E x) x act s w p)"

section \<open>The sessions implement the two endpoints\<close>

definition pair_abs :: "('hs, 'ts, 'pk) pair \<Rightarrow> duplex" where
  "pair_abs p = \<lparr>endpoint = (\<lambda>x. s_arq (p_sess p x)), wire = p_sealed p, queued = p_queued p, received = p_got p\<rparr>"

lemma pair_abs_do:
  "pair_abs (pair_do E x act s w p) = \<lparr>
     endpoint = (endpoint (pair_abs p))(x := s_arq s),
     wire = (wire (pair_abs p))(x := wire (pair_abs p) x \<union> handed E act (p_sess p x) (p_world p x)),
     queued = (queued (pair_abs p))(x := queued (pair_abs p) x @ queues act),
     received = (received (pair_abs p))(x := received (pair_abs p) x @ pops act)\<rparr>"
  by (auto simp: pair_abs_def pair_do_def fun_eq_iff)

lemma pair_abs_sel [simp]:
  "endpoint (pair_abs p) x = s_arq (p_sess p x)" "wire (pair_abs p) x = p_sealed p x"
  "queued (pair_abs p) x = p_queued p x" "received (pair_abs p) x = p_got p x"
  by (simp_all add: pair_abs_def)

text \<open>Quiet actions leave the abstract state alone.\<close>

lemma pair_abs_quiet:
  assumes "s_arq s = s_arq (p_sess p x)" and "handed E act (p_sess p x) (p_world p x) = {}" and "queues act = []" and "pops act = []"
  shows "pair_abs (pair_do E x act s w p) = pair_abs p"
  using assms by (simp add: pair_abs_do) (simp add: pair_abs_def fun_upd_idem)

lemma flush_cases:
  assumes "flush E s w = Some (r, s', w')"
  obtains (sealing) now news where "take_new_sends (s_arq s) now = Some (news, s_arq s')" "flush_frames E s w = set news"
  | (give_up) now news a1 g where "take_new_sends (s_arq s) now = Some (news, a1)"
      "take_retransmits a1 now = Some (Inl g, s_arq s')" "flush_frames E s w = set news"
  | (all) now news a1 retrx where "take_new_sends (s_arq s) now = Some (news, a1)"
      "take_retransmits a1 now = Some (Inr retrx, s_arq s')" "flush_frames E s w = set news \<union> set retrx"
proof -
  let ?w1 = "w\<lparr>clock_no := Suc (clock_no w)\<rparr>" and ?now = "clock_at w (clock_no w)"
  obtain news a1 where n: "take_new_sends (s_arq s) ?now = Some (news, a1)"
    using assms by (auto simp: flush_def instant_now_def split: option.splits)
  obtain x s2 w2 where sa: "seal_all E news (s\<lparr>s_arq := a1\<rparr>) ?w1 = (x, s2, w2)"
    by (cases "seal_all E news (s\<lparr>s_arq := a1\<rparr>) ?w1")
  have a2: "s_arq s2 = a1" using seal_all_evolves [OF sa] by simp
  note ff = flush_frames_def instant_now_def n sa
  show thesis
  proof (cases x)
    case (Inl e)
    then have "s_arq s' = a1" using assms n sa a2 by (auto simp: flush_def instant_now_def)
    then show thesis using sealing [of ?now news] n Inl by (simp add: ff)
  next
    case (Inr u)
    obtain y a3 where r: "take_retransmits a1 ?now = Some (y, a3)"
      using assms n sa Inr a2 by (auto simp: flush_def instant_now_def split: option.splits)
    have "s_arq s' = a3"
      using assms n sa Inr r a2 seal_all_evolves [of E _ "s2\<lparr>s_arq := a3\<rparr>" w2 r s' w']
      by (cases y) (auto simp: flush_def instant_now_def)
    then show thesis
      using give_up [of ?now news a1] all [of ?now news a1] n r Inr by (cases y) (simp_all add: ff)
  qed
qed

lemma handle_incoming_arq:
  assumes "handle_incoming E raw s w = (r, s', w')"
  shows "s_arq s' = (case opened E raw s of None \<Rightarrow> s_arq s | Some pt \<Rightarrow> snd (ingest (s_arq s) pt))"
proof (cases "opened E raw s")
  case None
  then show ?thesis
    using assms by (auto simp: handle_incoming_def opened_def Let_def split: sum.splits option.splits if_splits prod.splits packet_type.splits)
next
  case (Some pt)
  then obtain body other n where d: "decode_incoming (via_relay s) raw = Inr (Data, body, other)"
    and o: "noise_open (e_snow E) body (length body) (s_noise s) = (Inr pt, n)"
    by (auto simp: opened_def split: sum.splits packet_type.splits prod.splits)
  define s1 where "s1 = (case other of Some o' \<Rightarrow> s\<lparr>s_peer := o'\<rparr> | None \<Rightarrow> s)"
  have s1: "s_noise s1 = s_noise s" "s_arq s1 = s_arq s" by (auto simp: s1_def split: option.splits)
  have h: "ingest_reply E pt (s1\<lparr>s_noise := n\<rparr>) w = (r, s', w')"
    using assms d o by (simp add: handle_incoming_def Let_def s1_def [symmetric] s1)
  obtain x a where i: "ingest (s_arq s) pt = (x, a)" by (cases "ingest (s_arq s) pt")
  have "s_arq s' = a"
    using h seal_and_send_evolves by (fastforce simp: ingest_reply_def s1 i split: sum.splits option.splits)
  then show ?thesis by (simp add: Some i)
qed

lemma ingest_error: "ingest a pt = (Inl e, a') \<Longrightarrow> a' = a"
  by (auto simp: ingest_def Let_def split: sum.splits inner_frame.splits)

lemma pair_abs_eqI:
  assumes "endpoint d = (endpoint (pair_abs p))(x := s_arq s)"
    and "wire d = (wire (pair_abs p))(x := wire (pair_abs p) x \<union> handed E act (p_sess p x) (p_world p x))"
    and "queued d = (queued (pair_abs p))(x := p_queued p x @ queues act)"
    and "received d = (received (pair_abs p))(x := p_got p x @ pops act)"
  shows "pair_abs (pair_do E x act s w p) = d"
  using assms by (cases d) (simp add: pair_abs_do)

text \<open>Every action of a session is matched by steps of the abstract endpoints.\<close>

lemma pair_simulation:
  assumes "pair_step E p q"
  shows "duplex_step\<^sup>*\<^sup>* (pair_abs p) (pair_abs q)"
  using assms
proof cases
  case (pair_act x act s' w')
  let ?d = "pair_abs p" and ?s = "p_sess p x" and ?w = "p_world p x"
  note q = pair_act(1)
  have quiet: "duplex_step\<^sup>*\<^sup>* ?d (pair_abs q)"
    if "s_arq s' = s_arq ?s" "handed (E x) act ?s ?w = {}" "queues act = []" "pops act = []"
    using pair_abs_quiet [OF that] by (simp add: q)
  from pair_act(2) show ?thesis
  proof cases
    case (do_queue m a)
    have "duplex_step ?d ((set_ep ?d x a)\<lparr>queued := (queued ?d)(x := queued ?d x @ [m])\<rparr>)"
      using d_enqueue [of ?d x m a] do_queue by simp
    moreover have "pair_abs q = \<dots>" unfolding q using do_queue by (intro pair_abs_eqI) (auto simp: set_ep_def fun_upd_idem)
    ultimately show ?thesis by auto
  next
    case (do_pop m a)
    have "duplex_step ?d ((set_ep ?d x a)\<lparr>received := (received ?d)(x := received ?d x @ [m])\<rparr>)"
      using d_pop [of ?d x m a] do_pop by simp
    moreover have "pair_abs q = \<dots>" unfolding q using do_pop by (intro pair_abs_eqI) (auto simp: set_ep_def fun_upd_idem)
    ultimately show ?thesis by auto
  next
    case (do_flush r)
    from do_flush(2) show ?thesis
    proof (cases rule: flush_cases)
      case (sealing now news)
      have "duplex_step ?d (emit (set_ep ?d x (s_arq s')) x (set news))"
        using d_new_sends [of ?d x now news] sealing by simp
      moreover have "pair_abs q = \<dots>" unfolding q using do_flush sealing
        by (intro pair_abs_eqI) (auto simp: set_ep_def emit_def fun_upd_idem)
      ultimately show ?thesis by auto
    next
      case (give_up now news a1 g)
      let ?d1 = "emit (set_ep ?d x a1) x (set news)"
      have "duplex_step ?d ?d1" using d_new_sends [of ?d x now news a1] give_up by simp
      moreover have "duplex_step ?d1 (set_ep ?d1 x (s_arq s'))"
        using d_give_up [of ?d1 x now g] give_up by (simp add: emit_def set_ep_def)
      moreover have "pair_abs q = set_ep ?d1 x (s_arq s')" unfolding q using do_flush give_up
        by (intro pair_abs_eqI) (auto simp: set_ep_def emit_def fun_upd_idem)
      ultimately show ?thesis by (metis converse_rtranclp_into_rtranclp r_into_rtranclp)
    next
      case (all now news a1 retrx)
      let ?d1 = "emit (set_ep ?d x a1) x (set news)"
      have "duplex_step ?d ?d1" using d_new_sends [of ?d x now news a1] all by simp
      moreover have "duplex_step ?d1 (emit (set_ep ?d1 x (s_arq s')) x (set retrx))"
        using d_retransmits [of ?d1 x now retrx] all by (simp add: emit_def set_ep_def)
      moreover have "pair_abs q = emit (set_ep ?d1 x (s_arq s')) x (set retrx)" unfolding q using do_flush all
        by (intro pair_abs_eqI) (auto simp: set_ep_def emit_def fun_upd_idem Un_assoc)
      ultimately show ?thesis by (metis converse_rtranclp_into_rtranclp r_into_rtranclp)
    qed
  next
    case (do_cover r)
    then show ?thesis using quiet maybe_cover_evolves by fastforce
  next
    case (do_incoming raw w1 r)
    note arq = handle_incoming_arq [OF do_incoming(3)]
    show ?thesis
    proof (cases "opened (E x) raw ?s")
      case None
      then show ?thesis using quiet arq do_incoming(1) by (simp add: ack_frames_def)
    next
      case (Some pt)
      have K: "pt \<in> wire ?d (\<not> x)" using pair_act(3) Some do_incoming(1) by simp
      obtain y a where i: "ingest (s_arq ?s) pt = (y, a)" by (cases "ingest (s_arq ?s) pt")
      show ?thesis
      proof (cases y)
        case (Inl e)
        then show ?thesis
          using quiet arq do_incoming(1) Some i ingest_error [of "s_arq ?s" pt e a] by (simp add: ack_frames_def)
      next
        case (Inr k)
        have "duplex_step ?d (emit (set_ep ?d x a) x (set_option k))"
          using d_deliver [OF K, of k a] i Inr by simp
        moreover have "pair_abs q = \<dots>" unfolding q using do_incoming(1) arq Some i Inr
          by (intro pair_abs_eqI) (auto simp: set_ep_def emit_def fun_upd_idem ack_frames_def)
        ultimately show ?thesis by auto
      qed
    qed
  next
    case (do_set_retx d)
    have "duplex_step ?d (set_ep ?d x (set_retx (endpoint ?d x) d))" by (rule d_set_retx)
    moreover have "pair_abs q = \<dots>" unfolding q using do_set_retx
      by (intro pair_abs_eqI) (auto simp: set_ep_def fun_upd_idem set_retx_timeout_def)
    ultimately show ?thesis by auto
  qed (auto intro!: quiet simp: set_cover_def instant_now_def debug_drop_data_def set_outbound_onion_def split: list.splits)
qed

lemma pair_reach_duplex:
  assumes "\<forall>x. s_arq (ss x) = arq_new" and "reach (pair_init ss ws) (pair_step E) p"
  shows "duplex_reachable (pair_abs p)"
  using assms(2)
proof (induction rule: reach.induct)
  case reach_init
  have "pair_abs (pair_init ss ws) = duplex_init" using assms(1) by (simp add: pair_abs_def pair_init_def duplex_init_def)
  then show ?case by (simp add: duplex_reach_init)
next
  case (reach_step p q)
  then show ?case using reach_steps [OF pair_simulation [OF reach_step.hyps(2)]] by blast
qed

text \<open>A run: one byte is queued and sealed on one side, opened and popped on the other.\<close>

definition run_sess :: "bool \<Rightarrow> (bool \<times> model_hs, model_ts, 256 word) udp_session" where
  "run_sess x = model_session (V4 (Ipv4Addr 127 0 0 1) 9)"

definition run_world :: "bool \<Rightarrow> world" where
  "run_world x = (if x then ack_world 0 1 0 []
     else quiet_world\<lparr>recv_at := \<lambda>_. Inr (encode_outer Data 0 @ model_nonce 0 @ run_frame, V4 (Ipv4Addr 127 0 0 1) 9)\<rparr>)"

lemma pair_do_sel [simp]:
  "p_sess (pair_do E x act s w p) y = (if y = x then s else p_sess p y)"
  "p_world (pair_do E x act s w p) y = (if y = x then w else p_world p y)"
  "p_sealed (pair_do E x act s w p) y = p_sealed p y \<union> (if y = x then handed E act (p_sess p x) (p_world p x) else {})"
  "p_queued (pair_do E x act s w p) y = p_queued p y @ (if y = x then queues act else [])"
  "p_got (pair_do E x act s w p) y = p_got p y @ (if y = x then pops act else [])"
  by (simp_all add: pair_do_def)

lemma pair_run:
  "\<exists>p. reach (pair_init run_sess run_world) (pair_step (\<lambda>_. model_env)) p \<and>
     p_queued p True = [[104]] \<and> p_queued p False = [] \<and> p_got p False = [[104]]"
proof -
  let ?E = "\<lambda>_ :: bool. model_env" and ?p0 = "pair_init run_sess run_world"
  let ?raw = "encode_outer Data 0 @ model_nonce 0 @ run_frame"
  let ?out = "[(?raw, V4 (Ipv4Addr 127 0 0 1) 9)]"
  let ?sA = "demo_session (run_sender None 0) 0 0"
  define p1 where "p1 = pair_do model_env True (AQueue [104]) ?sA (ack_world 0 1 0 []) ?p0"
  have "sess_step model_env (AQueue [104]) (p_sess ?p0 True) (p_world ?p0 True) ?sA (ack_world 0 1 0 [])"
    using do_queue [of "run_sess True" "[104]" "run_sender None 0" model_env "ack_world 0 1 0 []"] run_enqueue
    by (simp add: pair_init_def run_sess_def run_world_def model_session_def)
  then have r1: "reach ?p0 (pair_step ?E) p1"
    unfolding p1_def by (intro reach_step [OF reach_init] pair_act [where E = ?E]) simp_all
  define p2 where "p2 = pair_do model_env True AFlush (demo_session (run_sender (Some 0) 1) 1 0) (ack_world 0 2 1 ?out) p1"
  have "sess_step model_env AFlush (p_sess p1 True) (p_world p1 True) (demo_session (run_sender (Some 0) 1) 1 0) (ack_world 0 2 1 ?out)"
    using do_flush [OF ack_run_flush] by (simp add: p1_def)
  then have r2: "reach ?p0 (pair_step ?E) p2"
    unfolding p2_def by (intro reach_step [OF r1] pair_act [where E = ?E]) simp_all
  have sealed: "run_frame \<in> p_sealed p2 True"
    by (simp add: p2_def p1_def flush_frames_def instant_now_def run_new_sends)
  have sB: "p_sess p2 False = run_sess False" "p_world p2 False = run_world False"
    by (simp_all add: p2_def p1_def pair_init_def)
  have recv: "recv_raw (run_world False) = (Inr (?raw, next_hop (run_sess False)), (run_world False)\<lparr>recv_no := 1\<rparr>)"
    by (simp add: recv_raw_def recv_from_def run_world_def run_sess_def quiet_world_def model_session_def const_defs)
  obtain r s' w' where h: "handle_incoming model_env ?raw (run_sess False) ((run_world False)\<lparr>recv_no := 1\<rparr>) = (r, s', w')"
    by (cases "handle_incoming model_env ?raw (run_sess False) ((run_world False)\<lparr>recv_no := 1\<rparr>)")
  have op: "opened model_env ?raw (run_sess False) = Some run_frame"
    by (simp add: opened_def decode_incoming_def noise_open_def transport_call_def run_sess_def model_defs)
  then have arq: "s_arq s' = run_receiver"
    using handle_incoming_arq [OF h] run_ingest_data by (simp add: run_sess_def model_session_def)
  define p3 where "p3 = pair_do model_env False (AIncoming ?raw) s' w' p2"
  have r3: "reach ?p0 (pair_step ?E) p3"
    unfolding p3_def using do_incoming [OF recv h] sealed op sB
    by (intro reach_step [OF r2] pair_act [where E = ?E]) simp_all
  define a where "a = run_receiver\<lparr>delivered := []\<rparr>"
  have "pop_delivered (s_arq (p_sess p3 False)) = (Some [104], a)"
    by (simp add: p3_def arq a_def pop_delivered_def run_receiver_def)
  then have "reach ?p0 (pair_step ?E) (pair_do model_env False (APop [104]) ((p_sess p3 False)\<lparr>s_arq := a\<rparr>) (p_world p3 False) p3)"
    by (intro reach_step [OF r3] pair_act [where E = ?E] do_pop) simp_all
  then show ?thesis by (intro exI conjI) (auto simp: p3_def p2_def p1_def pair_init_def)
qed

section \<open>Properties\<close>

text \<open>
  C1: what two applications can rely on.  Two sessions fresh from the handshake, running
  any interleaving of their calls over an arbitrary network, as long as the Noise transport
  is authentic and each side has queued fewer than 65535 messages that are not empty, of at most 255 fragments each and of at most
  2^32 - 10^6 frames together (\<open>bounded\<close>: fragment and sequence numbers are not reused).  Then the messages \<open>recv\<close> has returned on one side are, with
  multiplicity, among those \<open>send\<close> has accepted on the other; and when a side has no unacknowledged frame left,
  which is when its \<open>send\<close> answers \<open>Ok\<close>, the messages returned to the other application, together with those in its delivery queue
  waiting for the next \<open>recv\<close>, are exactly the messages it ever accepted, each once.
\<close>
theorem session_delivery:
  assumes "\<forall>x. s_arq (ss x) = arq_new" and "reach (pair_init ss ws) (pair_step E) p"
    and "bounded (p_queued p True)" and "bounded (p_queued p False)"
  shows "mset (p_got p (\<not> x)) \<subseteq># mset (p_queued p x) \<and>
    (unacked (s_arq (p_sess p x)) = [] \<longrightarrow>
       mset (p_got p (\<not> x) @ delivered (s_arq (p_sess p (\<not> x)))) = mset (p_queued p x))"
proof -
  have "duplex_reachable (pair_abs p)" by (rule pair_reach_duplex [OF assms(1,2)])
  then obtain S where S: "duplex_inv S (pair_abs p)"
    using reachable_duplex_inv [of "pair_abs p"] assms(3,4) by auto
  then obtain A where "delivery_rel (p_queued p x) A (p_got p (\<not> x) @ delivered (s_arq (p_sess p (\<not> x))))"
    unfolding duplex_inv_def receiver_inv_def by (metis pair_abs_sel)
  from delivery_rel_subset [OF this] have "mset (p_got p (\<not> x)) \<subseteq># mset (p_queued p x)"
    by (metis mset_append mset_subset_eq_add_left subset_mset.order_trans)
  then show ?thesis using duplex_inv_acked [OF S, of x] by auto
qed

theorem session_delivery_witness:
  "\<exists>p. reach (pair_init run_sess run_world) (pair_step (\<lambda>_. model_env)) p \<and> mset (p_got p False) \<subseteq># {#[104]#} \<and> p_got p False = [[104]]"
proof -
  obtain p where r: "reach (pair_init run_sess run_world) (pair_step (\<lambda>_. model_env)) p"
    and p: "p_queued p True = [[104]]" "p_queued p False = []" "p_got p False = [[104]]"
    using pair_run by blast
  have "\<forall>x. s_arq (run_sess x) = arq_new" by (simp add: run_sess_def model_session_def)
  moreover have "bounded [[104]]" using run_end_bounded [of True] by (simp add: run_end_def)
  moreover have "bounded []" using run_end_bounded [of False] by (simp add: run_end_def)
  ultimately show ?thesis using session_delivery [OF _ r, of True] r p by auto
qed

text \<open>
  C2: the calls of a session refine into actions.  \<open>send\<close> either refuses the message and
  changes nothing, or queues it and then only flushes, emits cover, reads the clock and
  handles datagrams; \<open>recv\<close> does the same without queueing, and takes exactly the message
  it returns out of the ARQ, at its end.
\<close>
theorem calls_are_actions:
  "(send_timeout E m timeout s w = Some (r, s', w') \<longrightarrow>
      (case enqueue (s_arq s) m of
         (Inl e, a) \<Rightarrow> r = Inl (SArq e) \<and> s' = s \<and> w' = w
       | (Inr _, a) \<Rightarrow> sess_step E (AQueue m) s w (s\<lparr>s_arq := a\<rparr>) w \<and> inner_steps E (s\<lparr>s_arq := a\<rparr>) w s' w')) \<and>
   (session_recv E timeout s w = Some (q, s', w') \<longrightarrow>
      (case q of
         Inl e \<Rightarrow> inner_steps E s w s' w'
       | Inr msg \<Rightarrow> \<exists>t. inner_steps E s w t w' \<and> sess_step E (APop msg) t w' s' w'))"
proof (intro conjI impI)
  assume "send_timeout E m timeout s w = Some (r, s', w')"
  then show "case enqueue (s_arq s) m of
         (Inl e, a) \<Rightarrow> r = Inl (SArq e) \<and> s' = s \<and> w' = w
       | (Inr _, a) \<Rightarrow> sess_step E (AQueue m) s w (s\<lparr>s_arq := a\<rparr>) w \<and> inner_steps E (s\<lparr>s_arq := a\<rparr>) w s' w'"
  proof (cases rule: send_timeout_cases)
    case (2 a)
    have "inner_steps E (s\<lparr>s_arq := a\<rparr>) w s' w'"
      using actions.wait_loop_rel [OF 2(2)] inner_trans [OF inner_clock] by blast
    then show ?thesis using do_queue [OF 2(1)] by (simp add: 2(1))
  qed simp
next
  assume "session_recv E timeout s w = Some (q, s', w')"
  then have l: "recv_loop E (clock_at w (clock_no w) + timeout) s (w\<lparr>clock_no := Suc (clock_no w)\<rparr>) = Some (q, s', w')"
    by (simp add: session_recv_def instant_now_def)
  note rel = actions.recv_loop_rel [OF l refl] and c = inner_trans [OF inner_clock]
  show "case q of Inl e \<Rightarrow> inner_steps E s w s' w'
       | Inr msg \<Rightarrow> \<exists>t. inner_steps E s w t w' \<and> sess_step E (APop msg) t w' s' w'"
  proof (cases q)
    case (Inr msg)
    with rel obtain t a where t: "inner_steps E s (w\<lparr>clock_no := Suc (clock_no w)\<rparr>) t w'"
      "pop_delivered (s_arq t) = (Some msg, a)" "s' = t\<lparr>s_arq := a\<rparr>" by auto
    then show ?thesis using Inr c [OF t(1)] do_pop [OF t(2)] by auto
  qed (use rel c in simp)
qed

theorem calls_are_actions_witness:
  "\<exists>s' w'. send_timeout model_env [104] 7 (model_session (V4 (Ipv4Addr 127 0 0 1) 9)) (ack_world 0 0 0 []) = Some (Inr (), s', w') \<and>
     inner_steps model_env (demo_session (run_sender None 0) 0 0) (ack_world 0 0 0 []) s' w'"
proof -
  let ?s = "model_session (V4 (Ipv4Addr 127 0 0 1) 9)"
  obtain s' w' where r: "send_timeout model_env [104] 7 ?s (ack_world 0 0 0 []) = Some (Inr (), s', w')"
    using ack_run by blast
  have "s_arq ?s = arq_new" "?s\<lparr>s_arq := a\<rparr> = demo_session a 0 0" for a by (simp_all add: model_session_def)
  then show ?thesis using calls_are_actions [of model_env "[104]" 7 ?s "ack_world 0 0 0 []" "Inr ()" s' w'] r run_enqueue by auto
qed

end
