(* ===== verification/Ppose_Session_Redirect.thy ===== *)
theory Ppose_Session_Redirect
  imports Ppose_Session_System Ppose_Session_Path
begin

text \<open>
  What an unauthenticated datagram from the relay does to the return address of a session, and to everything the
  session sends until it handles another datagram.
\<close>

section \<open>Sending keeps the destination\<close>

text \<open>
  The contract of all operations that send but do not handle a datagram: the route stays, and on a relayed path what they put on the
  wire is a forward request for the peer.
\<close>

definition addressed :: "('hs, 'ts, 'pk) udp_session \<Rightarrow> bytes \<times> socket_addr \<Rightarrow> bool" where
  "addressed s x \<longleftrightarrow> snd x = next_hop s \<and>
     (via_relay s \<and> s_onion s = None \<longrightarrow> (\<exists>ip port inner. s_peer s = V4 ip port \<and> fst x = forward_packet 0 ip port inner))"

definition toward :: "('hs, 'ts, 'pk) udp_session \<Rightarrow> world \<Rightarrow> ('hs, 'ts, 'pk) udp_session \<Rightarrow> world \<Rightarrow> bool" where
  "toward s w s' w' \<longleftrightarrow> next_hop s' = next_hop s \<and> via_relay s' = via_relay s \<and> s_onion s' = s_onion s \<and> s_peer s' = s_peer s \<and>
     (\<exists>out. sent w' = sent w @ out \<and> (\<forall>x \<in> set out. addressed s x))"

interpretation direction: action_contract toward
proof unfold_locales
  show "toward s w s w" for s :: "('a, 'b, 'c) udp_session" and w by (simp add: toward_def)
next
  fix s s1 s2 :: "('a, 'b, 'c) udp_session" and w w1 w2
  assume 1: "toward s w s1 w1" and 2: "toward s1 w1 s2 w2"
  have r: "next_hop s1 = next_hop s" "via_relay s1 = via_relay s" "s_onion s1 = s_onion s" "s_peer s1 = s_peer s"
    using 1 by (simp_all add: toward_def)
  obtain o1 where o1: "sent w1 = sent w @ o1" "\<forall>x \<in> set o1. addressed s x"
    using 1 unfolding toward_def by blast
  obtain o2 where o2: "sent w2 = sent w1 @ o2" "\<forall>x \<in> set o2. addressed s1 x"
    using 2 unfolding toward_def by blast
  have "sent w2 = sent w @ (o1 @ o2)" "\<forall>x \<in> set (o1 @ o2). addressed s x"
    using o1 o2 r by (auto simp: addressed_def)
  then show "toward s w s2 w2" using 2 r unfolding toward_def by metis
qed

lemma toward_local:
  "next_hop t = next_hop s \<Longrightarrow> via_relay t = via_relay s \<Longrightarrow> s_onion t = s_onion s \<Longrightarrow> s_peer t = s_peer s \<Longrightarrow>
     sent v = sent w \<Longrightarrow> toward s w t v"
  by (simp add: toward_def)

lemma toward_send_inner:
  assumes "send_inner E ty body s w = (r, s', w')"
  shows "toward s w s' w'"
proof (cases "wire_of E s (send_no w) ty body")
  case (Inr wire')
  obtain x w1 where st: "send_to wire' (next_hop s) w = (x, w1)" by (cases "send_to wire' (next_hop s) w")
  have "s' = s" "w' = w1" using assms Inr st by (simp_all add: send_inner_def)
  moreover have "sent w1 = sent w \<or> sent w1 = sent w @ [(wire', next_hop s)]"
    using sent_send_to [of wire' "next_hop s" w] st by (auto split: if_splits)
  moreover have "addressed s (wire', next_hop s)"
    using Inr wire_of_relay [of s E "send_no w" ty body wire'] unfolding addressed_def by fastforce
  ultimately show ?thesis by (auto simp: toward_def)
qed (use assms in \<open>simp add: send_inner_def direction.rel_refl\<close>)

lemma toward_seal_data:
  assumes "seal_data E pt s w = (r, s', w')"
  shows "toward s w s' w'"
proof -
  consider n where "s' = s\<lparr>s_noise := n\<rparr>" "w' = w" | "s' = s\<lparr>drop_data := drop_data s - 1\<rparr>" "w' = w"
    | n ct where "send_inner E Data ct (s\<lparr>s_noise := n\<rparr>) w = (r, s', w')"
    using assms by (auto simp: seal_data_def seal_and_send_def split: if_splits sum.splits prod.splits)
  then show ?thesis
  proof cases
    case 3
    then show ?thesis by (intro direction.rel_trans [OF toward_local toward_send_inner]) simp_all
  qed (auto intro!: toward_local)
qed

lemma toward_seal_all: "seal_all E pts s w = (r, s', w') \<Longrightarrow> toward s w s' w'"
proof (induction E pts s w arbitrary: r s' w' rule: seal_all.induct)
  case (2 E pt pts s w)
  obtain x s1 w1 where d: "seal_data E pt s w = (x, s1, w1)" by (cases "seal_data E pt s w")
  show ?case using direction.rel_act_bind [OF "2.prems" [unfolded seal_all.simps] d toward_seal_data [OF d]] "2.IH" by blast
qed (simp add: direction.rel_refl)

lemma toward_flush:
  assumes "flush E s w = Some (r, s', w')"
  shows "toward s w s' w'"
proof -
  let ?w1 = "w\<lparr>clock_no := Suc (clock_no w)\<rparr>" and ?now = "clock_at w (clock_no w)"
  obtain news a1 where n: "take_new_sends (s_arq s) ?now = Some (news, a1)"
    using assms by (auto simp: flush_def instant_now_def split: option.splits)
  obtain x s2 w2 where sa: "seal_all E news (s\<lparr>s_arq := a1\<rparr>) ?w1 = (x, s2, w2)"
    by (cases "seal_all E news (s\<lparr>s_arq := a1\<rparr>) ?w1")
  have t: "toward s w s2 w2" by (rule direction.rel_trans [OF toward_local toward_seal_all [OF sa]]) simp_all
  have l: "toward s2 w2 (s2\<lparr>s_arq := a\<rparr>) w2" for a by (rule toward_local) simp_all
  consider "s' = s2" "w' = w2" | a where "s' = s2\<lparr>s_arq := a\<rparr>" "w' = w2" | a pts where "seal_all E pts (s2\<lparr>s_arq := a\<rparr>) w2 = (r, s', w')"
    using assms n sa by (auto simp: flush_def instant_now_def split: option.splits sum.splits)
  then show ?thesis
    using t direction.rel_trans [OF t l] direction.rel_trans [OF direction.rel_trans [OF t l] toward_seal_all] by cases simp_all
qed

lemma toward_cover:
  assumes "maybe_cover E s w = (r, s', w')"
  shows "toward s w s' w'"
proof -
  consider "s' = s" "sent w' = sent w"
    | t body where "send_inner E Data body (s\<lparr>last_cover := t\<rparr>) (w\<lparr>clock_no := Suc (clock_no w)\<rparr>) = (r, s', w')"
    using assms by (auto simp: maybe_cover_def instant_now_def Let_def split: option.splits if_splits)
  then show ?thesis
  proof cases
    case 2
    then show ?thesis by (intro direction.rel_trans [OF toward_local toward_send_inner]) simp_all
  qed (auto intro: toward_local)
qed

section \<open>Properties\<close>

text \<open>The actions of a session that neither handle a datagram nor change a setting.\<close>

fun deaf :: "action \<Rightarrow> bool" where
  "deaf (AIncoming raw) \<longleftrightarrow> False"
| "deaf ASet \<longleftrightarrow> False"
| "deaf act \<longleftrightarrow> True"

inductive deaf_steps ::
  "('np, 'hs, 'ts, 'sk, 'pk) env \<Rightarrow> ('hs, 'ts, 'pk) udp_session \<Rightarrow> world \<Rightarrow> ('hs, 'ts, 'pk) udp_session \<Rightarrow> world \<Rightarrow> bool" for E where
  deaf_refl: "deaf_steps E s w s w"
| deaf_step: "sess_step E act s w s1 w1 \<Longrightarrow> deaf act \<Longrightarrow> deaf_steps E s1 w1 s' w' \<Longrightarrow> deaf_steps E s w s' w'"

lemma toward_step:
  assumes "sess_step E act s w s' w'" and "deaf act"
  shows "toward s w s' w'"
  using assms
proof cases
  case (do_skip x)
  then show ?thesis using recv_from_frame [of w x w'] by (auto simp: recv_raw_def intro!: toward_local)
qed (auto intro: toward_flush toward_cover toward_local simp: instant_now_def)

lemma toward_steps: "deaf_steps E s w s' w' \<Longrightarrow> toward s w s' w'"
proof (induction rule: deaf_steps.induct)
  case (deaf_step act s w s1 w1 s' w')
  show ?case by (rule direction.rel_trans [OF toward_step [OF deaf_step.hyps(1,2)] deaf_step.IH])
qed (rule direction.rel_refl)

text \<open>
  C13: who can redirect a relayed session.  A datagram that reaches the session through its
  relay and carries, under an arbitrary sender address, a \<open>Data\<close> packet that does not even
  open, is answered with \<open>Ok\<close>, and the session takes that address as its peer: the return address is taken from the datagram before
  it is authenticated.  Until the session handles another datagram or is given another route, whatever it queues, flushes, retransmits or
  emits as cover, every datagram it sends asks the relay to deliver it to that address; and any body of at most 1178 bytes can be sent there.
\<close>
theorem unauthenticated_redirect:
  assumes "via_relay s" and "s_onion s = None" and "noise_open (e_snow E) junk (length junk) (s_noise s) = (Inl e, n)"
    and "handle_incoming E (forward_packet fl ip port (encode_outer Data f @ junk)) s w = (r, s1, w1)"
    and "deaf_steps E s1 w1 s2 w2"
  shows "r = Inr () \<and> s_peer s2 = V4 ip port \<and>
    (\<exists>out. sent w2 = sent w @ out \<and> (\<forall>(pkt, dest) \<in> set out. dest = next_hop s \<and> (\<exists>inner. pkt = forward_packet 0 ip port inner))) \<and>
    (\<forall>k ty body. length body \<le> 1178 \<longrightarrow> wire_of E s2 k ty body = Inr (forward_packet 0 ip port (encode_outer ty 0 @ body)))"
proof -
  have s1: "s1 = s\<lparr>s_peer := V4 ip port, s_noise := n\<rparr>" "r = Inr ()" "w1 = w"
    using assms(1-4) by (auto simp: handle_incoming_def decode_incoming_forward)
  note t = toward_steps [OF assms(5), unfolded toward_def s1]
  have "\<exists>out. sent w2 = sent w @ out \<and> (\<forall>(pkt, dest) \<in> set out. dest = next_hop s \<and> (\<exists>inner. pkt = forward_packet 0 ip port inner))"
    using t assms(1,2) by (fastforce simp: addressed_def)
  then show ?thesis using t assms(1,2) s1(2) by (simp add: wire_of_relay)
qed

theorem unauthenticated_redirect_witness:
  "\<exists>s1 s2 w2. handle_incoming model_env (forward_packet 0 (Ipv4Addr 6 6 6 6) 66 (encode_outer Data 0 @ [0]))
      ((model_session (V4 (Ipv4Addr 10 0 0 5) 5))\<lparr>via_relay := True\<rparr>) quiet_world = (Inr (), s1, quiet_world) \<and>
    deaf_steps model_env s1 quiet_world s2 w2 \<and> unacked (s_arq s2) \<noteq> [] \<and> s_peer s2 = V4 (Ipv4Addr 6 6 6 6) 66"
proof -
  let ?s = "(model_session (V4 (Ipv4Addr 10 0 0 5) 5))\<lparr>via_relay := True\<rparr>"
  let ?d = "forward_packet 0 (Ipv4Addr 6 6 6 6) 66 (encode_outer Data 0 @ [0])"
  have "length (model_nonce 0) \<noteq> length [0 :: u8]" by simp
  then have "model_nonce 0 \<noteq> [0]" by metis
  then have o: "noise_open (e_snow model_env) [0] (length [0 :: u8]) (s_noise ?s) = (Inl (Crypto ''decrypt''), s_noise ?s)"
    by (auto simp: noise_open_def transport_call_def model_defs)
  have v: "via_relay ?s" "s_onion ?s = None" by (simp_all add: model_session_def)
  obtain s1 where h: "handle_incoming model_env ?d ?s quiet_world = (Inr (), s1, quiet_world)" "s_arq s1 = arq_new"
    using o by (simp add: handle_incoming_def decode_incoming_forward model_session_def)
  let ?s2 = "s1\<lparr>s_arq := run_sender None 0\<rparr>"
  have "deaf_steps model_env s1 quiet_world ?s2 quiet_world"
    by (rule deaf_step [OF do_queue [where m = "[104]"] _ deaf_refl]) (simp_all add: h(2) run_enqueue)
  moreover from unauthenticated_redirect [OF v o h(1) this] have "s_peer ?s2 = V4 (Ipv4Addr 6 6 6 6) 66" by blast
  moreover have "unacked (run_sender None 0) \<noteq> []" by (simp add: run_sender_def)
  ultimately show ?thesis using h(1) by (intro exI [of _ s1] exI [of _ ?s2] exI [of _ quiet_world]) simp
qed

end
