(* ===== verification/Ppose_Text.thy ===== *)
theory Ppose_Text
  imports Ppose_Prelude
begin

text \<open>
  Text as the programs print and parse it.  A Rust string is the list of its UTF-8 bytes,
  written as characters.  The theory holds the parts of the standard library the command
  line uses: integers in a base, \<^verbatim>\<open>String::from_utf8_lossy\<close>, and \<^verbatim>\<open>Display\<close> and
  \<^verbatim>\<open>FromStr\<close> of socket addresses.  Shown: what is printed for an address is read back as
  that address, for both families.
\<close>

section \<open>Strings and bytes\<close>

definition text_of :: "bytes \<Rightarrow> string" where
  "text_of bs = map (\<lambda>b. char_of (unat b)) bs"

definition string_bytes :: "string \<Rightarrow> bytes" where
  "string_bytes s = map (\<lambda>c. of_nat (of_char c)) s"

lemma string_bytes_text_of: "string_bytes (text_of bs) = bs"
proof -
  have "of_nat (of_char (char_of (unat b) :: char)) = b" for b :: u8
    using unsigned_less [of b, where ?'a = nat] by simp
  then show ?thesis by (simp add: string_bytes_def text_of_def comp_def)
qed

section \<open>Numbers\<close>

definition digit_char :: "nat \<Rightarrow> char" where
  "digit_char d = char_of (if d < 10 then 48 + d else 87 + d)"

definition to_digit :: "nat \<Rightarrow> char \<Rightarrow> nat option" where
  "to_digit r c =
     (let n = of_char c :: nat;
          d = (if 48 \<le> n \<and> n \<le> 57 then n - 48 else if 97 \<le> n \<and> n \<le> 122 then n - 87
               else if 65 \<le> n \<and> n \<le> 90 then n - 55 else r)
      in if d < r then Some d else None)"

definition is_digit :: "nat \<Rightarrow> char \<Rightarrow> bool" where
  "is_digit r c \<longleftrightarrow> to_digit r c \<noteq> None"

text \<open>\<^verbatim>\<open>{n}\<close> for base 10 and \<^verbatim>\<open>{n:x}\<close> for base 16.\<close>

fun show_base :: "nat \<Rightarrow> nat \<Rightarrow> string" where
  "show_base r n = (if n < r \<or> r < 2 then [digit_char n] else show_base r (n div r) @ [digit_char (n mod r)])"

declare show_base.simps [simp del]

abbreviation show_nat :: "nat \<Rightarrow> string" where
  "show_nat \<equiv> show_base 10"

text \<open>The value of a list of digits, most significant first.\<close>

definition digits_value :: "nat \<Rightarrow> string \<Rightarrow> nat" where
  "digits_value r ds = foldl (\<lambda>v c. v * r + the (to_digit r c)) 0 ds"

text \<open>
  \<open>read_number\<close> of the address parser: the digits at the front, at most \<open>maxd\<close> of them if that
  is given, without a superfluous zero in front unless allowed, and below the range of the
  integer read (\<open>lim\<close>).
\<close>

definition read_number :: "nat \<Rightarrow> nat option \<Rightarrow> bool \<Rightarrow> nat \<Rightarrow> string \<Rightarrow> (nat \<times> string) option" where
  "read_number r maxd zero_prefix lim s =
     (let ds = takeWhile (is_digit r) s; n = length ds
      in if (case maxd of Some m \<Rightarrow> m < n | None \<Rightarrow> False) then None
         else if n = 0 then None
         else if \<not> zero_prefix \<and> hd s = CHR ''0'' \<and> 1 < n then None
         else if digits_value r ds < lim then Some (digits_value r ds, dropWhile (is_digit r) s)
         else None)"

section \<open>Lossy decoding of UTF-8\<close>

definition between :: "u8 \<Rightarrow> u8 \<Rightarrow> u8 \<Rightarrow> bool" where
  "between a b x \<longleftrightarrow> a \<le> x \<and> x \<le> b"

definition continuation :: "u8 \<Rightarrow> bool" where
  "continuation b \<longleftrightarrow> between 0x80 0xBF b"

text \<open>
  The number of bytes of the sequence a first byte announces, and the bytes allowed in the
  second place after it.
\<close>

definition utf8_width :: "u8 \<Rightarrow> nat" where
  "utf8_width b = (if b < 0x80 then 1 else if between 0xC2 0xDF b then 2 else if between 0xE0 0xEF b then 3
     else if between 0xF0 0xF4 b then 4 else 0)"

definition second_ok :: "u8 \<Rightarrow> u8 \<Rightarrow> bool" where
  "second_ok b x \<longleftrightarrow>
     (if b = 0xE0 then between 0xA0 0xBF x else if b = 0xED then between 0x80 0x9F x
      else if b = 0xF0 then between 0x90 0xBF x else if b = 0xF4 then between 0x80 0x8F x
      else continuation x)"

text \<open>
  The bytes that belong to the character at the front: itself if it is complete, otherwise
  the part up to the first byte that does not fit.
\<close>

definition utf8_front :: "u8 \<Rightarrow> bytes \<Rightarrow> nat" where
  "utf8_front b rest =
     (case rest of
        x # ys \<Rightarrow>
          if utf8_width b \<ge> 2 \<and> second_ok b x
          then 2 + length (takeWhile continuation (take (utf8_width b - 2) ys))
          else 1
      | [] \<Rightarrow> 1)"

definition REPLACEMENT :: bytes where
  "REPLACEMENT = [0xEF, 0xBF, 0xBD]"

function utf8_lossy :: "bytes \<Rightarrow> bytes" where
  "utf8_lossy [] = []"
| "utf8_lossy (b # rest) =
     (let n = utf8_front b rest
      in (if n = utf8_width b then take n (b # rest) else REPLACEMENT) @ utf8_lossy (drop n (b # rest)))"
  by pat_completeness auto
termination
  by (relation "measure length") (auto simp: utf8_front_def split: list.splits)

declare utf8_lossy.simps(2) [simp del]

definition from_utf8_lossy :: "bytes \<Rightarrow> string" where
  "from_utf8_lossy bs = text_of (utf8_lossy bs)"

section \<open>Printing addresses\<close>

fun show_ipv4 :: "ipv4_addr \<Rightarrow> string" where
  "show_ipv4 (Ipv4Addr a b c d) =
     show_nat (unat a) @ ''.'' @ show_nat (unat b) @ ''.'' @ show_nat (unat c) @ ''.'' @ show_nat (unat d)"

fun pair_up :: "bytes \<Rightarrow> u16 list" where
  "pair_up (a # b # bs) = from_be [a, b] # pair_up bs"
| "pair_up _ = []"

definition segments :: "128 word \<Rightarrow> u16 list" where
  "segments ip = pair_up (to_be 16 ip)"

definition from_segments :: "u16 list \<Rightarrow> 128 word" where
  "from_segments gs = from_be (concat (map (to_be 2) gs))"

text \<open>Groups in base 16, separated by colons.\<close>

fun fmt_groups :: "u16 list \<Rightarrow> string" where
  "fmt_groups [] = []"
| "fmt_groups [g] = show_base 16 (unat g)"
| "fmt_groups (g # gs) = show_base 16 (unat g) @ '':'' @ fmt_groups gs"

text \<open>The first longest run of zero groups, as start and length.\<close>

fun longest_zeros :: "nat \<Rightarrow> nat \<times> nat \<Rightarrow> nat \<times> nat \<Rightarrow> u16 list \<Rightarrow> nat \<times> nat" where
  "longest_zeros i longest cur [] = longest"
| "longest_zeros i longest cur (g # gs) =
     (if g = 0 then
        let cur' = (if snd cur = 0 then i else fst cur, Suc (snd cur))
        in longest_zeros (Suc i) (if snd cur' > snd longest then cur' else longest) cur' gs
      else longest_zeros (Suc i) longest (0, 0) gs)"

definition show_ipv6 :: "128 word \<Rightarrow> string" where
  "show_ipv6 ip =
     (let gs = segments ip
      in if take 6 gs = [0, 0, 0, 0, 0, 0xFFFF]
         then ''::ffff:'' @ (case concat (map (to_be 2) (drop 6 gs)) of
             [a, b, c, d] \<Rightarrow> show_ipv4 (Ipv4Addr a b c d) | _ \<Rightarrow> [])
         else case longest_zeros 0 (0, 0) (0, 0) gs of (start, len) \<Rightarrow>
           if len > 1 then fmt_groups (take start gs) @ ''::'' @ fmt_groups (drop (start + len) gs)
           else fmt_groups gs)"

fun show_socket_addr :: "socket_addr \<Rightarrow> string" where
  "show_socket_addr (V4 ip port) = show_ipv4 ip @ '':'' @ show_nat (unat port)"
| "show_socket_addr (V6 ip port flowinfo scope) =
     ''['' @ show_ipv6 ip @ (if scope = 0 then [] else ''%'' @ show_nat (unat scope)) @ '']:'' @ show_nat (unat port)"

section \<open>Parsing addresses\<close>

text \<open>A parser returns its result with the rest of the input; on failure nothing is consumed.\<close>

definition p_bind :: "('a \<times> string) option \<Rightarrow> ('a \<Rightarrow> string \<Rightarrow> ('b \<times> string) option) \<Rightarrow> ('b \<times> string) option" where
  "p_bind r f = (case r of None \<Rightarrow> None | Some (a, s) \<Rightarrow> f a s)"

lemma p_bind_simps [simp]: "p_bind None f = None" "p_bind (Some (a, s)) f = f a s"
  by (simp_all add: p_bind_def)

fun read_given_char :: "char \<Rightarrow> string \<Rightarrow> (unit \<times> string) option" where
  "read_given_char c (d # s) = (if c = d then Some ((), s) else None)"
| "read_given_char c [] = None"

definition read_separator :: "char \<Rightarrow> nat \<Rightarrow> (string \<Rightarrow> ('a \<times> string) option) \<Rightarrow> string \<Rightarrow> ('a \<times> string) option" where
  "read_separator sep i inner s = (if i > 0 then p_bind (read_given_char sep s) (\<lambda>_ s1. inner s1) else inner s)"

definition read_octet :: "string \<Rightarrow> (nat \<times> string) option" where
  "read_octet = read_number 10 (Some 3) False 256"

definition read_ipv4_addr :: "string \<Rightarrow> (ipv4_addr \<times> string) option" where
  "read_ipv4_addr s =
     p_bind (read_separator CHR ''.'' 0 read_octet s) (\<lambda>a s1.
       p_bind (read_separator CHR ''.'' 1 read_octet s1) (\<lambda>b s2.
         p_bind (read_separator CHR ''.'' 2 read_octet s2) (\<lambda>c s3.
           p_bind (read_separator CHR ''.'' 3 read_octet s3) (\<lambda>d s4.
             Some (Ipv4Addr (of_nat a) (of_nat b) (of_nat c) (of_nat d), s4)))))"

text \<open>
  Up to \<open>lim\<close> groups, starting with number \<open>i\<close>, with an IPv4 address allowed in place of two
  last ones; the flag tells whether there was one.
\<close>

function read_groups :: "nat \<Rightarrow> nat \<Rightarrow> string \<Rightarrow> u16 list \<times> bool \<times> string" where
  "read_groups i lim s =
     (if i \<ge> lim then ([], False, s)
      else
        case (if i < lim - 1 then read_separator CHR '':'' i read_ipv4_addr s else None) of
          Some (Ipv4Addr a b c d, s1) \<Rightarrow> ([from_be [a, b], from_be [c, d]], True, s1)
        | None \<Rightarrow>
            (case read_separator CHR '':'' i (read_number 16 (Some 4) True 65536) s of
               None \<Rightarrow> ([], False, s)
             | Some (g, s1) \<Rightarrow>
                 (case read_groups (Suc i) lim s1 of (gs, v4, s2) \<Rightarrow> (of_nat g # gs, v4, s2))))"
  by pat_completeness auto
termination
  by (relation "measure (\<lambda>(i, lim, s). lim - i)") auto

declare read_groups.simps [simp del]

definition read_ipv6_addr :: "string \<Rightarrow> (128 word \<times> string) option" where
  "read_ipv6_addr s =
     (case read_groups 0 8 s of (head, head_ipv4, s1) \<Rightarrow>
        if length head = 8 then Some (from_segments head, s1)
        else if head_ipv4 then None
        else
          p_bind (read_given_char CHR '':'' s1) (\<lambda>_ s2.
            p_bind (read_given_char CHR '':'' s2) (\<lambda>_ s3.
              case read_groups 0 (8 - (length head + 1)) s3 of (tail, _, s4) \<Rightarrow>
                Some (from_segments (head @ replicate (8 - length head - length tail) 0 @ tail), s4))))"

definition read_port :: "string \<Rightarrow> (nat \<times> string) option" where
  "read_port s = p_bind (read_given_char CHR '':'' s) (\<lambda>_ s1. read_number 10 None True 65536 s1)"

definition read_scope_id :: "string \<Rightarrow> (nat \<times> string) option" where
  "read_scope_id s = p_bind (read_given_char CHR ''%'' s) (\<lambda>_ s1. read_number 10 None True (2 ^ 32) s1)"

definition read_socket_addr_v4 :: "string \<Rightarrow> (socket_addr \<times> string) option" where
  "read_socket_addr_v4 s =
     p_bind (read_ipv4_addr s) (\<lambda>ip s1. p_bind (read_port s1) (\<lambda>port s2. Some (V4 ip (of_nat port), s2)))"

definition read_socket_addr_v6 :: "string \<Rightarrow> (socket_addr \<times> string) option" where
  "read_socket_addr_v6 s =
     p_bind (read_given_char CHR ''['' s) (\<lambda>_ s1.
       p_bind (read_ipv6_addr s1) (\<lambda>ip s2.
         case (case read_scope_id s2 of Some (k, s3) \<Rightarrow> (k, s3) | None \<Rightarrow> (0, s2)) of (scope, s3) \<Rightarrow>
           p_bind (read_given_char CHR '']'' s3) (\<lambda>_ s4.
             p_bind (read_port s4) (\<lambda>port s5. Some (V6 ip (of_nat port) 0 (of_nat scope), s5)))))"

definition parse_socket_addr :: "string \<Rightarrow> socket_addr option" where
  "parse_socket_addr s =
     (case (case read_socket_addr_v4 s of Some r \<Rightarrow> Some r | None \<Rightarrow> read_socket_addr_v6 s) of
        Some (a, rest) \<Rightarrow> if rest = [] then Some a else None
      | None \<Rightarrow> None)"

section \<open>Lossy decoding keeps valid text\<close>

lemma utf8_front_le: "utf8_front b rest \<le> Suc (length rest)"
proof (cases rest)
  case (Cons x ys)
  have "length (takeWhile continuation (take (utf8_width b - 2) ys)) \<le> length ys"
    using length_takeWhile_le [of continuation "take (utf8_width b - 2) ys"] by simp
  then show ?thesis by (simp add: utf8_front_def Cons)
qed (simp add: utf8_front_def)

lemma utf8_front_append:
  assumes "utf8_front b rest = utf8_width b"
  shows "utf8_front b (take (utf8_width b - 1) rest @ ys) = utf8_width b"
proof (cases rest)
  case Nil
  then have "utf8_width b = 1" using assms by (simp add: utf8_front_def)
  then show ?thesis by (cases ys) (simp_all add: utf8_front_def)
next
  case (Cons x xs)
  show ?thesis
  proof (cases "utf8_width b \<ge> 2 \<and> second_ok b x")
    case True
    let ?n = "utf8_width b - 2"
    have n: "Suc (Suc ?n) = utf8_width b" using conjunct1 [OF True] by arith
    have l: "length (takeWhile continuation (take ?n xs)) = ?n" using assms True Cons by (simp add: utf8_front_def)
    then have "length (take ?n xs) = ?n"
      by (metis length_takeWhile_le length_take min.cobounded2 order_antisym)
    then have "take ?n (take ?n xs @ ys) = take ?n xs" by simp
    moreover have "utf8_width b - 1 = Suc ?n" using n by arith
    then have "take (utf8_width b - 1) rest = x # take ?n xs" using Cons by simp
    ultimately show ?thesis using True l n by (simp add: utf8_front_def del: take_append)
  next
    case False
    then have "utf8_width b = 1" using assms Cons by (simp add: utf8_front_def split: if_splits)
    then show ?thesis by (cases ys) (simp_all add: utf8_front_def)
  qed
qed

lemma utf8_lossy_replacement: "utf8_lossy (REPLACEMENT @ ys) = REPLACEMENT @ utf8_lossy ys"
proof -
  have "utf8_width 0xEF = 3" "utf8_front 0xEF (0xBF # 0xBD # ys) = 3"
    by (simp_all add: utf8_front_def utf8_width_def second_ok_def continuation_def between_def)
  then show ?thesis by (simp add: REPLACEMENT_def utf8_lossy.simps(2))
qed

text \<open>The decoded text is valid UTF-8: decoding it again changes nothing.\<close>

lemma utf8_lossy_idem: "utf8_lossy (utf8_lossy bs) = utf8_lossy bs"
proof (induction bs rule: utf8_lossy.induct)
  case (2 b rest)
  let ?n = "utf8_front b rest" and ?r = "utf8_lossy (drop (utf8_front b rest) (b # rest))"
  have IH: "utf8_lossy ?r = ?r" using 2 [OF refl] .
  show ?case
  proof (cases "?n = utf8_width b")
    case True
    have n: "?n \<ge> 1" by (simp add: utf8_front_def split: list.splits)
    then have t: "take ?n (b # rest) = b # take (?n - 1) rest" by (simp add: take_Cons')
    have f: "utf8_front b (take (?n - 1) rest @ ?r) = ?n" using utf8_front_append [of b rest ?r] True by simp
    have len: "length (take (?n - 1) rest) = ?n - 1"
      using utf8_front_le [of b rest] by simp
    have "utf8_lossy (b # rest) = b # take (?n - 1) rest @ ?r" using True t by (simp add: utf8_lossy.simps(2) Let_def)
    moreover have "utf8_lossy (b # take (?n - 1) rest @ ?r) = b # take (?n - 1) rest @ ?r"
      using f True len IH n by (simp add: utf8_lossy.simps(2) Let_def take_Cons' drop_Cons')
    ultimately show ?thesis by simp
  next
    case False
    then have "utf8_lossy (b # rest) = REPLACEMENT @ ?r" by (simp add: utf8_lossy.simps(2) Let_def)
    then show ?thesis using IH by (simp add: utf8_lossy_replacement)
  qed
qed simp

lemma utf8_lossy_ascii: "\<forall>b \<in> set bs. b < 0x80 \<Longrightarrow> utf8_lossy bs = bs"
proof (induction bs)
  case (Cons b bs)
  then have "utf8_width b = 1" "utf8_front b bs = 1" by (auto simp: utf8_width_def utf8_front_def split: list.splits)
  then show ?case using Cons by (simp add: utf8_lossy.simps(2) Let_def)
qed simp

section \<open>Numbers are read back\<close>

lemma to_digit_digit_char: "d < r \<Longrightarrow> r \<le> 16 \<Longrightarrow> to_digit r (digit_char d) = Some d"
  by (auto simp: to_digit_def digit_char_def Let_def)

lemma show_base_not_Nil [simp]: "show_base r n \<noteq> []"
  by (subst show_base.simps) simp

lemma show_base_digits:
  "2 \<le> r \<Longrightarrow> r \<le> 16 \<Longrightarrow> c \<in> set (show_base r n) \<Longrightarrow> \<exists>d<r. c = digit_char d"
proof (induction r n rule: show_base.induct)
  case (1 r n)
  show ?case
  proof (cases "n < r")
    case True
    then show ?thesis using 1(4) by (subst (asm) show_base.simps) auto
  next
    case False
    then have "c = digit_char (n mod r) \<or> c \<in> set (show_base r (n div r))"
      using 1(2,4) by (subst (asm) show_base.simps) auto
    then show ?thesis
    proof
      assume "c = digit_char (n mod r)"
      then show ?thesis using 1(2) by (intro exI [of _ "n mod r"]) simp
    qed (use 1(1-3) False in auto)
  qed
qed

lemma show_base_is_digit: "2 \<le> r \<Longrightarrow> r \<le> 16 \<Longrightarrow> c \<in> set (show_base r n) \<Longrightarrow> is_digit r c"
  using show_base_digits [of r c n] by (auto simp: to_digit_digit_char is_digit_def)

lemma digits_value_snoc: "digits_value r (ds @ [c]) = digits_value r ds * r + the (to_digit r c)"
  by (simp add: digits_value_def)

lemma digits_value_show: "2 \<le> r \<Longrightarrow> r \<le> 16 \<Longrightarrow> digits_value r (show_base r n) = n"
proof (induction r n rule: show_base.induct)
  case (1 r n)
  show ?case
  proof (cases "n < r")
    case True
    then show ?thesis using 1(3) by (subst show_base.simps) (simp add: digits_value_def to_digit_digit_char)
  next
    case False
    then show ?thesis using 1 by (subst show_base.simps) (simp add: digits_value_snoc to_digit_digit_char)
  qed
qed

lemma length_show_base: "2 \<le> r \<Longrightarrow> n < r ^ Suc k \<Longrightarrow> length (show_base r n) \<le> Suc k"
proof (induction k arbitrary: n)
  case 0
  then show ?case by (subst show_base.simps) simp
next
  case (Suc k)
  have "n div r < r ^ Suc k" using Suc.prems by (simp add: less_mult_imp_div_less mult.commute)
  from Suc.IH [OF Suc.prems(1) this] show ?case by (subst show_base.simps) simp
qed

lemma show_base_zero_prefix: "2 \<le> r \<Longrightarrow> r \<le> 16 \<Longrightarrow> hd (show_base r n) = CHR ''0'' \<Longrightarrow> n = 0"
proof (induction r n rule: show_base.induct)
  case (1 r n)
  have zero: "digit_char d = CHR ''0'' \<Longrightarrow> d < r \<Longrightarrow> d = 0" for d
    using to_digit_digit_char [of d r] 1(2,3) by (simp add: to_digit_def [of _ "CHR ''0''"])
  show ?case
  proof (cases "n < r")
    case True
    then show ?thesis using 1(4) zero by (subst (asm) show_base.simps) simp
  next
    case False
    then have "n div r = 0"
      using 1 by (subst (asm) (2) show_base.simps) (simp add: hd_append)
    then show ?thesis using False 1(2) by (simp add: div_eq_0_iff)
  qed
qed

lemma show_base_0: "2 \<le> r \<Longrightarrow> length (show_base r 0) = 1"
  by (subst show_base.simps) simp

text \<open>What may follow a number.\<close>

definition stops :: "nat \<Rightarrow> string \<Rightarrow> bool" where
  "stops r s \<longleftrightarrow> s = [] \<or> \<not> is_digit r (hd s)"

lemma read_number_show:
  assumes "2 \<le> r" "r \<le> 16" "n < lim" "stops r rest" "case maxd of Some m \<Rightarrow> 0 < m \<and> n < r ^ m | None \<Rightarrow> True"
  shows "read_number r maxd zp lim (show_base r n @ rest) = Some (n, rest)"
proof -
  have tw: "takeWhile (is_digit r) (show_base r n @ rest) = show_base r n"
    and dw: "dropWhile (is_digit r) (show_base r n @ rest) = rest"
    using assms(4) show_base_is_digit [OF assms(1,2)]
    by (cases rest; force simp: stops_def takeWhile_append dropWhile_append)+
  have "case maxd of Some m \<Rightarrow> length (show_base r n) \<le> m | None \<Rightarrow> True"
  proof (cases maxd)
    case (Some m)
    then show ?thesis using assms(1,5) length_show_base [of r n "m - 1"] by (cases m) auto
  qed simp
  moreover have "\<not> (hd (show_base r n) = CHR ''0'' \<and> 1 < length (show_base r n))"
    using show_base_zero_prefix [OF assms(1,2)] show_base_0 [OF assms(1)] by fastforce
  ultimately show ?thesis
    using assms(3) by (auto simp: read_number_def Let_def tw dw digits_value_show [OF assms(1,2)] split: option.splits)
qed

section \<open>Addresses are read back\<close>

lemma stops_Cons [simp]: "stops r (c # s) \<longleftrightarrow> \<not> is_digit r c"
  by (simp add: stops_def)

lemma stops_Nil [simp]: "stops r []"
  by (simp add: stops_def)

lemma not_digit [simp]:
  "\<not> is_digit r CHR ''.''" "\<not> is_digit r CHR '':''" "\<not> is_digit r CHR ''%''" "\<not> is_digit r CHR ''['' " "r \<le> 16 \<Longrightarrow> \<not> is_digit r CHR '']''"
  by (simp_all add: is_digit_def to_digit_def)

lemma unat_u8_less: "unat (a :: u8) < 256"
  using unsigned_less [of a, where ?'a = nat] by simp

lemma unat_u16_less: "unat (a :: u16) < 65536"
  using unsigned_less [of a, where ?'a = nat] by simp

lemma unat_u32_less: "unat (a :: u32) < 4294967296"
  using unsigned_less [of a, where ?'a = nat] by simp

lemma read_octet_show: "stops 10 rest \<Longrightarrow> read_octet (show_nat (unat (a :: u8)) @ rest) = Some (unat a, rest)"
  using unat_u8_less [of a] by (simp add: read_octet_def read_number_show)

lemma read_ipv4_show: "stops 10 rest \<Longrightarrow> read_ipv4_addr (show_ipv4 ip @ rest) = Some (ip, rest)"
  by (cases ip) (simp add: read_ipv4_addr_def read_separator_def read_octet_show)

lemma read_port_show:
  "stops 10 rest \<Longrightarrow> read_port (CHR '':'' # show_nat (unat (p :: u16)) @ rest) = Some (unat p, rest)"
  using unat_u16_less [of p] by (simp add: read_port_def read_number_show)

text \<open>An IPv4 address needs a dot right after its first digits.\<close>

lemma read_number_rest: "read_number r m z l s = Some (n, t) \<Longrightarrow> t = dropWhile (is_digit r) s"
  by (auto simp: read_number_def Let_def split: if_splits option.splits)

lemma read_ipv4_dot:
  assumes "read_ipv4_addr s = Some x"
  shows "\<exists>t. dropWhile (is_digit 10) s = CHR ''.'' # t"
proof -
  obtain a s1 where a: "read_octet s = Some (a, s1)"
    using assms by (cases "read_octet s") (auto simp: read_ipv4_addr_def read_separator_def)
  then have s1: "s1 = dropWhile (is_digit 10) s" using read_number_rest by (simp add: read_octet_def)
  have "\<exists>t. s1 = CHR ''.'' # t"
    using assms a by (cases s1) (auto simp: read_ipv4_addr_def read_separator_def split: if_splits)
  then show ?thesis by (simp add: s1)
qed

lemma no_dot_after_group:
  assumes "\<And>c. c \<in> set xs \<Longrightarrow> c \<noteq> CHR ''.''" and "u \<noteq> []" and "hd u \<noteq> CHR ''.''" and "stops 10 u"
  shows "read_ipv4_addr (xs @ u) = None"
proof -
  obtain c u' where u: "u = c # u'" using assms(2) by (cases u) auto
  have "dropWhile (is_digit 10) (xs @ u) \<noteq> CHR ''.'' # t" for t
    using assms(1) by (induction xs) (use assms(3,4) in \<open>auto simp: u\<close>)
  then show ?thesis using read_ipv4_dot [of "xs @ u"] by (cases "read_ipv4_addr (xs @ u)") auto
qed

lemma read_nothing: "stops r s \<Longrightarrow> read_number r m z l s = None"
  by (cases s) (auto simp: read_number_def Let_def split: option.splits)

lemma read_ipv4_nothing: "stops 10 s \<Longrightarrow> read_ipv4_addr s = None"
  by (simp add: read_ipv4_addr_def read_separator_def read_octet_def read_nothing)

text \<open>What ends a list of groups: a double colon, the scope or the bracket.\<close>

definition group_end :: "string \<Rightarrow> bool" where
  "group_end s \<longleftrightarrow> (\<exists>t. s = CHR '':'' # CHR '':'' # t \<or> s = CHR ''%'' # t \<or> s = CHR '']'' # t)"

definition joined :: "nat \<Rightarrow> u16 list \<Rightarrow> string" where
  "joined i gs = (if i > 0 \<and> gs \<noteq> [] then '':'' else []) @ fmt_groups gs"

lemma joined_Cons: "joined i (g # gs) = (if i > 0 then '':'' else []) @ show_base 16 (unat g) @ joined (Suc i) gs"
  by (cases gs) (simp_all add: joined_def)

lemma joined_Nil [simp]: "joined i [] = []"
  by (simp add: joined_def)

lemma joined_0: "joined 0 gs = fmt_groups gs"
  by (simp add: joined_def)

lemma group_stops: "group_end s \<Longrightarrow> stops 16 s \<and> stops 10 s \<and> s \<noteq> [] \<and> hd s \<noteq> CHR ''.''"
  by (auto simp: group_end_def)

lemma read_groups_joined:
  assumes "group_end rest" and "i + length gs \<le> lim"
  shows "read_groups i lim (joined i gs @ rest) = (gs, False, rest)"
  using assms(2)
proof (induction gs arbitrary: i)
  case Nil
  have "read_separator CHR '':'' i read_ipv4_addr rest = None"
       "read_separator CHR '':'' i (read_number 16 (Some 4) True 65536) rest = None"
    using assms(1) by (auto simp: group_end_def read_separator_def read_nothing read_ipv4_nothing)
  then show ?case by (subst read_groups.simps) simp
next
  case (Cons g gs)
  let ?h = "show_base 16 (unat g)" and ?u = "joined (Suc i) gs @ rest"
  have u: "?u \<noteq> []" "hd ?u \<noteq> CHR ''.''" "stops 10 ?u" "stops 16 ?u"
    using group_stops [OF assms(1)] by (cases gs; auto simp: joined_Cons)+
  have "read_ipv4_addr (?h @ ?u) = None"
    using show_base_is_digit [of 16 _ "unat g"] by (intro no_dot_after_group u) force
  moreover have "read_number 16 (Some 4) True 65536 (?h @ ?u) = Some (unat g, ?u)"
    using unat_u16_less [of g] u by (intro read_number_show) auto
  ultimately have sep: "read_separator CHR '':'' i read_ipv4_addr (joined i (g # gs) @ rest) = None"
    "read_separator CHR '':'' i (read_number 16 (Some 4) True 65536) (joined i (g # gs) @ rest) = Some (unat g, ?u)"
    by (cases i; simp add: read_separator_def joined_Cons)+
  have "read_groups (Suc i) lim ?u = (gs, False, rest)" using Cons by simp
  then show ?case using Cons.prems by (subst read_groups.simps) (simp add: sep)
qed

lemma concat_pair_up: "even (length bs) \<Longrightarrow> concat (map (to_be 2) (pair_up bs)) = bs"
  by (induction bs rule: pair_up.induct) (simp_all add: to_be_from_be)

lemma length_pair_up: "length (pair_up bs) = length bs div 2"
  by (induction bs rule: pair_up.induct) simp_all

lemma length_segments [simp]: "length (segments ip) = 8"
  by (simp add: segments_def length_pair_up)

lemma from_segments_segments: "from_segments (segments ip) = ip"
  by (simp add: from_segments_def segments_def concat_pair_up from_be_to_be)

text \<open>The run found by \<open>longest_zeros\<close> lies in the list and holds zeros only.\<close>

definition zeros_at :: "u16 list \<Rightarrow> nat \<times> nat \<Rightarrow> bool" where
  "zeros_at gs r \<longleftrightarrow> fst r + snd r \<le> length gs \<and> (\<forall>k. fst r \<le> k \<longrightarrow> k < fst r + snd r \<longrightarrow> gs ! k = 0)"

lemma longest_zeros_ok:
  assumes "zeros_at (xs @ gs) longest" and "zeros_at xs cur" and "snd cur = 0 \<or> fst cur + snd cur = length xs"
  shows "zeros_at (xs @ gs) (longest_zeros (length xs) longest cur gs)"
  using assms
proof (induction "length xs" longest cur gs arbitrary: xs rule: longest_zeros.induct)
  case (2 longest cur g gs)
  define cur' where "cur' = (if snd cur = 0 then length xs else fst cur, Suc (snd cur))"
  show ?case
  proof (cases "g = 0")
    case True
    have z: "zeros_at (xs @ [g]) cur'" "fst cur' + snd cur' = length (xs @ [g])"
      using "2.prems"(2,3) True by (auto simp: zeros_at_def cur'_def nth_append)
    have "zeros_at ((xs @ [g]) @ gs) (if snd cur' > snd longest then cur' else longest)"
      using z "2.prems"(1) True by (auto simp: zeros_at_def nth_append)
    moreover have "longest_zeros (length xs) longest cur (g # gs) =
        longest_zeros (Suc (length xs)) (if snd cur' > snd longest then cur' else longest) cur' gs"
      using True by (simp only: longest_zeros.simps Let_def cur'_def simp_thms if_True)
    ultimately show ?thesis using "2.hyps"(1) [OF True cur'_def, of "xs @ [g]"] z by simp
  next
    case False
    then show ?thesis using "2.hyps"(2) [of "xs @ [g]"] "2.prems"(1) by (simp add: zeros_at_def)
  qed
qed simp

lemma zeros_split: "zeros_at gs (start, len) \<Longrightarrow> take start gs @ replicate len 0 @ drop (start + len) gs = gs"
  by (rule nth_equalityI) (auto simp: zeros_at_def nth_append min_def)

lemma read_ipv6_compressed:
  assumes "group_end rest" and "length hs + length ts \<le> 7"
  shows "read_ipv6_addr (fmt_groups hs @ ''::'' @ fmt_groups ts @ rest) =
    Some (from_segments (hs @ replicate (8 - length hs - length ts) 0 @ ts), rest)"
proof -
  have "read_groups 0 8 (fmt_groups hs @ ''::'' @ fmt_groups ts @ rest) = (hs, False, ''::'' @ fmt_groups ts @ rest)"
    using read_groups_joined [of "''::'' @ fmt_groups ts @ rest" 0 hs 8] assms(2) by (simp add: group_end_def joined_0)
  moreover have "read_groups 0 (8 - (length hs + 1)) (fmt_groups ts @ rest) = (ts, False, rest)"
    using read_groups_joined [of rest 0 ts "8 - (length hs + 1)"] assms by (simp add: joined_0)
  ultimately show ?thesis using assms(2) by (simp add: read_ipv6_addr_def)
qed

lemma read_ipv6_mapped:
  assumes "group_end rest"
  shows "read_ipv6_addr (''::ffff:'' @ show_ipv4 (Ipv4Addr a b c d) @ rest) =
    Some (from_segments [0, 0, 0, 0, 0, 0xFFFF, from_be [a, b], from_be [c, d]], rest)"
proof -
  let ?v = "show_ipv4 (Ipv4Addr a b c d) @ rest" and ?n = "read_number 16 (Some 4) True 65536"
  have f: "show_base 16 65535 = ''ffff''" by (simp add: show_base.simps digit_char_def char_of_eq_iff)
  have head: "read_groups 0 8 (''::ffff:'' @ ?v) = ([], False, ''::ffff:'' @ ?v)"
    using read_groups_joined [of "''::ffff:'' @ ?v" 0 "[]" 8] by (simp add: group_end_def)
  have "read_ipv4_addr (''ffff:'' @ ?v) = None" by (rule read_ipv4_nothing) (simp add: is_digit_def to_digit_def)
  moreover have "?n (''ffff:'' @ ?v) = Some (65535, CHR '':'' # ?v)"
    using read_number_show [of 16 65535 65536 "CHR '':'' # ?v" "Some 4"] by (simp add: f)
  moreover have "read_ipv4_addr ?v = Some (Ipv4Addr a b c d, rest)"
    using group_stops [OF assms] by (intro read_ipv4_show) simp
  then have "read_groups (Suc 0) 7 (CHR '':'' # ?v) = ([from_be [a, b], from_be [c, d]], True, rest)"
    by (subst read_groups.simps) (simp add: read_separator_def)
  ultimately have "read_groups 0 7 (''ffff:'' @ ?v) = ([65535, from_be [a, b], from_be [c, d]], True, rest)"
    by (subst read_groups.simps) (simp add: read_separator_def)
  then show ?thesis using head by (simp add: read_ipv6_addr_def numeral_eq_Suc)
qed

lemma segments_mapped:
  assumes "take 6 (segments ip) = [0, 0, 0, 0, 0, 0xFFFF]"
  obtains a b c d where "concat (map (to_be 2) (drop 6 (segments ip))) = [a, b, c, d]"
    and "segments ip = [0, 0, 0, 0, 0, 0xFFFF, from_be [a, b], from_be [c, d]]"
proof -
  obtain g h where gh: "drop 6 (segments ip) = [g, h]"
    using length_segments [of ip] by (cases "drop 6 (segments ip)" rule: list.exhaust; cases "tl (drop 6 (segments ip))" rule: list.exhaust)
      (auto dest: arg_cong [where f = length])
  obtain a b where ab: "to_be 2 g = [a, b]" by (simp add: to_be_def)
  obtain c d where cd: "to_be 2 h = [c, d]" by (simp add: to_be_def)
  have "from_be [a, b] = g" "from_be [c, d] = h" using from_be_to_be [of 2 g] from_be_to_be [of 2 h] ab cd by simp_all
  moreover have "segments ip = take 6 (segments ip) @ [g, h]" by (metis append_take_drop_id gh)
  ultimately show thesis using that [of a b c d] gh ab cd assms by simp
qed

lemma read_ipv6_show:
  assumes "group_end rest"
  shows "read_ipv6_addr (show_ipv6 ip @ rest) = Some (ip, rest)"
proof (cases "take 6 (segments ip) = [0, 0, 0, 0, 0, 0xFFFF]")
  case True
  then obtain a b c d where abcd: "concat (map (to_be 2) (drop 6 (segments ip))) = [a, b, c, d]"
    "segments ip = [0, 0, 0, 0, 0, 0xFFFF, from_be [a, b], from_be [c, d]]"
    by (rule segments_mapped)
  then have "show_ipv6 ip = ''::ffff:'' @ show_ipv4 (Ipv4Addr a b c d)"
    using True by (simp add: show_ipv6_def Let_def del: show_ipv4.simps)
  then show ?thesis
    using read_ipv6_mapped [OF assms, of a b c d] from_segments_segments [of ip] by (simp add: abcd(2) del: show_ipv4.simps)
next
  case False
  obtain start len where run: "longest_zeros 0 (0, 0) (0, 0) (segments ip) = (start, len)" by fastforce
  have z: "zeros_at (segments ip) (start, len)"
    using longest_zeros_ok [of "[]" "segments ip" "(0, 0)" "(0, 0)"] by (simp add: run zeros_at_def)
  show ?thesis
  proof (cases "len > 1")
    case True
    let ?h = "take start (segments ip)" and ?t = "drop (start + len) (segments ip)"
    have "start + len \<le> 8" using z by (simp add: zeros_at_def)
    then have "read_ipv6_addr (fmt_groups ?h @ ''::'' @ fmt_groups ?t @ rest) = Some (from_segments (?h @ replicate len 0 @ ?t), rest)"
      using read_ipv6_compressed [OF assms, of ?h ?t] True by simp
    then show ?thesis
      using zeros_split [OF z] from_segments_segments [of ip] False True by (simp add: show_ipv6_def Let_def run)
  next
    case False
    have "read_groups 0 8 (fmt_groups (segments ip) @ rest) = (segments ip, False, rest)"
      using read_groups_joined [OF assms, of 0 "segments ip" 8] by (simp add: joined_0)
    moreover have "show_ipv6 ip = fmt_groups (segments ip)"
      using False \<open>take 6 (segments ip) \<noteq> _\<close> by (simp add: show_ipv6_def Let_def run)
    ultimately show ?thesis by (simp add: read_ipv6_addr_def from_segments_segments)
  qed
qed

text \<open>The flow information of an IPv6 address is not printed.\<close>

fun printable :: "socket_addr \<Rightarrow> bool" where
  "printable (V4 ip port) \<longleftrightarrow> True"
| "printable (V6 ip port flowinfo scope) \<longleftrightarrow> flowinfo = 0"

lemma parse_show_v4: "parse_socket_addr (show_socket_addr (V4 ip port)) = Some (V4 ip port)"
proof -
  have "read_ipv4_addr (show_ipv4 ip @ CHR '':'' # show_nat (unat port)) = Some (ip, CHR '':'' # show_nat (unat port))"
    by (rule read_ipv4_show) simp
  then show ?thesis
    using read_port_show [of "[]" port] by (simp add: parse_socket_addr_def read_socket_addr_v4_def)
qed

lemma parse_show_v6: "parse_socket_addr (show_socket_addr (V6 ip port 0 scope)) = Some (V6 ip port 0 scope)"
proof -
  define e where "e = '']'' @ '':'' @ show_nat (unat port)"
  define r where "r = (if scope = 0 then [] else ''%'' @ show_nat (unat scope)) @ e"
  have "group_end r" by (simp add: group_end_def r_def e_def)
  then have ip: "read_ipv6_addr (show_ipv6 ip @ r) = Some (ip, r)" by (rule read_ipv6_show)
  have sc: "(case read_scope_id r of Some (k, s3) \<Rightarrow> (k, s3) | None \<Rightarrow> (0, r)) = (unat scope, e)"
    using unat_u32_less [of scope] by (simp add: read_scope_id_def read_number_show r_def e_def)
  have "read_socket_addr_v6 (''['' @ show_ipv6 ip @ r) = Some (V6 ip port 0 scope, [])"
    using read_port_show [of "[]" port] by (simp add: read_socket_addr_v6_def ip sc) (simp add: e_def)
  moreover have "read_socket_addr_v4 (''['' @ show_ipv6 ip @ r) = None"
    using read_ipv4_nothing [of "''['' @ show_ipv6 ip @ r"] by (simp add: read_socket_addr_v4_def)
  ultimately show ?thesis by (simp add: parse_socket_addr_def r_def e_def)
qed

lemma parse_show_socket_addr: "printable a \<Longrightarrow> parse_socket_addr (show_socket_addr a) = Some a"
  by (cases a) (simp_all only: printable.simps parse_show_v4 parse_show_v6)

end
