(* ===== verification/Ppose_Admission.thy ===== *)
theory Ppose_Admission
  imports Ppose_Crypto Ppose_Containers
begin

text \<open>
  Invitation admission, \<^verbatim>\<open>src/admission.rs\<close>: signed invitations, their wire form, and
  the trust store with its breadth-first search.  Ed25519 is a parameter (\<open>signatures\<close>)
  with its documented promises as \<open>signatures_ok\<close>.  Shown: the search returns the length
  of the shortest chain of valid invitations, a chain over honest keys consists of invitations they issued, the cap
  holds and its slots are never freed, the codec is strict, and an invitation verifies exactly in its window.
\<close>

section \<open>Model\<close>

record ('sgk, 'vk) signatures =
  sgk_from :: "bytes \<Rightarrow> 'sgk"
  sgk_bytes :: "'sgk \<Rightarrow> bytes"
  vk_of :: "'sgk \<Rightarrow> 'vk"
  vk_parse :: "bytes \<Rightarrow> 'vk option"
  vk_bytes :: "'vk \<Rightarrow> bytes"
  sign :: "'sgk \<Rightarrow> bytes \<Rightarrow> bytes"
  sig_verify :: "'vk \<Rightarrow> bytes \<Rightarrow> bytes \<Rightarrow> bool"

text \<open>Signatures of 64 bytes that verify, and 32-byte keys that survive serialisation.\<close>

definition signatures_ok :: "('sgk, 'vk) signatures \<Rightarrow> bool" where
  "signatures_ok E \<longleftrightarrow>
     (\<forall>k m. sig_verify E (vk_of E k) m (sign E k m) \<and> length (sign E k m) = 64) \<and>
     (\<forall>v. length (vk_bytes E v) = 32 \<and> vk_parse E (vk_bytes E v) = Some v) \<and>
     (\<forall>b v. vk_parse E b = Some v \<longrightarrow> vk_bytes E v = b)"

definition INVITATION_LEN :: nat where
  "INVITATION_LEN = 32 + 32 + 8 + 8 + 64"

definition DOMAIN :: bytes where
  "DOMAIN = [0x70, 0x70, 0x6F, 0x73, 0x65, 0x2D, 0x69, 0x6E, 0x76, 0x69, 0x74, 0x65, 0x2D, 0x76, 0x31]"

datatype admission_error = BadSignature | BadEncoding | NotYetValid | Expired | IssuerCapReached

definition signing_payload :: "bytes \<Rightarrow> bytes \<Rightarrow> u64 \<Rightarrow> u64 \<Rightarrow> bytes" where
  "signing_payload issuer subject issued_at expires_at =
     DOMAIN @ issuer @ subject @ u64_to_be_bytes issued_at @ u64_to_be_bytes expires_at"

datatype 'sgk invite_signing_key = InviteSigningKey (signing_key: 'sgk)

datatype 'vk invite_verifying_key = InviteVerifyingKey (verifying_key: 'vk)

record 'vk invitation =
  inv_issuer :: "'vk invite_verifying_key"
  inv_subject :: bytes
  inv_issued_at :: u64
  inv_expires_at :: u64
  inv_signature :: bytes

definition signing_from_bytes :: "('sgk, 'vk) signatures \<Rightarrow> bytes \<Rightarrow> 'sgk invite_signing_key" where
  "signing_from_bytes E bs = InviteSigningKey (sgk_from E bs)"

definition signing_to_bytes :: "('sgk, 'vk) signatures \<Rightarrow> 'sgk invite_signing_key \<Rightarrow> bytes" where
  "signing_to_bytes E k = sgk_bytes E (signing_key k)"

definition invite_public :: "('sgk, 'vk) signatures \<Rightarrow> 'sgk invite_signing_key \<Rightarrow> 'vk invite_verifying_key" where
  "invite_public E k = InviteVerifyingKey (vk_of E (signing_key k))"

definition verifying_from_bytes :: "('sgk, 'vk) signatures \<Rightarrow> bytes \<Rightarrow> admission_error + 'vk invite_verifying_key" where
  "verifying_from_bytes E bs = ok_or BadEncoding (map_option InviteVerifyingKey (vk_parse E bs))"

definition verifying_as_bytes :: "('sgk, 'vk) signatures \<Rightarrow> 'vk invite_verifying_key \<Rightarrow> bytes" where
  "verifying_as_bytes E v = vk_bytes E (verifying_key v)"

definition saturating_add :: "u64 \<Rightarrow> u64 \<Rightarrow> u64" where
  "saturating_add a b = (if unat a + unat b < 2 ^ 64 then a + b else - 1)"

definition issue ::
  "('sgk, 'vk) signatures \<Rightarrow> ('sk, 'pk) primitives \<Rightarrow> 'sgk invite_signing_key \<Rightarrow> 'pk public_identity
     \<Rightarrow> u64 \<Rightarrow> u64 \<Rightarrow> 'vk invitation" where
  "issue E P k subject now ttl_secs =
     (let issuer = invite_public E k;
          issuer_bytes = verifying_as_bytes E issuer;
          subject_bytes = as_bytes P subject;
          issued_at = now;
          expires_at = saturating_add now ttl_secs;
          payload = signing_payload issuer_bytes subject_bytes issued_at expires_at
      in \<lparr>inv_issuer = issuer, inv_subject = subject_bytes, inv_issued_at = issued_at,
          inv_expires_at = expires_at, inv_signature = sign E (signing_key k) payload\<rparr>)"

definition verify :: "('sgk, 'vk) signatures \<Rightarrow> 'vk invitation \<Rightarrow> u64 \<Rightarrow> admission_error + unit" where
  "verify E i now =
     (if now < inv_issued_at i then Inl NotYetValid
      else if now \<ge> inv_expires_at i then Inl Expired
      else
        let payload = signing_payload (verifying_as_bytes E (inv_issuer i)) (inv_subject i)
              (inv_issued_at i) (inv_expires_at i)
        in if sig_verify E (verifying_key (inv_issuer i)) payload (inv_signature i) then Inr () else Inl BadSignature)"

definition encode_invitation :: "('sgk, 'vk) signatures \<Rightarrow> 'vk invitation \<Rightarrow> bytes" where
  "encode_invitation E i =
     verifying_as_bytes E (inv_issuer i) @ inv_subject i @ u64_to_be_bytes (inv_issued_at i)
       @ u64_to_be_bytes (inv_expires_at i) @ inv_signature i"

definition decode_invitation :: "('sgk, 'vk) signatures \<Rightarrow> bytes \<Rightarrow> admission_error + 'vk invitation" where
  "decode_invitation E bs =
     (if length bs \<noteq> INVITATION_LEN then Inl BadEncoding
      else res_bind (verifying_from_bytes E (slice 0 32 bs)) (\<lambda>issuer.
        Inr \<lparr>inv_issuer = issuer, inv_subject = slice 32 64 bs, inv_issued_at = from_be (slice 64 72 bs),
             inv_expires_at = from_be (slice 72 80 bs), inv_signature = slice 80 144 bs\<rparr>))"

text \<open>The trust store; the order of the lists is the iteration order of the hash tables.\<close>

record 'vk trust_store =
  ts_roots :: "bytes list"
  ts_edges :: "(bytes \<times> (bytes \<times> 'vk invitation) list) list"
  ts_max :: nat

definition usize_max :: nat where
  "usize_max = 2 ^ 64 - 1"

definition trust_store_new :: "'vk trust_store" where
  "trust_store_new = \<lparr>ts_roots = [], ts_edges = [], ts_max = usize_max\<rparr>"

definition add_root :: "('sgk, 'vk) signatures \<Rightarrow> 'vk trust_store \<Rightarrow> 'vk invite_verifying_key \<Rightarrow> 'vk trust_store" where
  "add_root E ts root = ts\<lparr>ts_roots := List.insert (verifying_as_bytes E root) (ts_roots ts)\<rparr>"

definition set_max_invitees_per_issuer :: "'vk trust_store \<Rightarrow> nat \<Rightarrow> 'vk trust_store" where
  "set_max_invitees_per_issuer ts m = ts\<lparr>ts_max := m\<rparr>"

definition ts_ingest ::
  "('sgk, 'vk) signatures \<Rightarrow> 'vk trust_store \<Rightarrow> 'vk invitation \<Rightarrow> u64 \<Rightarrow> (admission_error + unit) \<times> 'vk trust_store" where
  "ts_ingest E ts invite now =
     (case verify E invite now of
        Inl e \<Rightarrow> (Inl e, ts)
      | Inr _ \<Rightarrow>
          let issuer = verifying_as_bytes E (inv_issuer invite);
              subject = inv_subject invite;
              subjects = (case hm_get (ts_edges ts) issuer of Some m \<Rightarrow> m | None \<Rightarrow> []);
              ts1 = ts\<lparr>ts_edges := hm_insert issuer subjects (ts_edges ts)\<rparr>
          in if hm_get subjects subject = None \<and> length subjects \<ge> ts_max ts1
             then (Inl IssuerCapReached, ts1)
             else (Inr (), ts1\<lparr>ts_edges := hm_insert issuer (hm_insert subject invite subjects) (ts_edges ts1)\<rparr>))"

text \<open>The loops of \<^verbatim>\<open>trust_depth\<close>; \<open>None\<close> is the early return on finding the subject.\<close>

fun scan_invites ::
  "('sgk, 'vk) signatures \<Rightarrow> bytes \<Rightarrow> u64 \<Rightarrow> 'vk invitation list \<Rightarrow> bytes list \<Rightarrow> bytes list
     \<Rightarrow> (bytes list \<times> bytes list) option" where
  "scan_invites E subject now [] visited next' = Some (visited, next')"
| "scan_invites E subject now (invite # rest) visited next' =
     (if isl (verify E invite now) then scan_invites E subject now rest visited next'
      else
        let s = inv_subject invite
        in if s = subject then None
           else if s \<notin> set visited then scan_invites E subject now rest (s # visited) (next' @ [s])
           else scan_invites E subject now rest visited next')"

fun scan_frontier ::
  "('sgk, 'vk) signatures \<Rightarrow> 'vk trust_store \<Rightarrow> bytes \<Rightarrow> u64 \<Rightarrow> bytes list \<Rightarrow> bytes list \<Rightarrow> bytes list
     \<Rightarrow> (bytes list \<times> bytes list) option" where
  "scan_frontier E ts subject now [] visited next' = Some (visited, next')"
| "scan_frontier E ts subject now (issuer # rest) visited next' =
     (case hm_get (ts_edges ts) issuer of
        None \<Rightarrow> scan_frontier E ts subject now rest visited next'
      | Some subjects \<Rightarrow>
          (case scan_invites E subject now (map snd subjects) visited next' of
             None \<Rightarrow> None
           | Some (v, n) \<Rightarrow> scan_frontier E ts subject now rest v n))"

fun depth_loop ::
  "('sgk, 'vk) signatures \<Rightarrow> 'vk trust_store \<Rightarrow> bytes \<Rightarrow> u64 \<Rightarrow> nat list \<Rightarrow> bytes list \<Rightarrow> bytes list \<Rightarrow> u8 option" where
  "depth_loop E ts subject now [] frontier visited = None"
| "depth_loop E ts subject now (depth # ds) frontier visited =
     (case scan_frontier E ts subject now frontier visited [] of
        None \<Rightarrow> Some (of_nat depth)
      | Some (v, n) \<Rightarrow> if n = [] then None else depth_loop E ts subject now ds n v)"

definition trust_depth :: "('sgk, 'vk) signatures \<Rightarrow> 'vk trust_store \<Rightarrow> bytes \<Rightarrow> u8 \<Rightarrow> u64 \<Rightarrow> u8 option" where
  "trust_depth E ts subject max_depth now =
     (if subject \<in> set (ts_roots ts) then Some 0
      else depth_loop E ts subject now [1..<Suc (unat max_depth)] (ts_roots ts) (ts_roots ts))"

definition is_admitted :: "('sgk, 'vk) signatures \<Rightarrow> 'vk trust_store \<Rightarrow> bytes \<Rightarrow> u8 \<Rightarrow> u64 \<Rightarrow> bool" where
  "is_admitted E ts subject max_depth now \<longleftrightarrow> trust_depth E ts subject max_depth now \<noteq> None"

section \<open>The search\<close>

text \<open>The graph the search walks: who vouches for whom with an invitation valid now.\<close>

definition vouched :: "('sgk, 'vk) signatures \<Rightarrow> u64 \<Rightarrow> 'vk invitation list \<Rightarrow> bytes set" where
  "vouched E now is = inv_subject ` {i \<in> set is. verify E i now = Inr ()}"

definition vouches :: "('sgk, 'vk) signatures \<Rightarrow> 'vk trust_store \<Rightarrow> u64 \<Rightarrow> (bytes \<times> bytes) set" where
  "vouches E ts now = {(a, b). \<exists>m. hm_get (ts_edges ts) a = Some m \<and> b \<in> vouched E now (map snd m)}"

text \<open>The identities at most \<open>d\<close> invitations away from a root.\<close>

definition within :: "('sgk, 'vk) signatures \<Rightarrow> 'vk trust_store \<Rightarrow> u64 \<Rightarrow> nat \<Rightarrow> bytes set" where
  "within E ts now d = {x. \<exists>k \<le> d. \<exists>r \<in> set (ts_roots ts). (r, x) \<in> vouches E ts now ^^ k}"

lemma isl_verify: "isl (verify E i now) \<longleftrightarrow> verify E i now \<noteq> Inr ()"
  by (cases "verify E i now") auto

lemma vouched_Nil [simp]: "vouched E now [] = {}"
  by (simp add: vouched_def)

lemma vouched_Cons [simp]:
  "vouched E now (i # is) = (if isl (verify E i now) then vouched E now is else insert (inv_subject i) (vouched E now is))"
  by (auto simp: vouched_def isl_verify)

lemma scan_invites_None:
  "scan_invites E subject now is v n = None \<longleftrightarrow> subject \<in> vouched E now is"
  by (induction E subject now "is" v n rule: scan_invites.induct) (auto simp: Let_def)

lemma scan_invites_Some:
  "scan_invites E subject now is v n = Some (v', n') \<Longrightarrow>
     set v' = set v \<union> vouched E now is \<and> set n' = set n \<union> (vouched E now is - set v)"
proof (induction E subject now "is" v n rule: scan_invites.induct)
  case (2 E subject now i "is" v n)
  then show ?case by (auto simp: Let_def split: if_splits)
qed simp

lemma vouches_Image_Cons:
  "vouches E ts now `` set (a # as) =
     (case hm_get (ts_edges ts) a of None \<Rightarrow> {} | Some m \<Rightarrow> vouched E now (map snd m)) \<union> vouches E ts now `` set as"
  by (auto simp: vouches_def split: option.splits)

lemma scan_frontier_None:
  "scan_frontier E ts subject now f v n = None \<longleftrightarrow> subject \<in> vouches E ts now `` set f"
proof (induction E ts subject now f v n rule: scan_frontier.induct)
  case (2 E ts subject now a f v n)
  show ?case
  proof (cases "hm_get (ts_edges ts) a")
    case None
    then show ?thesis using "2.IH"(1) unfolding vouches_Image_Cons by simp
  next
    case (Some m)
    note N = scan_invites_None [of E subject now "map snd m" v n]
    show ?thesis
    proof (cases "scan_invites E subject now (map snd m) v n")
      case None
      then show ?thesis using N Some unfolding vouches_Image_Cons by simp
    next
      case (Some r)
      obtain v1 n1 where r: "r = (v1, n1)" by (cases r)
      show ?thesis
        using "2.IH"(2) [OF \<open>hm_get (ts_edges ts) a = Some m\<close> Some [unfolded r] refl] N Some \<open>hm_get (ts_edges ts) a = Some m\<close>
        unfolding vouches_Image_Cons by (simp add: r)
    qed
  qed
qed simp

lemma scan_frontier_Some:
  "scan_frontier E ts subject now f v n = Some (v', n') \<Longrightarrow>
     set v' = set v \<union> vouches E ts now `` set f \<and> set n' = set n \<union> (vouches E ts now `` set f - set v)"
proof (induction E ts subject now f v n rule: scan_frontier.induct)
  case (2 E ts subject now a f v n)
  show ?case
  proof (cases "hm_get (ts_edges ts) a")
    case None
    then show ?thesis using 2 unfolding vouches_Image_Cons by simp
  next
    case (Some m)
    then obtain v1 n1 where s: "scan_invites E subject now (map snd m) v n = Some (v1, n1)"
      using "2.prems" by (auto split: option.splits)
    have "scan_frontier E ts subject now f v1 n1 = Some (v', n')" using "2.prems" Some s by simp
    from "2.IH"(2) [OF Some s refl this] scan_invites_Some [OF s] show ?thesis
      unfolding vouches_Image_Cons Some by auto
  qed
qed simp

lemma within_Suc: "within E ts now (Suc d) = within E ts now d \<union> vouches E ts now `` within E ts now d"
proof -
  have "x \<in> within E ts now (Suc d)" if x: "x \<in> vouches E ts now `` within E ts now d" for x
  proof -
    obtain y k r where "(y, x) \<in> vouches E ts now" "k \<le> d" "r \<in> set (ts_roots ts)" "(r, y) \<in> vouches E ts now ^^ k"
      using x by (auto simp: within_def)
    then have "(r, x) \<in> vouches E ts now ^^ Suc k" "Suc k \<le> Suc d" "r \<in> set (ts_roots ts)" by auto
    then show ?thesis unfolding within_def by blast
  qed
  moreover have "x \<in> within E ts now d \<union> vouches E ts now `` within E ts now d"
    if x: "x \<in> within E ts now (Suc d)" for x
  proof -
    obtain k r where k: "k \<le> Suc d" "r \<in> set (ts_roots ts)" "(r, x) \<in> vouches E ts now ^^ k"
      using x by (auto simp: within_def)
    show ?thesis
    proof (cases k)
      case (Suc j)
      then obtain y where "(r, y) \<in> vouches E ts now ^^ j" "(y, x) \<in> vouches E ts now" using k by auto
      moreover have "y \<in> within E ts now d" using calculation k Suc by (auto simp: within_def)
      ultimately show ?thesis by blast
    qed (use k in \<open>auto simp: within_def\<close>)
  qed
  moreover have "within E ts now d \<subseteq> within E ts now (Suc d)" by (auto simp: within_def intro: le_SucI)
  ultimately show ?thesis by blast
qed

lemma within_0: "within E ts now 0 = set (ts_roots ts)"
  by (auto simp: within_def)

lemma within_stuck: "vouches E ts now `` within E ts now d \<subseteq> within E ts now d \<Longrightarrow> within E ts now (d + k) = within E ts now d"
  by (induction k) (auto simp: within_Suc)

lemma within_mono: "d \<le> e \<Longrightarrow> within E ts now d \<subseteq> within E ts now e"
  by (auto simp: within_def intro: order_trans)

lemma depth_loop_spec:
  assumes "set visited = within E ts now d" and "subject \<notin> within E ts now d"
    and "set frontier \<subseteq> within E ts now d"
    and "vouches E ts now `` (within E ts now d - set frontier) \<subseteq> within E ts now d"
  shows "depth_loop E ts subject now [Suc d..<Suc D] frontier visited =
    (if subject \<in> within E ts now D then Some (of_nat (LEAST k. subject \<in> within E ts now k)) else None)"
  using assms
proof (induction "D - d" arbitrary: d frontier visited)
  case 0
  then have "within E ts now D \<subseteq> within E ts now d" by (intro within_mono) simp
  then show ?case using 0 by auto
next
  case (Suc x)
  let ?W = "within E ts now" and ?R = "vouches E ts now"
  have up: "[Suc d..<Suc D] = Suc d # [Suc (Suc d)..<Suc D]" using Suc.hyps(2) by (intro upt_conv_Cons) simp
  have img: "?W (Suc d) = ?W d \<union> ?R `` set frontier"
    using Suc.prems(3,4) by (auto simp: within_Suc)
  show ?case
  proof (cases "scan_frontier E ts subject now frontier visited []")
    case None
    then have inn: "subject \<in> ?W (Suc d)" using scan_frontier_None img by blast
    have "(LEAST k. subject \<in> ?W k) = Suc d"
    proof (intro Least_equality inn)
      fix y assume "subject \<in> ?W y"
      then show "Suc d \<le> y" using within_mono [of y d E ts now] Suc.prems(2) by (auto simp: not_less_eq_eq [symmetric])
    qed
    moreover have "Suc d \<le> D" using Suc.hyps(2) by linarith
    then have "subject \<in> ?W D" using inn within_mono [of "Suc d" D E ts now] by blast
    ultimately show ?thesis using None unfolding up by simp
  next
    case (Some r)
    obtain v n where r: "r = (v, n)" by (cases r)
    have vn: "set v = ?W (Suc d)" "set n = ?R `` set frontier - ?W d"
      using scan_frontier_Some [OF Some [unfolded r]] Suc.prems(1) img by auto
    have no: "subject \<notin> ?W (Suc d)"
      using Some scan_frontier_None [of E ts subject now frontier visited "[]"] img Suc.prems(2) by auto
    show ?thesis
    proof (cases "n = []")
      case True
      then have "?R `` ?W d \<subseteq> ?W d" using vn(2) Suc.prems(3,4) by fastforce
      then have "?W D = ?W d" using within_stuck [of E ts now d "D - d"] Suc.hyps(2) by simp
      then show ?thesis using True Some r Suc.prems(2) unfolding up by simp
    next
      case False
      have "set n \<subseteq> ?W (Suc d)" using vn img by blast
      moreover have "?R `` (?W (Suc d) - set n) \<subseteq> ?W (Suc d)" using vn(2) img within_Suc [of E ts now d] by auto
      ultimately show ?thesis
        using Suc.hyps(1) [of "Suc d" v n] Suc.hyps(2) vn(1) no False Some r unfolding up by simp
    qed
  qed
qed

lemma trust_depth_eq:
  "trust_depth E ts subject D now =
    (if subject \<in> within E ts now (unat D) then Some (of_nat (LEAST k. subject \<in> within E ts now k)) else None)"
proof (cases "subject \<in> set (ts_roots ts)")
  case True
  then have "subject \<in> within E ts now 0" by (simp add: within_0)
  then have "(LEAST k. subject \<in> within E ts now k) = 0" "subject \<in> within E ts now (unat D)"
    using within_mono [of 0 "unat D" E ts now] by auto
  then show ?thesis using True by (simp add: trust_depth_def)
next
  case False
  then show ?thesis
    using depth_loop_spec [of "ts_roots ts" E ts now 0 subject "ts_roots ts" "unat D"]
    by (simp add: trust_depth_def within_0)
qed

section \<open>Chains\<close>

definition chain :: "('sgk, 'vk) signatures \<Rightarrow> 'vk trust_store \<Rightarrow> u64 \<Rightarrow> bytes \<Rightarrow> nat \<Rightarrow> bool" where
  "chain E ts now subject k \<longleftrightarrow> (\<exists>r \<in> set (ts_roots ts). (r, subject) \<in> vouches E ts now ^^ k)"

lemma within_chain: "subject \<in> within E ts now d \<longleftrightarrow> (\<exists>k \<le> d. chain E ts now subject k)"
  by (auto simp: within_def chain_def)

lemma least_chain:
  assumes "chain E ts now subject k"
  shows "(LEAST d. subject \<in> within E ts now d) = (LEAST d. chain E ts now subject d)"
proof (rule Least_equality)
  let ?m = "LEAST d. chain E ts now subject d"
  show "subject \<in> within E ts now ?m" using LeastI [of "chain E ts now subject", OF assms] within_chain by blast
  show "?m \<le> y" if "subject \<in> within E ts now y" for y
    using that Least_le [of "chain E ts now subject"] unfolding within_chain by (meson order_trans)
qed

section \<open>The store\<close>

definition filed_ok :: "('sgk, 'vk) signatures \<Rightarrow> bytes \<Rightarrow> bytes \<times> 'vk invitation \<Rightarrow> bool" where
  "filed_ok E issuer e \<longleftrightarrow> (case e of (subject, i) \<Rightarrow>
     inv_subject i = subject \<and> verifying_as_bytes E (inv_issuer i) = issuer \<and>
     sig_verify E (verifying_key (inv_issuer i))
       (signing_payload issuer subject (inv_issued_at i) (inv_expires_at i)) (inv_signature i))"

text \<open>
  The public operations that change a store, and a store's history as the list of those
  applied to it.
\<close>

datatype 'vk store_op =
    AddRoot "'vk invite_verifying_key"
  | SetMax nat
  | Ingest "'vk invitation" u64

fun store_do :: "('sgk, 'vk) signatures \<Rightarrow> 'vk store_op \<Rightarrow> 'vk trust_store \<Rightarrow> 'vk trust_store" where
  "store_do E (AddRoot root) ts = add_root E ts root"
| "store_do E (SetMax n) ts = set_max_invitees_per_issuer ts n"
| "store_do E (Ingest i now) ts = snd (ts_ingest E ts i now)"

definition store_run :: "('sgk, 'vk) signatures \<Rightarrow> 'vk store_op list \<Rightarrow> 'vk trust_store \<Rightarrow> 'vk trust_store" where
  "store_run E ops ts = fold (store_do E) ops ts"

text \<open>What is filed under an issuer.\<close>

definition invitees :: "'vk trust_store \<Rightarrow> bytes \<Rightarrow> (bytes \<times> 'vk invitation) list" where
  "invitees ts k = (case hm_get (ts_edges ts) k of Some m \<Rightarrow> m | None \<Rightarrow> [])"

lemma verify_Inr:
  "verify E i now = Inr u \<longleftrightarrow> inv_issued_at i \<le> now \<and> now < inv_expires_at i \<and>
     sig_verify E (verifying_key (inv_issuer i))
       (signing_payload (verifying_as_bytes E (inv_issuer i)) (inv_subject i) (inv_issued_at i) (inv_expires_at i))
       (inv_signature i)"
  by (auto simp: verify_def Let_def not_less not_le)

lemma length_hm_insert_le:
  "length (hm_insert k v m) \<le> (if hm_get m k = None then Suc (length m) else length m)"
  by (induction m) (auto simp: hm_insert_def split: if_splits)

lemma list_all_hm_insert: "list_all p m \<Longrightarrow> p (k, v) \<Longrightarrow> list_all p (hm_insert k v m)"
  by (induction m) (auto simp: hm_insert_def)

lemma keys_hm_insert: "fst ` set (hm_insert k v m) = insert k (fst ` set m)"
  by (induction m) (auto simp: hm_insert_def)

lemma vouches_invitees: "(a, b) \<in> vouches E ts now \<longleftrightarrow> (\<exists>e \<in> set (invitees ts a). verify E (snd e) now = Inr () \<and> inv_subject (snd e) = b)"
  by (force simp: vouches_def vouched_def invitees_def split: option.splits)

text \<open>When an invitation is filed, and what filing it changes.\<close>

lemma ingest_Inr:
  "fst (ts_ingest E ts i now) = Inr () \<longleftrightarrow> verify E i now = Inr () \<and>
     (inv_subject i \<in> fst ` set (invitees ts (verifying_as_bytes E (inv_issuer i))) \<or>
      length (invitees ts (verifying_as_bytes E (inv_issuer i))) < ts_max ts)"
  by (cases "verify E i now") (auto simp: ts_ingest_def Let_def invitees_def map_of_eq_None_iff split: option.splits)

lemma ingest_cap:
  "verify E i now = Inr () \<Longrightarrow> fst (ts_ingest E ts i now) \<noteq> Inr () \<Longrightarrow> fst (ts_ingest E ts i now) = Inl IssuerCapReached"
  by (auto simp: ts_ingest_def Let_def split: if_splits)

lemma filing_frame:
  assumes "hm_wf (ts_edges ts)"
  shows "hm_wf (ts_edges (snd (ts_ingest E ts i now)))" and "ts_max (snd (ts_ingest E ts i now)) = ts_max ts"
    and "ts_roots (snd (ts_ingest E ts i now)) = ts_roots ts"
    and "invitees (snd (ts_ingest E ts i now)) k =
      (if fst (ts_ingest E ts i now) = Inr () \<and> k = verifying_as_bytes E (inv_issuer i)
       then hm_insert (inv_subject i) i (invitees ts k) else invitees ts k)"
  using assms by (cases "verify E i now"; auto simp: ts_ingest_def Let_def invitees_def hm.wf_ins hm.map_of_ins split: option.splits)+

lemma store_frame [simp]:
  "invitees (add_root E ts root) k = invitees ts k" "invitees (set_max_invitees_per_issuer ts n) k = invitees ts k"
  "ts_edges (add_root E ts root) = ts_edges ts" "ts_edges (set_max_invitees_per_issuer ts n) = ts_edges ts"
  "ts_max (add_root E ts root) = ts_max ts" "ts_max (set_max_invitees_per_issuer ts n) = n"
  by (simp_all add: invitees_def add_root_def set_max_invitees_per_issuer_def)

text \<open>What holds of a store whatever its history: entries are filed where they belong and come from the history.\<close>

definition store_inv :: "('sgk, 'vk) signatures \<Rightarrow> 'vk store_op list \<Rightarrow> 'vk trust_store \<Rightarrow> bool" where
  "store_inv E ops ts \<longleftrightarrow> hm_wf (ts_edges ts) \<and>
     (\<forall>k. hm_wf (invitees ts k) \<and> list_all (filed_ok E k) (invitees ts k) \<and>
        list_all (\<lambda>e. \<exists>t. Ingest (snd e) t \<in> set ops) (invitees ts k))"

lemma store_inv_do:
  assumes inv: "store_inv E ops ts" and mem: "op \<in> set ops"
  shows "store_inv E ops (store_do E op ts)"
proof (cases op)
  case (Ingest i now)
  have wf: "hm_wf (ts_edges ts)" and
    e: "hm_wf (invitees ts k) \<and> list_all (filed_ok E k) (invitees ts k) \<and> list_all (\<lambda>e. \<exists>t. Ingest (snd e) t \<in> set ops) (invitees ts k)" for k
    using inv by (simp_all add: store_inv_def)
  have "filed_ok E (verifying_as_bytes E (inv_issuer i)) (inv_subject i, i)" if "fst (ts_ingest E ts i now) = Inr ()"
    using that by (simp add: ingest_Inr filed_ok_def verify_Inr)
  then show ?thesis
    using e mem Ingest by (auto simp: store_inv_def filing_frame [OF wf] hm.wf_ins intro!: list_all_hm_insert)
qed (use inv in \<open>simp_all add: store_inv_def\<close>)

lemma new_store [simp]: "invitees trust_store_new k = []" "hm_wf (ts_edges trust_store_new)"
  by (simp_all add: trust_store_new_def invitees_def hm_wf_def)

lemma store_run_inv: "store_inv E ops (store_run E ops trust_store_new)"
  unfolding store_run_def
  by (rule fold_invariant [where Q = "\<lambda>op. op \<in> set ops"]) (simp_all add: store_inv_do, unfold store_inv_def, simp, simp add: hm_wf_def)

text \<open>A cap that is never raised above \<open>c\<close> is kept.\<close>

definition capped :: "nat \<Rightarrow> 'vk trust_store \<Rightarrow> bool" where
  "capped c ts \<longleftrightarrow> hm_wf (ts_edges ts) \<and> ts_max ts \<le> c \<and> (\<forall>k. length (invitees ts k) \<le> c)"

lemma ingest_length:
  assumes "hm_wf (ts_edges ts)"
  shows "length (invitees (snd (ts_ingest E ts i now)) k) \<le> max (length (invitees ts k)) (ts_max ts)"
  using length_hm_insert_le [of "inv_subject i" i "invitees ts k"]
  by (auto simp: filing_frame [OF assms] ingest_Inr map_of_eq_None_iff split: if_splits)

definition caps_below :: "nat \<Rightarrow> 'vk store_op list \<Rightarrow> bool" where
  "caps_below c ops \<longleftrightarrow> (\<forall>n. SetMax n \<in> set ops \<longrightarrow> n \<le> c)"

lemma capped_do: "capped c ts \<Longrightarrow> (\<And>n. op = SetMax n \<Longrightarrow> n \<le> c) \<Longrightarrow> capped c (store_do E op ts)"
  by (cases op) (auto simp: capped_def filing_frame(1,2) intro: order_trans [OF ingest_length])

lemma capped_run: "capped c ts \<Longrightarrow> caps_below c ops \<Longrightarrow> capped c (store_run E ops ts)"
  unfolding store_run_def
  by (rule fold_invariant [where Q = "\<lambda>op. op \<in> set ops"]) (auto simp: caps_below_def intro!: capped_do)

text \<open>An issuer whose slots are all taken keeps exactly its subjects.\<close>

definition filled :: "bytes \<Rightarrow> nat \<Rightarrow> bytes set \<Rightarrow> 'vk trust_store \<Rightarrow> bool" where
  "filled k c S ts \<longleftrightarrow> hm_wf (ts_edges ts) \<and> ts_max ts \<le> c \<and> hm_wf (invitees ts k) \<and> length (invitees ts k) = c
     \<and> fst ` set (invitees ts k) = S"

lemma filled_do:
  assumes "filled k c S ts" and "\<And>n. op = SetMax n \<Longrightarrow> n \<le> c"
  shows "filled k c S (store_do E op ts)"
proof (cases op)
  case (Ingest i now)
  have wf: "hm_wf (ts_edges ts)" and m: "ts_max ts \<le> c" "hm_wf (invitees ts k)" "length (invitees ts k) = c"
    "fst ` set (invitees ts k) = S"
    using assms(1) by (simp_all add: filled_def)
  have card: "length x = card (fst ` set x)" if "hm_wf x" for x :: "(bytes \<times> 'a invitation) list"
    using distinct_card [of "map fst x"] that by (simp add: hm_wf_def)
  have "hm_wf (hm_insert (inv_subject i) i (invitees ts k))" by (rule hm.wf_ins [OF m(2)])
  moreover have "inv_subject i \<in> S" if "fst (ts_ingest E ts i now) = Inr ()" "k = verifying_as_bytes E (inv_issuer i)"
    using that m by (auto simp: ingest_Inr)
  ultimately show ?thesis
    using Ingest m card [of "hm_insert (inv_subject i) i (invitees ts k)"] card [OF m(2)]
    by (auto simp: filled_def filing_frame [OF wf] keys_hm_insert insert_absorb)
qed (use assms in \<open>auto simp: filled_def\<close>)

lemma filled_run: "filled k c S ts \<Longrightarrow> caps_below c ops \<Longrightarrow> filled k c S (store_run E ops ts)"
  unfolding store_run_def
  by (rule fold_invariant [where Q = "\<lambda>op. op \<in> set ops"]) (auto simp: caps_below_def intro!: filled_do)

section \<open>Signed statements\<close>

definition payload_of :: "('sgk, 'vk) signatures \<Rightarrow> 'vk invitation \<Rightarrow> bytes" where
  "payload_of E i = signing_payload (verifying_as_bytes E (inv_issuer i)) (inv_subject i) (inv_issued_at i) (inv_expires_at i)"

lemma signing_payload_inj:
  "signing_payload a b t e = signing_payload a b' t' e' \<longleftrightarrow> b = b' \<and> t = t' \<and> e = e'"
proof -
  have fb: "from_be (u64_to_be_bytes t) = t" for t :: u64 by (rule from_be_to_be) simp
  have "t = t'" if "u64_to_be_bytes t = u64_to_be_bytes t'" for t t' :: u64
    using fb [of t] unfolding that fb by (rule sym)
  moreover have "b = b' \<and> u64_to_be_bytes t = u64_to_be_bytes t' \<and> u64_to_be_bytes e = u64_to_be_bytes e'"
    if "(b @ u64_to_be_bytes t) @ u64_to_be_bytes e = (b' @ u64_to_be_bytes t') @ u64_to_be_bytes e'"
    using that by (metis append_eq_append_conv length_to_be)
  ultimately have "b = b' \<and> t = t' \<and> e = e'"
    if "(b @ u64_to_be_bytes t) @ u64_to_be_bytes e = (b' @ u64_to_be_bytes t') @ u64_to_be_bytes e'" using that by blast
  then show ?thesis unfolding signing_payload_def same_append_eq append_assoc by blast
qed

text \<open>
  The calls of \<open>issue\<close> made with keys of a set \<open>honest\<close>, and that a history presents no forgery: an invitation in it whose
  signature verifies under an honest key carries a payload that a call with that key signed.
\<close>

definition signed_for ::
  "('sgk, 'vk) signatures \<Rightarrow> ('sk, 'pk) primitives \<Rightarrow> ('sgk invite_signing_key \<times> 'pk public_identity \<times> u64 \<times> u64) list
     \<Rightarrow> 'vk \<Rightarrow> bytes \<Rightarrow> bool" where
  "signed_for E P calls v payload \<longleftrightarrow>
     (\<exists>(k, subject, now, ttl) \<in> set calls. vk_of E (signing_key k) = v \<and> payload = payload_of E (issue E P k subject now ttl))"

definition unforged ::
  "('sgk, 'vk) signatures \<Rightarrow> ('sk, 'pk) primitives \<Rightarrow> ('sgk invite_signing_key \<times> 'pk public_identity \<times> u64 \<times> u64) list
     \<Rightarrow> 'vk set \<Rightarrow> 'vk store_op list \<Rightarrow> bool" where
  "unforged E P calls honest ops \<longleftrightarrow> (\<forall>i t. Ingest i t \<in> set ops \<and> verifying_key (inv_issuer i) \<in> honest \<and>
     sig_verify E (verifying_key (inv_issuer i)) (payload_of E i) (inv_signature i) \<longrightarrow>
     signed_for E P calls (verifying_key (inv_issuer i)) (payload_of E i))"

text \<open>One link of a chain: an honest key stands for a call of \<open>issue\<close> in force now, another key for anything.\<close>

definition attests ::
  "('sgk, 'vk) signatures \<Rightarrow> ('sk, 'pk) primitives \<Rightarrow> ('sgk invite_signing_key \<times> 'pk public_identity \<times> u64 \<times> u64) list
     \<Rightarrow> 'vk set \<Rightarrow> u64 \<Rightarrow> (bytes \<times> bytes) set" where
  "attests E P calls honest now = {(a, b). \<exists>v. a = vk_bytes E v \<and> (v \<in> honest \<longrightarrow>
     (\<exists>(k, subject, t, ttl) \<in> set calls. vk_of E (signing_key k) = v \<and> as_bytes P subject = b \<and>
        t \<le> now \<and> unat now < unat t + unat ttl))}"

lemma saturating_add_less: "now < saturating_add t l \<Longrightarrow> unat now < unat t + unat l"
  by (auto simp: saturating_add_def word_less_nat_alt unat_word_ariths not_less split: if_splits)
    (use unsigned_less [of now, where ?'a = nat] in simp)

lemma vouches_attests:
  assumes inv: "store_inv E ops ts" and unf: "unforged E P calls honest ops"
  shows "vouches E ts now \<subseteq> attests E P calls honest now"
proof (rule subsetI, clarify)
  fix a b assume "(a, b) \<in> vouches E ts now"
  then obtain key i where e: "(key, i) \<in> set (invitees ts a)" and v: "verify E i now = Inr ()" and b: "b = inv_subject i"
    unfolding vouches_invitees by force
  let ?v = "verifying_key (inv_issuer i)"
  obtain t where "Ingest i t \<in> set ops" and "filed_ok E a (key, i)"
    using inv e by (fastforce simp: store_inv_def list_all_iff)
  moreover from this have a: "a = vk_bytes E ?v" by (auto simp: filed_ok_def verifying_as_bytes_def)
  ultimately have s: "?v \<in> honest \<Longrightarrow> signed_for E P calls ?v (payload_of E i)"
    using unf v unfolding unforged_def payload_of_def verify_Inr by blast
  have "\<exists>(k, subject, t, ttl) \<in> set calls. vk_of E (signing_key k) = ?v \<and> as_bytes P subject = b \<and> t \<le> now \<and> unat now < unat t + unat ttl"
    if h: "?v \<in> honest"
  proof -
    obtain k subject t ttl where c: "(k, subject, t, ttl) \<in> set calls" "vk_of E (signing_key k) = ?v"
      "payload_of E i = payload_of E (issue E P k subject t ttl)"
      using s [OF h] by (auto simp: signed_for_def)
    have "inv_subject i = as_bytes P subject \<and> inv_issued_at i = t \<and> inv_expires_at i = saturating_add t ttl"
      using c(2,3) by (simp add: payload_of_def issue_def Let_def invite_public_def verifying_as_bytes_def signing_payload_inj)
    then show ?thesis using c v b saturating_add_less unfolding verify_Inr by (intro bexI [OF _ c(1)]) auto
  qed
  then show "(a, b) \<in> attests E P calls honest now" unfolding attests_def using a by blast
qed

lemma relpow_subset: "R \<subseteq> Q \<Longrightarrow> R ^^ d \<subseteq> Q ^^ d" for R Q :: "('a \<times> 'a) set"
  by (induction d) auto

section \<open>The codec\<close>

definition invitation_ok :: "'vk invitation \<Rightarrow> bool" where
  "invitation_ok i \<longleftrightarrow> length (inv_subject i) = 32 \<and> length (inv_signature i) = 64"

lemma split_invitation:
  assumes "length bs = 144"
  shows "bs = slice 0 32 bs @ slice 32 64 bs @ slice 64 72 bs @ slice 72 80 bs @ slice 80 144 bs"
proof -
  have "take 32 bs @ drop 32 bs = bs" "take 32 (drop 32 bs) @ drop 64 bs = drop 32 bs"
    "take 8 (drop 64 bs) @ drop 72 bs = drop 64 bs" "take 8 (drop 72 bs) @ drop 80 bs = drop 72 bs"
    "take 64 (drop 80 bs) = drop 80 bs"
    using append_take_drop_id [of 32 bs] append_take_drop_id [of 32 "drop 32 bs"] append_take_drop_id [of 8 "drop 64 bs"]
      append_take_drop_id [of 8 "drop 72 bs"] assms by (simp_all del: append_take_drop_id)
  then show ?thesis unfolding slice_def by simp
qed

lemma invitation_codec:
  assumes "signatures_ok E"
  shows "strict_codec invitation_ok (encode_invitation E) (decode_invitation E)"
proof unfold_locales
  fix i :: "'b invitation"
  assume ok: "invitation_ok i"
  have v: "length (verifying_as_bytes E (inv_issuer i)) = 32"
    "vk_parse E (verifying_as_bytes E (inv_issuer i)) = Some (verifying_key (inv_issuer i))"
    using assms by (simp_all add: signatures_ok_def verifying_as_bytes_def)
  have "slice 0 32 (encode_invitation E i) = verifying_as_bytes E (inv_issuer i)"
    "slice 32 64 (encode_invitation E i) = inv_subject i"
    "slice 64 72 (encode_invitation E i) = u64_to_be_bytes (inv_issued_at i)"
    "slice 72 80 (encode_invitation E i) = u64_to_be_bytes (inv_expires_at i)"
    "slice 80 144 (encode_invitation E i) = inv_signature i"
    using v(1) ok by (simp_all add: encode_invitation_def slice_def invitation_ok_def)
  then show "decode_invitation E (encode_invitation E i) = Inr i"
    using v ok by (simp add: decode_invitation_def verifying_from_bytes_def from_be_to_be ok_or_def
        encode_invitation_def invitation_ok_def INVITATION_LEN_def res_bind_def)
next
  fix bs :: bytes and i :: "'b invitation"
  assume d: "decode_invitation E bs = Inr i"
  then have len: "length bs = 144" by (auto simp: decode_invitation_def INVITATION_LEN_def split: if_splits)
  then show "invitation_ok i"
    using d by (auto simp: decode_invitation_def invitation_ok_def res_bind_Inr_iff slice_def INVITATION_LEN_def)
  have b: "verifying_as_bytes E (inv_issuer i) = slice 0 32 bs"
    using d assms by (auto simp: decode_invitation_def verifying_from_bytes_def res_bind_Inr_iff ok_or_def
        verifying_as_bytes_def signatures_ok_def split: if_splits option.splits)
  have "u64_to_be_bytes (from_be (slice 64 72 bs) :: u64) = slice 64 72 bs"
    "u64_to_be_bytes (from_be (slice 72 80 bs) :: u64) = slice 72 80 bs"
    using len by (simp_all add: to_be_from_be slice_def)
  then show "encode_invitation E i = bs"
    using d b split_invitation [OF len] by (auto simp: decode_invitation_def encode_invitation_def res_bind_Inr_iff split: if_splits)
qed

section \<open>Properties\<close>

text \<open>
  C24: the search finds the shortest chain.  \<open>trust_depth\<close> answers \<open>d\<close> exactly when
  \<open>d\<close> is within the limit, some root reaches the subject by \<open>d\<close> currently valid
  invitations, and none by fewer; it answers nothing exactly when no chain within the
  limit exists.  The order in which the hash tables are traversed has no influence.
\<close>
theorem trust_depth_shortest:
  "(trust_depth E ts subject D now = Some d) =
     (d \<le> D \<and> chain E ts now subject (unat d) \<and> \<not> (\<exists>k < unat d. chain E ts now subject k))
   \<and> (trust_depth E ts subject D now = None) = (\<not> (\<exists>k \<le> unat D. chain E ts now subject k))"
proof (cases "\<exists>k \<le> unat D. chain E ts now subject k")
  case True
  then obtain k where k: "k \<le> unat D" "chain E ts now subject k" by blast
  define m where "m = (LEAST k. chain E ts now subject k)"
  have m: "chain E ts now subject m" "m \<le> unat D" and least: "\<And>j. chain E ts now subject j \<Longrightarrow> m \<le> j"
    using k LeastI [of "chain E ts now subject"] Least_le [of "chain E ts now subject"]
    unfolding m_def by (blast, meson order_trans, blast)
  have um: "unat (of_nat m :: u8) = m"
    using m(2) unsigned_less [of D, where ?'a = nat] by (simp add: unat_of_nat)
  have t: "trust_depth E ts subject D now = Some (of_nat m)"
    unfolding trust_depth_eq least_chain [OF k(2)] m_def using True by (simp add: within_chain)
  have "d = of_nat m \<longleftrightarrow> d \<le> D \<and> chain E ts now subject (unat d) \<and> \<not> (\<exists>k < unat d. chain E ts now subject k)"
  proof
    assume "d = of_nat m"
    then show "d \<le> D \<and> chain E ts now subject (unat d) \<and> \<not> (\<exists>k < unat d. chain E ts now subject k)"
      using m least by (auto simp: um word_le_nat_alt not_less)
  next
    assume R: "d \<le> D \<and> chain E ts now subject (unat d) \<and> \<not> (\<exists>k < unat d. chain E ts now subject k)"
    then have "unat d = m" using m(1) least [of "unat d"] by (metis le_neq_implies_less)
    then show "d = of_nat m" by auto
  qed
  then show ?thesis using t True by auto
next
  case False
  then have "trust_depth E ts subject D now = None" by (simp add: trust_depth_eq within_chain)
  then show ?thesis using False by (auto simp: word_le_nat_alt)
qed

text \<open>
  C26: what a store holds, whatever its history of \<open>add_root\<close>, \<open>ingest\<close> and
  \<open>set_max_invitees_per_issuer\<close>.  Each subject is filed once under an issuer, under its own issuer and subject and with
  a signature that verifies.  If the store starts with cap \<open>c\<close> and the cap is never set above \<open>c\<close>, no issuer has
  more than \<open>c\<close> subjects.  In any case one more invitation brings an issuer to the cap in force at most, unless the issuer was
  above it already: lowering the cap removes nobody, and then the number of subjects does not grow.
\<close>
theorem trust_store_sound:
  assumes "ts = store_run E ops (set_max_invitees_per_issuer trust_store_new c)"
  shows "distinct (map fst (invitees ts k)) \<and> list_all (filed_ok E k) (invitees ts k) \<and>
    (caps_below c ops \<longrightarrow> length (invitees ts k) \<le> c) \<and>
    length (invitees (snd (ts_ingest E ts i now)) k) \<le> max (length (invitees ts k)) (ts_max ts)"
proof -
  have "ts = store_run E (SetMax c # ops) trust_store_new" using assms by (simp add: store_run_def)
  then have inv: "store_inv E (SetMax c # ops) ts" using store_run_inv [of E "SetMax c # ops"] by simp
  moreover have "capped c ts" if "caps_below c ops"
    unfolding assms by (rule capped_run [OF _ that]) (simp add: capped_def)
  ultimately show ?thesis using ingest_length by (auto simp: store_inv_def capped_def hm_wf_def)
qed

text \<open>A model of the signature scheme, to show that its promises can hold.\<close>

definition model_signatures :: "(256 word, 256 word) signatures" where
  "model_signatures = \<lparr>sgk_from = from_be, sgk_bytes = to_be 32, vk_of = (\<lambda>k. k + 1),
     vk_parse = (\<lambda>b. if length b = 32 then Some (from_be b) else None), vk_bytes = to_be 32,
     sign = (\<lambda>k m. to_be 32 (k + 1) @ to_be 32 (from_be m :: 256 word)),
     sig_verify = (\<lambda>v m s. s = to_be 32 v @ to_be 32 (from_be m :: 256 word))\<rparr>"

lemma model_signatures_ok: "signatures_ok model_signatures"
  by (auto simp: signatures_ok_def model_signatures_def from_be_to_be to_be_from_be)

definition model_invitation :: "256 word \<Rightarrow> u8 \<Rightarrow> u64 \<Rightarrow> u64 \<Rightarrow> 256 word invitation" where
  "model_invitation k s t ttl = issue model_signatures model_primitives (InviteSigningKey k)
     (public_from_bytes model_primitives (replicate 32 s)) t ttl"

lemma model_invitation_simps [simp]:
  "inv_issuer (model_invitation k s t l) = InviteVerifyingKey (k + 1)"
  "inv_subject (model_invitation k s t l) = replicate 32 s"
  "inv_issued_at (model_invitation k s t l) = t"
  "inv_expires_at (model_invitation k s t l) = saturating_add t l"
  by (simp_all add: model_invitation_def issue_def Let_def invite_public_def model_signatures_def
      model_primitives_def as_bytes_def public_from_bytes_def to_be_from_be)

lemma model_invitation_verify:
  "verify model_signatures (model_invitation k s t l) now = Inr () \<longleftrightarrow> t \<le> now \<and> now < saturating_add t l"
  unfolding verify_Inr
  by (simp add: model_invitation_def issue_def Let_def model_signatures_def invite_public_def)

text \<open>One root, and an invitation by it.\<close>

definition demo_history :: "256 word store_op list" where
  "demo_history = [AddRoot (InviteVerifyingKey 2), Ingest (model_invitation 1 7 1000 100) 1050]"

lemma demo_store:
  "store_run model_signatures demo_history (set_max_invitees_per_issuer trust_store_new 1) =
     \<lparr>ts_roots = [to_be 32 (2 :: 256 word)],
      ts_edges = [(to_be 32 (2 :: 256 word), [(replicate 32 7, model_invitation 1 7 1000 100)])], ts_max = 1\<rparr>"
proof -
  have "verify model_signatures (model_invitation 1 7 1000 100) 1050 = Inr ()"
    by (simp add: model_invitation_verify saturating_add_def word_less_nat_alt word_le_nat_alt)
  moreover have "verifying_as_bytes model_signatures (InviteVerifyingKey v) = to_be 32 v" for v
    by (simp add: verifying_as_bytes_def model_signatures_def)
  ultimately show ?thesis
    by (simp add: store_run_def demo_history_def add_root_def ts_ingest_def Let_def hm_insert_def
        set_max_invitees_per_issuer_def trust_store_new_def)
qed

theorem trust_store_sound_witness:
  "length (invitees (store_run model_signatures demo_history (set_max_invitees_per_issuer trust_store_new 1)) (to_be 32 (2 :: 256 word))) = 1 \<and>
   list_all (filed_ok model_signatures (to_be 32 (2 :: 256 word)))
     (invitees (store_run model_signatures demo_history (set_max_invitees_per_issuer trust_store_new 1)) (to_be 32 (2 :: 256 word)))"
  using trust_store_sound [OF refl, of model_signatures demo_history 1 "to_be 32 (2 :: 256 word)"]
  unfolding demo_store by (simp add: invitees_def)

text \<open>
  C25: admission needs invitations that were issued.  Let some keys be honest: they sign only through \<open>issue\<close>.  Suppose no
  forgery under an honest key is among the invitations that were presented to the store; those that were never
  presented do not matter.  Then an admitted subject is connected to a root by a chain of at most
  \<open>max_depth\<close> links, and each link whose issuer is honest is a call of \<open>issue\<close> with that key, for exactly the next
  identity of the chain, whose lifetime contains the time of the query.  So what honest keys sign cannot be used for
  another subject or at another time.
\<close>
theorem admission_needs_issue:
  assumes "unforged E P calls honest ops" and "is_admitted E (store_run E ops trust_store_new) subject D now"
  shows "\<exists>d \<le> unat D. \<exists>r \<in> set (ts_roots (store_run E ops trust_store_new)). (r, subject) \<in> attests E P calls honest now ^^ d"
proof -
  let ?ts = "store_run E ops trust_store_new"
  obtain d r where d: "d \<le> unat D" "r \<in> set (ts_roots ?ts)" "(r, subject) \<in> vouches E ?ts now ^^ d"
    using assms(2) unfolding is_admitted_def trust_depth_eq within_def by (auto split: if_splits)
  then show ?thesis using relpow_subset [OF vouches_attests [OF store_run_inv assms(1)]] by blast
qed

theorem admission_needs_issue_witness:
  "\<exists>d \<le> 1. (to_be 32 (2 :: 256 word), replicate 32 7) \<in> attests model_signatures model_primitives
     [(InviteSigningKey 1, public_from_bytes model_primitives (replicate 32 7), 1000, 100)] {2} 1050 ^^ d"
proof -
  let ?E = model_signatures and ?P = model_primitives and ?ops = "SetMax 1 # demo_history" and ?k = "to_be 32 (2 :: 256 word)"
  let ?calls = "[(InviteSigningKey 1 :: 256 word invite_signing_key, public_from_bytes ?P (replicate 32 7), 1000 :: u64, 100 :: u64)]"
  let ?ts = "store_run ?E ?ops trust_store_new"
  have ts: "?ts = \<lparr>ts_roots = [?k], ts_edges = [(?k, [(replicate 32 7, model_invitation 1 7 1000 100)])], ts_max = 1\<rparr>"
    using demo_store unfolding store_run_def by simp
  have "vk_of ?E 1 = 2" by (simp add: model_signatures_def)
  then have u: "unforged ?E ?P ?calls {2} ?ops"
    by (auto simp: unforged_def demo_history_def signed_for_def model_invitation_def)
  have "verify ?E (model_invitation 1 7 1000 100) 1050 = Inr ()"
    by (simp add: model_invitation_verify saturating_add_def word_less_nat_alt word_le_nat_alt)
  then have "(?k, replicate 32 7) \<in> vouches ?E ?ts 1050" unfolding vouches_invitees ts by (simp add: invitees_def)
  then have "chain ?E ?ts 1050 (replicate 32 7) 1" unfolding chain_def ts by simp
  then have "is_admitted ?E ?ts (replicate 32 7) 1 1050" by (auto simp: is_admitted_def trust_depth_eq within_chain)
  from admission_needs_issue [OF u this] show ?thesis unfolding ts by simp
qed

text \<open>
  An invitation is valid exactly in its window.  What \<open>issue\<close> signs at \<open>now\<close> for
  \<open>ttl\<close> seconds verifies from \<open>now\<close> on, and for \<open>ttl\<close> seconds, cut off at the
  largest 64-bit time; before and after, the error says which.
\<close>
lemma issue_verify_window:
  assumes "signatures_ok E"
  shows "verify E (issue E P k subject now ttl) t =
    (if unat t < unat now then Inl NotYetValid
     else if unat t \<ge> min (unat now + unat ttl) (2 ^ 64 - 1) then Inl Expired
     else Inr ())"
proof -
  let ?i = "issue E P k subject now ttl"
  have "unat (saturating_add now ttl) = min (unat now + unat ttl) (2 ^ 64 - 1)"
    by (auto simp: saturating_add_def unat_word_ariths unsigned_minus_1_eq_mask mask_eq_exp_minus_1 min_def)
  moreover have "sig_verify E (verifying_key (inv_issuer ?i))
      (signing_payload (verifying_as_bytes E (inv_issuer ?i)) (inv_subject ?i) (inv_issued_at ?i) (inv_expires_at ?i))
      (inv_signature ?i)"
    using assms by (simp add: issue_def Let_def invite_public_def signatures_ok_def)
  ultimately show ?thesis
    by (simp add: verify_def Let_def word_less_nat_alt word_le_nat_alt) (simp add: issue_def Let_def)
qed

text \<open>
  C33: the wire form of an invitation is unique.  Bytes decode to an invitation exactly
  when they are its encoding: 144 bytes round-trip both ways, and no other byte string
  decodes to the same invitation.
\<close>
theorem invitation_strict:
  assumes "signatures_ok E"
  shows "decode_invitation E bs = Inr i \<longleftrightarrow> invitation_ok i \<and> bs = encode_invitation E i"
  using strict_codec.dec_iff [OF invitation_codec [OF assms]] .

theorem invitation_strict_witness:
  "decode_invitation model_signatures (encode_invitation model_signatures (model_invitation 1 7 1000 100)) =
     Inr (model_invitation 1 7 1000 100)"
proof -
  have "invitation_ok (model_invitation 1 7 1000 100)"
    by (simp add: invitation_ok_def) (simp add: model_invitation_def issue_def Let_def model_signatures_def)
  then show ?thesis using invitation_strict [OF model_signatures_ok] by blast
qed

text \<open>
  C34: a slot once taken is never free again.  Let an issuer have as many subjects as the cap allows, or more, and let any operations
  follow that do not raise the cap above that number.  Then the issuer has the same subjects, and a valid
  invitation by it for anybody else is refused, at whatever time: also when all its invitations have expired,
  so that it vouches for nobody.  (The cap is documented as the number of subjects admitted at once.)
\<close>
theorem expired_invitation_holds_slot:
  assumes "ts = store_run E before trust_store_new" and "ts' = store_run E later ts"
    and "ts_max ts \<le> length (invitees ts k)" and "caps_below (length (invitees ts k)) later"
    and "verify E j now = Inr ()" and "verifying_as_bytes E (inv_issuer j) = k" and "inv_subject j \<notin> fst ` set (invitees ts k)"
  shows "fst (ts_ingest E ts' j now) = Inl IssuerCapReached \<and> fst ` set (invitees ts' k) = fst ` set (invitees ts k) \<and>
    ((\<forall>e \<in> set (invitees ts' k). inv_expires_at (snd e) \<le> now) \<longrightarrow> vouches E ts' now `` {k} = {})"
proof -
  have "filled k (length (invitees ts k)) (fst ` set (invitees ts k)) ts"
    using store_run_inv [of E before] assms(1,3) by (simp add: store_inv_def filled_def)
  from filled_run [OF this assms(4), of E] assms(2)
  have f: "ts_max ts' \<le> length (invitees ts' k)" "fst ` set (invitees ts' k) = fst ` set (invitees ts k)"
    by (simp_all add: filled_def)
  then have "fst (ts_ingest E ts' j now) \<noteq> Inr ()" using assms(6,7) by (simp add: ingest_Inr)
  moreover have "vouches E ts' now `` {k} = {}" if "\<forall>e \<in> set (invitees ts' k). inv_expires_at (snd e) \<le> now"
    using that by (force simp: vouches_invitees verify_Inr)
  ultimately show ?thesis using ingest_cap [OF assms(5)] f(2) by blast
qed

theorem expired_invitation_holds_slot_witness:
  "fst (ts_ingest model_signatures (store_run model_signatures demo_history (set_max_invitees_per_issuer trust_store_new 1))
      (model_invitation 1 8 2000 100) 2000) = Inl IssuerCapReached"
proof -
  let ?E = model_signatures and ?k = "to_be 32 (2 :: 256 word)"
  have ts: "store_run ?E demo_history (set_max_invitees_per_issuer trust_store_new 1) = store_run ?E (SetMax 1 # demo_history) trust_store_new"
    by (simp add: store_run_def)
  have m: "invitees (store_run ?E (SetMax 1 # demo_history) trust_store_new) ?k = [(replicate 32 7, model_invitation 1 7 1000 100)]"
    unfolding ts [symmetric] demo_store by (simp add: invitees_def)
  have "ts_max (store_run ?E (SetMax 1 # demo_history) trust_store_new) = 1" unfolding ts [symmetric] demo_store by simp
  moreover have "replicate 32 (8 :: u8) \<noteq> replicate 32 7" by (simp add: replicate_eq_replicate)
  moreover have "verify ?E (model_invitation 1 8 2000 100) 2000 = Inr ()"
    by (simp add: model_invitation_verify saturating_add_def word_less_nat_alt word_le_nat_alt)
  moreover have "verifying_as_bytes ?E (InviteVerifyingKey 2) = ?k" by (simp add: verifying_as_bytes_def model_signatures_def)
  ultimately show ?thesis
    using expired_invitation_holds_slot [of _ ?E "SetMax 1 # demo_history" _ "[]" ?k "model_invitation 1 8 2000 100" 2000, OF refl refl] m
    by (simp add: ts store_run_def caps_below_def)
qed

end
