(* ===== verification/Ppose_Display.thy ===== *)
theory Ppose_Display
  imports Ppose_Text Ppose_Session Ppose_Admission
begin

text \<open>
  The \<^verbatim>\<open>Display\<close> texts of the error types: those written out in \<^verbatim>\<open>network/packet.rs\<close> and
  \<^verbatim>\<open>session.rs\<close>, and those of the \<^verbatim>\<open>#[error(...)]\<close> attributes elsewhere.  The text of an
  operating system error is an argument.  Shown: two different errors of a session never
  print the same text.
\<close>

fun show_packet_error :: "packet_error \<Rightarrow> string" where
  "show_packet_error Truncated = ''truncated packet''"
| "show_packet_error BadMagic = ''bad magic''"
| "show_packet_error BadVersion = ''bad version''"
| "show_packet_error BadType = ''bad type''"
| "show_packet_error TooLarge = ''datagram too large''"
| "show_packet_error BadAddress = ''non-ipv4 address''"

fun show_frame_error :: "frame_error \<Rightarrow> string" where
  "show_frame_error FrameTruncated = ''truncated inner frame''"
| "show_frame_error BadKind = ''unknown inner kind''"
| "show_frame_error BadFragment = ''invalid fragment header''"

fun show_arq_error :: "arq_error \<Rightarrow> string" where
  "show_arq_error ArqTooLarge = ''message too large to fragment''"
| "show_arq_error (ArqFrame e) = ''inner frame: '' @ show_frame_error e"

definition show_give_up :: "arq_give_up \<Rightarrow> string" where
  "show_give_up g =
     ''gave up on seq '' @ show_nat (unat (gu_seq g)) @ '' after '' @ show_nat (unat (gu_attempts g)) @ '' attempts''"

fun show_noise_error :: "noise_error \<Rightarrow> string" where
  "show_noise_error (Setup s) = ''noise setup: '' @ s"
| "show_noise_error (Crypto s) = ''noise crypto: '' @ s"
| "show_noise_error BadState = ''invalid session state''"
| "show_noise_error KeyMismatch = ''remote static key mismatch''"
| "show_noise_error NoRemoteStatic = ''remote static not available''"

fun show_aead_error :: "aead_error \<Rightarrow> string" where
  "show_aead_error Encrypt = ''encrypt failed''"
| "show_aead_error Decrypt = ''decrypt failed''"
| "show_aead_error Nonce = ''invalid nonce length''"

fun show_admission_error :: "admission_error \<Rightarrow> string" where
  "show_admission_error BadSignature = ''invitation signature does not verify''"
| "show_admission_error BadEncoding = ''invalid invitation encoding''"
| "show_admission_error NotYetValid = ''invitation is not yet valid''"
| "show_admission_error Expired = ''invitation has expired''"
| "show_admission_error IssuerCapReached = ''issuer has reached its admitted-subject cap on this store''"

fun show_session_error :: "(io_error \<Rightarrow> string) \<Rightarrow> session_error \<Rightarrow> string" where
  "show_session_error io (SIo e) = ''io: '' @ io e"
| "show_session_error io (SNoise e) = ''noise: '' @ show_noise_error e"
| "show_session_error io (SPacket e) = ''packet: '' @ show_packet_error e"
| "show_session_error io (SArq e) = ''arq: '' @ show_arq_error e"
| "show_session_error io (SGiveUp g) = show_give_up g"
| "show_session_error io UnexpectedType = ''unexpected packet type''"
| "show_session_error io UnexpectedAddr = ''unexpected address''"
| "show_session_error io HandshakeIncomplete = ''handshake incomplete''"
| "show_session_error io STimeout = ''timeout''"
| "show_session_error io EmptyOnion = ''onion path has no hops''"

section \<open>The text determines the error\<close>

lemma show_packet_error_inj: "show_packet_error e = show_packet_error f \<longleftrightarrow> e = f"
  by (cases e; cases f) simp_all

lemma show_frame_error_inj: "show_frame_error e = show_frame_error f \<longleftrightarrow> e = f"
  by (cases e; cases f) simp_all

lemma show_arq_error_inj: "show_arq_error e = show_arq_error f \<longleftrightarrow> e = f"
  by (cases e; cases f) (simp_all add: show_frame_error_inj)

lemma show_noise_error_inj: "show_noise_error e = show_noise_error f \<longleftrightarrow> e = f"
  by (cases e; cases f) simp_all

lemma show_admission_error_inj: "show_admission_error e = show_admission_error f \<longleftrightarrow> e = f"
  by (cases e; cases f) simp_all

lemma read_show_nat: "read_number 10 None True (Suc k) (show_nat k @ CHR '' '' # u) = Some (k, CHR '' '' # u)"
  by (rule read_number_show) (simp_all add: is_digit_def to_digit_def)

lemma show_nat_prefix:
  assumes eq: "show_nat m @ CHR '' '' # s = show_nat n @ CHR '' '' # t"
  shows "m = n \<and> s = t"
proof -
  have "m \<le> n" "n \<le> m"
    using read_show_nat [of m s] read_show_nat [of n t] read_number_show [of 10 n "Suc m" "CHR '' '' # t" None True]
      read_number_show [of 10 m "Suc n" "CHR '' '' # s" None True] unfolding eq
    by (auto simp: read_number_def Let_def split: if_splits)
  then show ?thesis using eq by simp
qed

lemma show_give_up_inj: "show_give_up g = show_give_up h \<longleftrightarrow> g = h"
proof
  let ?a = "\<lambda>g. show_nat (unat (gu_attempts g)) @ CHR '' '' # ''attempts''"
  assume "show_give_up g = show_give_up h"
  then have "show_nat (unat (gu_seq g)) @ CHR '' '' # (''after '' @ ?a g) = show_nat (unat (gu_seq h)) @ CHR '' '' # (''after '' @ ?a h)"
    by (simp add: show_give_up_def)
  from show_nat_prefix [OF this] have "unat (gu_seq g) = unat (gu_seq h)" and a: "?a g = ?a h" by simp_all
  moreover have "unat (gu_attempts g) = unat (gu_attempts h)" using show_nat_prefix [OF a] by simp
  ultimately show "g = h" by (intro arq_give_up.equality) (simp_all add: word_unat_eq_iff)
qed simp

lemma show_give_up_Cons:
  "show_give_up g = c # s \<longleftrightarrow> c = CHR ''g'' \<and> s = tl (show_give_up g)"
  "c # s = show_give_up g \<longleftrightarrow> c = CHR ''g'' \<and> s = tl (show_give_up g)"
  by (auto simp: show_give_up_def)

lemmas error_text_simps = show_noise_error_inj show_packet_error_inj show_arq_error_inj show_give_up_inj show_give_up_Cons

lemma session_error_text_inj:
  assumes "inj io"
  shows "show_session_error io e = show_session_error io f \<longleftrightarrow> e = f"
  by (cases e; cases f; simp add: error_text_simps inj_eq [OF assms])

end
