(* ===== verification/Ppose_Session_Setup.thy ===== *)
theory Ppose_Session_Setup
  imports Ppose_Session_Run
begin

text \<open>
  Setting a session up: what an \<open>Ok\<close> of the handshake functions guarantees, and that two
  endpoints whose messages reach each other both get one.
\<close>

section \<open>Sequencing\<close>

lemma act_bind_Inr_iff:
  "act_bind r f = (Inr b, s', w') \<longleftrightarrow> (\<exists>a s w. r = (Inr a, s, w) \<and> f a s w = (Inr b, s', w'))"
  by (cases r; cases "fst r") auto

lemma returning_Inr_iff: "returning r = (Inr s, w) \<longleftrightarrow> r = (Inr (), s, w)"
  by (auto simp: returning_def split: prod.splits sum.splits)

lemma send_handshake_arq: "send_handshake E s w = (r, s', w') \<Longrightarrow> s_arq s' = s_arq s"
  by (auto simp: send_handshake_def send_inner_def split: prod.splits sum.splits)

lemma recv_inner_arq: "recv_inner s w = (r, s', w') \<Longrightarrow> s_arq s' = s_arq s"
  by (auto simp: recv_inner_def split: prod.splits sum.splits if_splits option.splits)

lemma recv_handshake_arq:
  assumes "recv_handshake E s w = (Inr u, s', w')"
  shows "s_arq s' = s_arq s"
proof -
  obtain ty body s1 w1 where r: "recv_inner s w = (Inr (ty, body), s1, w1)"
    and h: "(if ty \<noteq> Handshake then (Inl UnexpectedType, s1, w1)
       else case read_handshake (e_snow E) body MAX_DATAGRAM (s_noise s1) of
           (Inl e, n) \<Rightarrow> (Inl (SNoise e), s1\<lparr>s_noise := n\<rparr>, w1)
         | (Inr _, n) \<Rightarrow> (Inr (), s1\<lparr>s_noise := n\<rparr>, w1)) = (Inr u, s', w')"
    using assms by (auto simp: recv_handshake_def act_bind_Inr_iff)
  have "s_arq s' = s_arq s1" using h by (auto split: if_splits prod.splits sum.splits)
  then show ?thesis using recv_inner_arq [OF r] by simp
qed

lemma finish_handshake_Inr:
  "finish_handshake E expected s w = (Inr (), s', w') \<longleftrightarrow>
     s' = s \<and> w' = w \<and> is_transport (s_noise s) \<and>
     (\<forall>k. expected = Some k \<longrightarrow> session_remote_static E s = Inr (as_bytes (e_prims E) k))"
proof (cases expected)
  case (Some k)
  then show ?thesis
    using pin_remote_Inr [of "e_snow E" "as_bytes (e_prims E) k" "s_noise s" "()"]
    by (cases "pin_remote (e_snow E) (as_bytes (e_prims E) k) (s_noise s)")
      (auto simp: finish_handshake_def session_remote_static_def)
qed (auto simp: finish_handshake_def)

section \<open>One exchange of handshake messages\<close>

lemma handshake_call_next:
  "call h = (Inr out, h') \<Longrightarrow> \<not> is_handshake_finished N h' \<Longrightarrow>
     handshake_call N call \<lparr>handshake = Some h, transport = None\<rparr> = (Inr out, \<lparr>handshake = Some h', transport = None\<rparr>)"
  by (simp add: handshake_call_def maybe_finish_def)

lemma handshake_call_last:
  "call h = (Inr out, h') \<Longrightarrow> is_handshake_finished N h' \<Longrightarrow> into_transport_mode N h' = Inr t \<Longrightarrow>
     handshake_call N call \<lparr>handshake = Some h, transport = None\<rparr> = (Inr out, \<lparr>handshake = None, transport = Some t\<rparr>)"
  by (simp add: handshake_call_def maybe_finish_def)

lemma send_handshake_direct:
  "write_handshake (e_snow E) [] MAX_DATAGRAM (s_noise s) = (Inr msg, n) \<Longrightarrow> s_onion s = None \<Longrightarrow> \<not> via_relay s \<Longrightarrow>
     length msg \<le> 1192 \<Longrightarrow> send_at w (send_no w) = None \<Longrightarrow>
     send_handshake E s w = (Inr (), s\<lparr>s_noise := n\<rparr>,
       w\<lparr>send_no := Suc (send_no w), sent := sent w @ [(encode_outer Handshake 0 @ msg, next_hop s)]\<rparr>)"
  by (simp add: send_handshake_def send_inner_def wire_of_def encode_datagram_def send_to_def const_defs)

lemma recv_handshake_direct:
  "recv_at w (recv_no w) = Inr (encode_outer Handshake 0 @ msg, next_hop s) \<Longrightarrow> length msg \<le> 1192 \<Longrightarrow>
     read_handshake (e_snow E) msg MAX_DATAGRAM (s_noise s) = (Inr out, n) \<Longrightarrow> \<not> via_relay s \<Longrightarrow>
     recv_handshake E s w = (Inr (), s\<lparr>s_noise := n\<rparr>, w\<lparr>recv_no := Suc (recv_no w)\<rparr>)"
  by (simp add: recv_handshake_def recv_inner_def recv_raw_def recv_from_def decode_incoming_def const_defs)

text \<open>The calls the two sides make into the Noise session during the exchange.\<close>

lemma xx_initiator_calls:
  assumes xx: "xx_exchange N P ski skr params x" and "xx_msgs x = (m1, m2, m3)"
  obtains i0 i1 i2 where "noise_new N P Initiator ski = Inr \<lparr>handshake = Some i0, transport = None\<rparr>"
    and "write_handshake N [] MAX_DATAGRAM \<lparr>handshake = Some i0, transport = None\<rparr> = (Inr m1, \<lparr>handshake = Some i1, transport = None\<rparr>)"
    and "read_handshake N m2 MAX_DATAGRAM \<lparr>handshake = Some i1, transport = None\<rparr> = (Inr [], \<lparr>handshake = Some i2, transport = None\<rparr>)"
    and "write_handshake N [] MAX_DATAGRAM \<lparr>handshake = Some i2, transport = None\<rparr> =
      (Inr m3, \<lparr>handshake = None, transport = Some (fst (xx_ts x))\<rparr>)"
    and "get_remote_static N (fst (xx_ts x)) = Some (as_bytes P (public P skr))"
    and "length m1 \<le> 1192" and "length m2 \<le> 1192" and "length m3 \<le> 1192"
proof -
  obtain i0 i1 i2 i3 r0 r1 r2 r3 ti tr where
    x: "xx_i x = (i0, i1, i2, i3)" "xx_r x = (r0, r1, r2, r3)" "xx_ts x = (ti, tr)"
    by (metis prod_cases4 surj_pair)
  note ex = xx [unfolded xx_exchange.simps x assms(2) prod.case]
  show thesis
    using ex by (intro that [of i0 i1 i2])
      (auto simp: noise_new_def write_handshake_def read_handshake_def x intro: handshake_call_next handshake_call_last)
qed

lemma xx_responder_calls:
  assumes xx: "xx_exchange N P ski skr params x" and "xx_msgs x = (m1, m2, m3)"
  obtains r0 r1 r2 where "noise_new N P Responder skr = Inr \<lparr>handshake = Some r0, transport = None\<rparr>"
    and "read_handshake N m1 MAX_DATAGRAM \<lparr>handshake = Some r0, transport = None\<rparr> = (Inr [], \<lparr>handshake = Some r1, transport = None\<rparr>)"
    and "write_handshake N [] MAX_DATAGRAM \<lparr>handshake = Some r1, transport = None\<rparr> = (Inr m2, \<lparr>handshake = Some r2, transport = None\<rparr>)"
    and "read_handshake N m3 MAX_DATAGRAM \<lparr>handshake = Some r2, transport = None\<rparr> =
      (Inr [], \<lparr>handshake = None, transport = Some (snd (xx_ts x))\<rparr>)"
    and "get_remote_static N (snd (xx_ts x)) = Some (as_bytes P (public P ski))"
    and "length m1 \<le> 1192" and "length m2 \<le> 1192" and "length m3 \<le> 1192"
proof -
  obtain i0 i1 i2 i3 r0 r1 r2 r3 ti tr where
    x: "xx_i x = (i0, i1, i2, i3)" "xx_r x = (r0, r1, r2, r3)" "xx_ts x = (ti, tr)"
    by (metis prod_cases4 surj_pair)
  note ex = xx [unfolded xx_exchange.simps x assms(2) prod.case]
  show thesis
    using ex by (intro that [of r0 r1 r2])
      (auto simp: noise_new_def write_handshake_def read_handshake_def x intro: handshake_call_next handshake_call_last)
qed

text \<open>What the caller may expect: nothing, or the identity the other side has.\<close>

definition expects :: "('sk, 'pk) primitives \<Rightarrow> 'pk public_identity option \<Rightarrow> 'sk identity_secret \<Rightarrow> bool" where
  "expects P expected sk \<longleftrightarrow> primitives_ok P \<and> expected = Some (public P sk) \<or> expected = None"

lemma finish_expected:
  assumes "expects (e_prims E) expected sk" and "get_remote_static (e_snow E) t = Some (as_bytes (e_prims E) (public (e_prims E) sk))"
    and "transport (s_noise s) = Some t"
  shows "finish_handshake E expected s w = (Inr (), s, w)"
  using assms public_bytes [of "e_prims E"]
  by (auto simp: expects_def finish_handshake_def is_transport_def pin_remote_def remote_static_def)

lemma xx_initiator:
  assumes xx: "xx_exchange (e_snow E) (e_prims E) ski skr params x" and "xx_msgs x = (m1, m2, m3)"
    and ex: "expects (e_prims E) expected skr" and "\<forall>i. send_at w i = None"
    and "recv_at w (recv_no w) = Inr (encode_outer Handshake 0 @ m2, b)"
  shows "connect_initiator_pinned E ski (Direct b) expected w =
    (Inr \<lparr>next_hop = b, s_peer = b, via_relay = False, s_onion = None,
       s_noise = \<lparr>handshake = None, transport = Some (fst (xx_ts x))\<rparr>, s_arq = arq_new, drop_data = 0, s_cover = Off,
       last_cover = clock_at w (clock_no w)\<rparr>,
     w\<lparr>recv_no := Suc (recv_no w), clock_no := Suc (clock_no w), send_no := Suc (Suc (send_no w)),
       sent := sent w @ [(encode_outer Handshake 0 @ m1, b), (encode_outer Handshake 0 @ m3, b)]\<rparr>)"
  by (rule xx_initiator_calls [OF xx assms(2)])
    (use assms(4,5) in \<open>simp add: connect_initiator_pinned_def instant_now_def send_handshake_direct
      recv_handshake_direct [where msg = m2] finish_expected [OF ex] returning_def\<close>)

lemma xx_responder:
  assumes xx: "xx_exchange (e_snow E) (e_prims E) ski skr params x" and "xx_msgs x = (m1, m2, m3)"
    and ex: "expects (e_prims E) expected ski" and "\<forall>i. send_at w i = None"
    and "recv_at w (recv_no w) = Inr (encode_outer Handshake 0 @ m1, a)"
    and "recv_at w (Suc (recv_no w)) = Inr (encode_outer Handshake 0 @ m3, a)"
  shows "accept_responder_pinned E skr None expected w =
    (Inr \<lparr>next_hop = a, s_peer = a, via_relay = False, s_onion = None,
       s_noise = \<lparr>handshake = None, transport = Some (snd (xx_ts x))\<rparr>, s_arq = arq_new, drop_data = 0, s_cover = Off,
       last_cover = clock_at w (clock_no w)\<rparr>,
     w\<lparr>recv_no := Suc (Suc (recv_no w)), clock_no := Suc (clock_no w), send_no := Suc (send_no w),
       sent := sent w @ [(encode_outer Handshake 0 @ m2, a)]\<rparr>)"
proof (rule xx_responder_calls [OF xx assms(2)])
  assume m: "length m1 \<le> 1192" "length m2 \<le> 1192" "length m3 \<le> 1192"
  have "recv_from w = (Inr (encode_outer Handshake 0 @ m1, a), w\<lparr>recv_no := Suc (recv_no w)\<rparr>)"
    using assms(5) m by (simp add: recv_from_def const_defs)
  moreover fix r0 r1 r2
  assume "noise_new (e_snow E) (e_prims E) Responder skr = Inr \<lparr>handshake = Some r0, transport = None\<rparr>"
    "read_handshake (e_snow E) m1 MAX_DATAGRAM \<lparr>handshake = Some r0, transport = None\<rparr> = (Inr [], \<lparr>handshake = Some r1, transport = None\<rparr>)"
    "write_handshake (e_snow E) [] MAX_DATAGRAM \<lparr>handshake = Some r1, transport = None\<rparr> = (Inr m2, \<lparr>handshake = Some r2, transport = None\<rparr>)"
    "read_handshake (e_snow E) m3 MAX_DATAGRAM \<lparr>handshake = Some r2, transport = None\<rparr> =
      (Inr [], \<lparr>handshake = None, transport = Some (snd (xx_ts x))\<rparr>)"
    "get_remote_static (e_snow E) (snd (xx_ts x)) = Some (as_bytes (e_prims E) (public (e_prims E) ski))"
  ultimately show ?thesis
    using assms(4,6) m
    by (simp add: accept_responder_pinned_def accept_ex_def recv_raw_def decode_incoming_def instant_now_def
        send_handshake_direct recv_handshake_direct [where msg = m3] finish_expected [OF ex] returning_def)
qed

text \<open>A concrete exchange: identities 5 and 6, the datagrams crossing.\<close>

definition demo_hs :: "nat \<Rightarrow> 256 word \<Rightarrow> bytes \<Rightarrow> model_hs" where
  "demo_hs t k rem = \<lparr>mh_turn = t, mh_own = to_be 32 k, mh_remote = rem\<rparr>"

definition demo_xx :: "(bool \<times> model_hs, model_ts) xx_states" where
  "demo_xx = (let ki = to_be 32 (5 :: 256 word); kr = to_be 32 (6 :: 256 word) in
    \<lparr>xx_i = ((True, demo_hs 0 5 []), (True, demo_hs 1 5 []), (True, demo_hs 2 5 kr), (True, demo_hs 3 5 kr)),
     xx_r = ((False, demo_hs 0 6 []), (False, demo_hs 1 6 ki), (False, demo_hs 2 6 ki), (False, demo_hs 3 6 ki)),
     xx_msgs = (ki, kr, ki),
     xx_ts = (\<lparr>mt_sn = 0, mt_rn = 0, mt_remote = kr\<rparr>, \<lparr>mt_sn = 0, mt_rn = 0, mt_remote = ki\<rparr>)\<rparr>)"

definition demo_msg :: "256 word \<Rightarrow> bytes" where
  "demo_msg k = encode_outer Handshake 0 @ to_be 32 k"

lemma demo_xx_exchange: "xx_exchange model_snow model_primitives (IdentitySecret 5) (IdentitySecret 6) () demo_xx"
  by (simp add: demo_xx_def demo_hs_def model_snow_def model_primitives_def secret_to_bytes_def as_bytes_def
      public_def const_defs Let_def)

lemma demo_env: "e_snow model_env = model_snow" "e_prims model_env = model_primitives"
  by (simp_all add: model_env_def)

lemma demo_msgs: "xx_msgs demo_xx = (to_be 32 (5 :: 256 word), to_be 32 (6 :: 256 word), to_be 32 (5 :: 256 word))"
  by (simp add: demo_xx_def Let_def)

lemma demo_connect:
  "\<exists>s w'. connect_initiator_pinned model_env (IdentitySecret 5) (Direct (V4 (Ipv4Addr 10 0 0 2) 2))
      (Some (public model_primitives (IdentitySecret 6)))
      (quiet_world\<lparr>recv_at := \<lambda>_. Inr (demo_msg 6, V4 (Ipv4Addr 10 0 0 2) 2)\<rparr>) = (Inr s, w')"
proof -
  let ?w = "quiet_world\<lparr>recv_at := \<lambda>_. Inr (demo_msg 6, V4 (Ipv4Addr 10 0 0 2) 2)\<rparr>"
  from xx_initiator [OF demo_xx_exchange [folded demo_env] demo_msgs, of _ ?w "V4 (Ipv4Addr 10 0 0 2) 2"] model_primitives_ok
  show ?thesis by (auto simp: demo_env quiet_world_def demo_msg_def expects_def)
qed

section \<open>Properties\<close>

text \<open>
  C10: what a session that was set up is.  If either side's handshake function answers
  \<open>Ok\<close>, the session is in transport mode with a fresh ARQ, and if the caller pinned an
  identity, the remote static key authenticated by Noise is that identity's key.
\<close>
theorem pinned_identity:
  assumes "connect_initiator_pinned E local path expected w = (Inr s, w') \<or>
    accept_ex E local expected_relay expected outbound w = (Inr s, w')"
  shows "is_transport (s_noise s) \<and> s_arq s = arq_new \<and>
    (\<forall>k. expected = Some k \<longrightarrow> session_remote_static E s = Inr (as_bytes (e_prims E) k))"
  using assms
proof
  assume "connect_initiator_pinned E local path expected w = (Inr s, w')"
  then show ?thesis
    by (auto simp: connect_initiator_pinned_def returning_Inr_iff act_bind_Inr_iff finish_handshake_Inr Let_def
        instant_now_def dest!: send_handshake_arq recv_handshake_arq split: sum.splits prod.splits)
next
  assume "accept_ex E local expected_relay expected outbound w = (Inr s, w')"
  then show ?thesis
    by (auto simp: accept_ex_def returning_Inr_iff act_bind_Inr_iff finish_handshake_Inr Let_def set_outbound_onion_def
        instant_now_def dest!: send_handshake_arq recv_handshake_arq
        split: sum.splits prod.splits option.splits if_splits list.splits)
qed

theorem pinned_identity_witness:
  "\<exists>s w'. connect_initiator_pinned model_env (IdentitySecret 5) (Direct (V4 (Ipv4Addr 10 0 0 2) 2))
      (Some (public model_primitives (IdentitySecret 6)))
      (quiet_world\<lparr>recv_at := \<lambda>_. Inr (demo_msg 6, V4 (Ipv4Addr 10 0 0 2) 2)\<rparr>) = (Inr s, w')
    \<and> session_remote_static model_env s = Inr (to_be 32 (6 :: 256 word))"
proof -
  obtain s w' where c: "connect_initiator_pinned model_env (IdentitySecret 5) (Direct (V4 (Ipv4Addr 10 0 0 2) 2))
      (Some (public model_primitives (IdentitySecret 6)))
      (quiet_world\<lparr>recv_at := \<lambda>_. Inr (demo_msg 6, V4 (Ipv4Addr 10 0 0 2) 2)\<rparr>) = (Inr s, w')"
    using demo_connect by blast
  from pinned_identity [OF disjI1 [OF c]] c show ?thesis
    by (auto simp: demo_env as_bytes_def public_def model_primitives_def)
qed

text \<open>
  C9: the handshake completes.  Under the Noise XX exchange of snow, an initiator and a
  responder that pin each other's identity, and whose three handshake datagrams the network
  carries to the other side, both return \<open>Ok\<close> in transport mode with the paired transport
  states and each other's static key; the initiator has sent the first and third message,
  the responder the second.
\<close>
theorem handshake_completes:
  assumes xx: "xx_exchange (e_snow E) (e_prims E) ski skr params x" and "xx_msgs x = (m1, m2, m3)"
    and P: "primitives_ok (e_prims E)" and "\<forall>i. send_at wA i = None" and "\<forall>i. send_at wB i = None"
    and "recv_at wB (recv_no wB) = Inr (encode_outer Handshake 0 @ m1, a)"
    and "recv_at wA (recv_no wA) = Inr (encode_outer Handshake 0 @ m2, b)"
    and "recv_at wB (Suc (recv_no wB)) = Inr (encode_outer Handshake 0 @ m3, a)"
  shows "\<exists>sA wA' sB wB'.
    connect_initiator_pinned E ski (Direct b) (Some (public (e_prims E) skr)) wA = (Inr sA, wA') \<and>
    accept_responder_pinned E skr None (Some (public (e_prims E) ski)) wB = (Inr sB, wB') \<and>
    sent wA' = sent wA @ [(encode_outer Handshake 0 @ m1, b), (encode_outer Handshake 0 @ m3, b)] \<and>
    sent wB' = sent wB @ [(encode_outer Handshake 0 @ m2, a)] \<and>
    transport (s_noise sA) = Some (fst (xx_ts x)) \<and> transport (s_noise sB) = Some (snd (xx_ts x))"
proof -
  have "expects (e_prims E) (Some (public (e_prims E) sk)) sk" for sk using P by (simp add: expects_def)
  then show ?thesis using xx_initiator [OF assms(1,2) _ assms(4,7)] xx_responder [OF assms(1,2) _ assms(5,6,8)] by simp
qed

theorem handshake_completes_witness:
  "\<exists>sA wA'. connect_initiator_pinned model_env (IdentitySecret 5) (Direct (V4 (Ipv4Addr 10 0 0 2) 2))
      (Some (public model_primitives (IdentitySecret 6)))
      (quiet_world\<lparr>recv_at := \<lambda>_. Inr (demo_msg 6, V4 (Ipv4Addr 10 0 0 2) 2)\<rparr>) = (Inr sA, wA')
    \<and> map fst (sent wA') = [demo_msg 5, demo_msg 5]"
proof -
  let ?b = "V4 (Ipv4Addr 10 0 0 2) 2" and ?a = "V4 (Ipv4Addr 10 0 0 1) 1"
  let ?wA = "quiet_world\<lparr>recv_at := \<lambda>_. Inr (demo_msg 6, ?b)\<rparr>"
  let ?wB = "quiet_world\<lparr>recv_at := \<lambda>_. Inr (demo_msg 5, ?a)\<rparr>"
  from handshake_completes [OF demo_xx_exchange [folded demo_env] demo_msgs, of ?wA ?wB ?a ?b] model_primitives_ok
  show ?thesis by (auto simp: demo_env quiet_world_def demo_msg_def)
qed

end
