(* ===== verification/Ppose_Rendezvous.thy ===== *)
theory Ppose_Rendezvous
  imports Ppose_Udp Ppose_Containers
begin

text \<open>
  The token rendezvous service and its client codec, \<^verbatim>\<open>src/rendezvous.rs\<close>.  BLAKE3 is
  a parameter (\<open>hash\<close>).  Shown: the answer to a lookup on every map, that a
  registration is found until it expires or is replaced, whatever else the service
  processes in between, and that a token determines secret and epoch up to collisions.
\<close>

section \<open>Model\<close>

definition OP_REGISTER :: u8 where "OP_REGISTER = 1"
definition OP_LOOKUP :: u8 where "OP_LOOKUP = 2"
definition OP_REPLY :: u8 where "OP_REPLY = 3"

lemmas op_defs = OP_REGISTER_def OP_LOOKUP_def OP_REPLY_def

record rendezvous_service =
  rv_map :: "(bytes \<times> socket_addr \<times> instant) list"
  rv_ttl :: duration

definition rendezvous_bind :: rendezvous_service where
  "rendezvous_bind = \<lparr>rv_map = [], rv_ttl = from_secs 60\<rparr>"

definition rendezvous_expire :: "rendezvous_service \<Rightarrow> instant \<Rightarrow> rendezvous_service" where
  "rendezvous_expire s now = s\<lparr>rv_map := hm_retain (\<lambda>_ (_, t). now - t < rv_ttl s) (rv_map s)\<rparr>"

definition lookup_reply :: "(socket_addr \<times> instant) option \<Rightarrow> bytes" where
  "lookup_reply e = (case e of Some (V4 ip port, _) \<Rightarrow> [OP_REPLY, 1] @ addr_bytes ip port | _ \<Rightarrow> [OP_REPLY, 0])"

definition rendezvous_step ::
  "rendezvous_service \<Rightarrow> world \<Rightarrow> (io_error + bool) \<times> rendezvous_service \<times> world" where
  "rendezvous_step s w =
     (case recv_from w of
        (Inl e, w1) \<Rightarrow> if e = WouldBlock \<or> e = TimedOut then (Inr False, s, w1) else (Inl e, s, w1)
      | (Inr (buf, from), w1) \<Rightarrow>
         (case decode_outer buf of
            Inl _ \<Rightarrow> (Inr False, s, w1)
          | Inr (ty, flags, body) \<Rightarrow>
              if ty \<noteq> Rendezvous \<or> body = [] then (Inr False, s, w1)
              else case instant_now w1 of (now, w2) \<Rightarrow>
                let s1 = rendezvous_expire s now
                in if body ! 0 = OP_REGISTER then
                     if length body < 33 then (Inr False, s1, w2)
                     else case instant_now w2 of (now2, w3) \<Rightarrow>
                         (Inr True, s1\<lparr>rv_map := hm_insert (slice 1 33 body) (from, now2) (rv_map s1)\<rparr>, w3)
                   else if body ! 0 = OP_LOOKUP then
                     if length body < 33 then (Inr False, s1, w2)
                     else case encode_datagram Rendezvous (lookup_reply (hm_get (rv_map s1) (slice 1 33 body))) of
                         Inl _ \<Rightarrow> (Inr False, s1, w2)
                       | Inr pkt \<Rightarrow>
                           (case send_to pkt from w2 of
                              (Inl e, w3) \<Rightarrow> (Inl e, s1, w3)
                            | (Inr _, w3) \<Rightarrow> (Inr True, s1, w3))
                   else (Inr False, s1, w2)))"

text \<open>The bytes \<^verbatim>\<open>b"ppose-rs"\<close>, the secret and the epoch, as fed to the hasher.\<close>

definition token_input :: "bytes \<Rightarrow> u64 \<Rightarrow> bytes" where
  "token_input psk epoch_hours =
     [0x70, 0x70, 0x6F, 0x73, 0x65, 0x2D, 0x72, 0x73] @ psk @ u64_to_be_bytes epoch_hours"

definition token_from_psk :: "(bytes \<Rightarrow> bytes) \<Rightarrow> bytes \<Rightarrow> u64 \<Rightarrow> bytes" where
  "token_from_psk hash psk epoch_hours = hash (token_input psk epoch_hours)"

text \<open>The two request encoders; \<open>None\<close> is the panic of \<^verbatim>\<open>expect\<close>.\<close>

definition encode_register :: "bytes \<Rightarrow> bytes option" where
  "encode_register token =
     (case encode_datagram Rendezvous (OP_REGISTER # token) of Inr pkt \<Rightarrow> Some pkt | Inl _ \<Rightarrow> None)"

definition encode_lookup :: "bytes \<Rightarrow> bytes option" where
  "encode_lookup token =
     (case encode_datagram Rendezvous (OP_LOOKUP # token) of Inr pkt \<Rightarrow> Some pkt | Inl _ \<Rightarrow> None)"

definition decode_reply :: "bytes \<Rightarrow> socket_addr option" where
  "decode_reply pkt =
     (case decode_outer pkt of
        Inl _ \<Rightarrow> None
      | Inr (ty, flags, body) \<Rightarrow>
          if ty \<noteq> Rendezvous \<or> length body < 8 \<or> body ! 0 \<noteq> OP_REPLY \<or> body ! 1 \<noteq> 1 then None
          else Some (read_addr (slice 2 8 body)))"

section \<open>Lemmas\<close>

lemma encode_request:
  "length token = 32 \<Longrightarrow> encode_register token = Some (encode_outer Rendezvous 0 @ OP_REGISTER # token)"
  "length token = 32 \<Longrightarrow> encode_lookup token = Some (encode_outer Rendezvous 0 @ OP_LOOKUP # token)"
  by (simp_all add: encode_register_def encode_lookup_def encode_datagram_def const_defs)

lemma token_slice: "length token = 32 \<Longrightarrow> slice (Suc 0) 33 (op # token) = token"
  by (simp add: slice_def)

definition v4_of :: "(socket_addr \<times> instant) option \<Rightarrow> socket_addr option" where
  "v4_of e = (case e of Some (V4 ip port, _) \<Rightarrow> Some (V4 ip port) | _ \<Rightarrow> None)"

lemma decode_lookup_reply: "decode_reply (encode_outer Rendezvous 0 @ lookup_reply e) = v4_of e"
proof -
  have "slice 2 8 (OP_REPLY # 1 # addr_bytes ip port) = addr_bytes ip port" for ip port
    by (simp add: slice_def)
  moreover have "read_addr (addr_bytes ip port) = V4 ip port" for ip port
    using read_addr_bytes [of ip port "[]"] by simp
  ultimately show ?thesis
    by (auto simp: decode_reply_def lookup_reply_def v4_of_def op_defs split: option.splits socket_addr.splits)
qed

lemma length_lookup_reply: "length (lookup_reply e) \<le> 8"
  by (auto simp: lookup_reply_def split: option.splits socket_addr.splits)

text \<open>The entry a lookup at \<open>now\<close> finds.\<close>

definition live :: "rendezvous_service \<Rightarrow> bytes \<Rightarrow> instant \<Rightarrow> (socket_addr \<times> instant) option" where
  "live s tok now = (case hm_get (rv_map s) tok of
     Some (a, t) \<Rightarrow> if now - t < rv_ttl s then Some (a, t) else None | None \<Rightarrow> None)"

lemma get_rendezvous_expire:
  "hm_wf (rv_map s) \<Longrightarrow> hm_get (rv_map (rendezvous_expire s now)) tok = live s tok now"
  by (auto simp: rendezvous_expire_def hm_get_retain live_def split: option.splits)

lemma rendezvous_expire_wf [simp]:
  "hm_wf (rv_map s) \<Longrightarrow> hm_wf (rv_map (rendezvous_expire s now))" "rv_ttl (rendezvous_expire s now) = rv_ttl s"
  by (simp_all add: rendezvous_expire_def)

lemma step_lookup:
  assumes rf: "recv_from w = (Inr (encode_outer Rendezvous 0 @ OP_LOOKUP # tok, fr), w1)"
    and tok: "length tok = 32" and wf: "hm_wf (rv_map s)"
  shows "rendezvous_step s w =
    (case send_to (encode_outer Rendezvous 0 @ lookup_reply (live s tok (clock_at w1 (clock_no w1)))) fr
            (w1\<lparr>clock_no := Suc (clock_no w1)\<rparr>) of
       (Inl e, w3) \<Rightarrow> (Inl e, rendezvous_expire s (clock_at w1 (clock_no w1)), w3)
     | (Inr _, w3) \<Rightarrow> (Inr True, rendezvous_expire s (clock_at w1 (clock_no w1)), w3))"
proof -
  have "encode_datagram Rendezvous (lookup_reply e) = Inr (encode_outer Rendezvous 0 @ lookup_reply e)" for e
    using length_lookup_reply [of e] by (simp add: encode_datagram_def const_defs)
  then show ?thesis
    by (simp add: rendezvous_step_def rf instant_now_def Let_def op_defs tok
        token_slice [OF tok] get_rendezvous_expire [OF wf])
qed

lemma step_register:
  assumes rf: "recv_from w = (Inr (encode_outer Rendezvous 0 @ OP_REGISTER # tok, fr), w1)"
    and tok: "length tok = 32"
  shows "\<exists>w'. rendezvous_step s w =
    (Inr True, (rendezvous_expire s (clock_at w1 (clock_no w1)))\<lparr>rv_map :=
       hm_insert tok (fr, clock_at w1 (Suc (clock_no w1))) (rv_map (rendezvous_expire s (clock_at w1 (clock_no w1))))\<rparr>, w')
     \<and> recv_no w' = recv_no w1 \<and> clock_no w' = Suc (Suc (clock_no w1)) \<and> recv_at w' = recv_at w1
     \<and> clock_at w' = clock_at w1 \<and> sent w' = sent w1"
  by (simp add: rendezvous_step_def rf instant_now_def Let_def op_defs tok token_slice [OF tok])

text \<open>Any step that does not register the token keeps its entry.\<close>

definition registers :: "bytes \<Rightarrow> bytes \<Rightarrow> bool" where
  "registers tok d \<longleftrightarrow> (case decode_outer d of
     Inr (Rendezvous, flags, body) \<Rightarrow> 33 \<le> length body \<and> body ! 0 = OP_REGISTER \<and> slice 1 33 body = tok
   | _ \<Rightarrow> False)"

interpretation rendezvous: datagram_service rendezvous_step
proof unfold_locales
  fix s s' w w' res
  assume st: "rendezvous_step s w = (res, s', w')"
  obtain r w1 where rf: "recv_from w = (r, w1)" by (cases "recv_from w")
  note fr = recv_from_frame [OF rf]
  then show "same_streams w w' \<and> recv_no w' = Suc (recv_no w) \<and> clock_no w \<le> clock_no w' \<and>
    (\<exists>out. sent w' = sent w @ out \<and> length out \<le> (if isl (recv_at w (recv_no w)) then 0 else 1))"
    using st unfolding rendezvous_step_def rf
    by (auto simp: instant_now_def Let_def split: sum.splits if_splits prod.splits dest!: send_to_frame)
  fix e assume "\<forall>k. send_at w k = None"
  then show "res = Inl e \<longleftrightarrow> recv_at w (recv_no w) = Inl e \<and> hard_error (recv_at w (recv_no w))"
    using st fr unfolding recv_from_error [OF rf, THEN conjunct1] recv_from_error [OF rf, THEN conjunct2] rendezvous_step_def rf
    by (auto simp: instant_now_def Let_def send_to_None split: sum.splits if_splits prod.splits)
qed

lemmas step_frame = rendezvous.step_one

lemma step_keeps:
  assumes wf: "hm_wf (rv_map s)" and get: "hm_get (rv_map s) tok = Some (a, t)"
    and clock: "clock_at w (clock_no w) - t < rv_ttl s"
    and other: "\<And>d fr. fst (recv_from w) = Inr (d, fr) \<Longrightarrow> \<not> registers tok d"
    and st: "rendezvous_step s w = (res, s', w')"
  shows "hm_wf (rv_map s') \<and> hm_get (rv_map s') tok = Some (a, t) \<and> rv_ttl s' = rv_ttl s"
proof -
  obtain r w1 where rf: "recv_from w = (r, w1)" by (cases "recv_from w")
  have w1: "clock_at w1 = clock_at w" "clock_no w1 = clock_no w" using recv_from_world [of w] by (simp_all add: rf)
  let ?s = "rendezvous_expire s (clock_at w (clock_no w))"
  have e: "hm_get (rv_map ?s) tok = Some (a, t)" "hm_wf (rv_map ?s)"
    using wf get clock by (simp_all add: get_rendezvous_expire live_def)
  have "s' = s \<or> s' = ?s \<or> (\<exists>k v. k \<noteq> tok \<and> s' = ?s\<lparr>rv_map := hm_insert k v (rv_map ?s)\<rparr>)"
    using st other unfolding rendezvous_step_def rf
    by (auto simp: instant_now_def Let_def w1 registers_def split: sum.splits if_splits prod.splits packet_type.splits)
  then show ?thesis
    using wf get e by (auto simp: hm.wf_ins hm.map_of_ins)
qed

lemma run_keeps_entry:
  assumes "hm_wf (rv_map s)" and "hm_get (rv_map s) tok = Some (a, t)"
    and "mono (clock_at w)" and "clock_at w (clock_no w') - t < rv_ttl s"
    and "\<And>i d fr. i < n \<Longrightarrow> recv_at w (recv_no w + i) = Inr (d, fr) \<Longrightarrow> \<not> registers tok (take MAX_DATAGRAM d)"
    and "service_run rendezvous_step n s w = (s', w')"
  shows "hm_wf (rv_map s') \<and> hm_get (rv_map s') tok = Some (a, t) \<and> rv_ttl s' = rv_ttl s
    \<and> same_streams w w' \<and> recv_no w' = recv_no w + n"
  using assms
proof (induction n arbitrary: s w)
  case (Suc n)
  obtain res s1 w1 where st: "rendezvous_step s w = (res, s1, w1)" by (cases "rendezvous_step s w")
  have "\<not> registers tok d" if "fst (recv_from w) = Inr (d, fr)" for d fr
    using that Suc.prems(5) [of 0] by (cases "recv_at w (recv_no w)") (auto simp: recv_from_def)
  moreover note f = step_frame [OF st]
  have "clock_no w \<le> clock_no w'" using rendezvous.run_streams [of "Suc n" s w s' w'] Suc.prems(6) by blast
  then have "clock_at w (clock_no w) - t < rv_ttl s" using monoD [OF Suc.prems(3)] Suc.prems(4) by (meson diff_le_mono le_less_trans)
  ultimately have k: "hm_wf (rv_map s1)" "hm_get (rv_map s1) tok = Some (a, t)" "rv_ttl s1 = rv_ttl s"
    using step_keeps [OF Suc.prems(1,2) _ _ st] by blast+
  have "\<not> registers tok (take MAX_DATAGRAM d)" if "i < n" "recv_at w1 (recv_no w1 + i) = Inr (d, fr)" for i d fr
    using Suc.prems(5) [of "Suc i" d fr] that f by simp
  then show ?case
    using Suc.IH [OF k(1,2), of w1] Suc.prems(3,4,6) k(3) f by (simp add: st)
qed simp

section \<open>Properties\<close>

text \<open>
  The answer to a lookup.  On every map and for every 32-byte token, the service sends
  exactly one datagram back to the requester; read by the client it is the registered
  address if the token has an unexpired IPv4 registration, and no address otherwise.
\<close>
lemma rendezvous_answer:
  assumes "encode_lookup tok = Some d" and "length tok = 32" and "hm_wf (rv_map s)"
    and "recv_at w (recv_no w) = Inr (d, fr)" and "send_at w (send_no w) = None"
    and "rendezvous_step s w = (res, s', w')"
  shows "res = Inr True \<and> (\<exists>pkt. sent w' = sent w @ [(pkt, fr)] \<and>
    decode_reply pkt = v4_of (live s tok (clock_at w (clock_no w))))"
proof -
  have d: "d = encode_outer Rendezvous 0 @ OP_LOOKUP # tok" using assms(1) encode_request(2) [OF assms(2)] by simp
  have "length d \<le> MAX_DATAGRAM" using assms(2) by (simp add: d const_defs)
  then have rf: "recv_from w = (Inr (encode_outer Rendezvous 0 @ OP_LOOKUP # tok, fr), w\<lparr>recv_no := Suc (recv_no w)\<rparr>)"
    by (simp add: recv_from_def assms(4) d)
  show ?thesis
    using assms(5,6) step_lookup [OF rf assms(2,3)] decode_lookup_reply
    by (auto simp: send_to_def Let_def)
qed

abbreviation demo_token :: bytes where
  "demo_token \<equiv> replicate 32 5"

abbreviation demo_peer :: socket_addr where
  "demo_peer \<equiv> V4 (Ipv4Addr 10 0 0 1) 9"

text \<open>
  A registration is found.  After a registration from an IPv4 address, and any number
  of further datagrams that do not register the same token, a lookup within the TTL is
  answered with exactly that address, in at most 16 bytes.
\<close>
lemma rendezvous_register_lookup:
  assumes "encode_register tok = Some d" and "length tok = 32" and "hm_wf (rv_map s)"
    and "recv_at w (recv_no w) = Inr (d, V4 ip port)" and "rendezvous_step s w = (res, s1, w1)"
    and "mono (clock_at w) \<and> clock_at w (clock_no w2) - clock_at w (Suc (clock_no w)) < rv_ttl s"
    and "\<And>i d' fr. i < n \<Longrightarrow> recv_at w (Suc (recv_no w) + i) = Inr (d', fr) \<Longrightarrow> \<not> registers tok (take MAX_DATAGRAM d')"
    and "service_run rendezvous_step n s1 w1 = (s2, w2)"
    and "encode_lookup tok = Some q" and "recv_at w2 (recv_no w2) = Inr (q, fr)"
    and "send_at w2 (send_no w2) = None" and "rendezvous_step s2 w2 = (res', s3, w3)"
  shows "\<exists>pkt. sent w3 = sent w2 @ [(pkt, fr)] \<and> decode_reply pkt = Some (V4 ip port) \<and> length pkt \<le> 16"
proof -
  let ?t = "clock_at w (Suc (clock_no w))"
  have d: "d = encode_outer Rendezvous 0 @ OP_REGISTER # tok" using assms(1) encode_request(1) [OF assms(2)] by simp
  have q: "q = encode_outer Rendezvous 0 @ OP_LOOKUP # tok" using assms(9) encode_request(2) [OF assms(2)] by simp
  have len: "length d \<le> MAX_DATAGRAM" "length q \<le> MAX_DATAGRAM" using assms(2) by (simp_all add: d q const_defs)
  have rf: "recv_from w = (Inr (encode_outer Rendezvous 0 @ OP_REGISTER # tok, V4 ip port), w\<lparr>recv_no := Suc (recv_no w)\<rparr>)"
    using len(1) by (simp add: recv_from_def assms(4) d)
  have s1: "hm_wf (rv_map s1)" "hm_get (rv_map s1) tok = Some (V4 ip port, ?t)" "rv_ttl s1 = rv_ttl s"
    "same_streams w w1" "recv_no w1 = Suc (recv_no w)"
    using step_register [OF rf assms(2), of s] assms(5) assms(3) step_frame [OF assms(5)]
    by (auto simp: hm.wf_ins hm.map_of_ins)
  then have s2: "hm_wf (rv_map s2)" "hm_get (rv_map s2) tok = Some (V4 ip port, ?t)" "rv_ttl s2 = rv_ttl s"
    "clock_at w2 = clock_at w"
    using run_keeps_entry [OF s1(1,2), of w1 w2 n s2] assms(6,7,8) by simp_all
  have rf2: "recv_from w2 = (Inr (encode_outer Rendezvous 0 @ OP_LOOKUP # tok, fr), w2\<lparr>recv_no := Suc (recv_no w2)\<rparr>)"
    using len(2) by (simp add: recv_from_def assms(10) q)
  have l: "live s2 tok (clock_at w2 (clock_no w2)) = Some (V4 ip port, ?t)"
    using s2 assms(6) by (simp add: live_def)
  show ?thesis
    using assms(11,12) step_lookup [OF rf2 assms(2) s2(1)] decode_lookup_reply [of "Some (V4 ip port, ?t)"] l
      length_lookup_reply [of "Some (V4 ip port, ?t)"]
    by (auto simp: send_to_def Let_def v4_of_def OUTER_HEADER_LEN_def)
qed

text \<open>
  A token binds secret and epoch.  Unless the two hashed inputs collide, equal tokens
  come from equal secrets and equal epochs: the concatenation that is hashed is not
  ambiguous, for secrets of any length.
\<close>
lemma token_binding:
  assumes "hash (token_input psk e) = hash (token_input psk' e') \<Longrightarrow> token_input psk e = token_input psk' e'"
  shows "token_from_psk hash psk e = token_from_psk hash psk' e' \<longleftrightarrow> psk = psk' \<and> e = e'"
proof -
  have "token_input psk e = token_input psk' e' \<longleftrightarrow> psk = psk' \<and> e = e'"
    by (auto simp: token_input_def append_eq_append_conv to_be_inj)
  then show ?thesis using assms unfolding token_from_psk_def by blast
qed

end
