(* ===== verification/Ppose_Cli.thy ===== *)
theory Ppose_Cli
  imports Ppose_Display Ppose_Session_Setup Ppose_Session_Run Ppose_Rendezvous
begin

text \<open>
  The command line program, \<^verbatim>\<open>bin/ppose.rs\<close>, with \<^verbatim>\<open>bind_loopback\<close> of \<^verbatim>\<open>network/udp.rs\<close> and
  the \<^verbatim>\<open>generate\<close> of identities.  A command changes the world of \<open>Ppose_Udp\<close> and what was
  printed.  The arguments exclude the name of the program.  What the operating system answers when a
  socket is bound or asked for its address, the bytes it draws for a secret, and the text of
  its errors are fields of \<open>cli_env\<close>.  The value \<open>None\<close> is a program that does not end, or panics.
\<close>

section \<open>Commands\<close>

record ('np, 'hs, 'ts, 'sk, 'pk) cli_env =
  c_env :: "('np, 'hs, 'ts, 'sk, 'pk) env"
  c_bind :: "string \<Rightarrow> io_error + unit"
  c_local_addr :: "string \<Rightarrow> io_error + socket_addr"
  c_option :: "string \<Rightarrow> io_error option"
  c_random :: 'sk
  c_io_text :: "io_error \<Rightarrow> string"

datatype printed = Stdout string | Stderr string

record process =
  pr_world :: world
  pr_out :: "printed list"

text \<open>What \<^verbatim>\<open>Box<dyn Error>\<close> holds in this program.\<close>

datatype cli_error = Usage string | AddrParse | CIo io_error | CSession session_error

type_synonym 'a cmd = "process \<Rightarrow> ((cli_error + 'a) \<times> process) option"

text \<open>The operator \<^verbatim>\<open>?\<close> followed by the rest of the command.\<close>

definition cmd_bind :: "'a cmd \<Rightarrow> ('a \<Rightarrow> 'b cmd) \<Rightarrow> 'b cmd" where
  "cmd_bind m f p = (case m p of None \<Rightarrow> None | Some (Inl e, p1) \<Rightarrow> Some (Inl e, p1) | Some (Inr a, p1) \<Rightarrow> f a p1)"

definition cmd_result :: "cli_error + 'a \<Rightarrow> 'a cmd" where
  "cmd_result r p = Some (r, p)"

definition println :: "string \<Rightarrow> unit cmd" where
  "println s p = Some (Inr (), p\<lparr>pr_out := pr_out p @ [Stdout s]\<rparr>)"

definition eprintln :: "string \<Rightarrow> unit cmd" where
  "eprintln s p = Some (Inr (), p\<lparr>pr_out := pr_out p @ [Stderr s]\<rparr>)"

text \<open>An operation on the world, and a blocking call of a session, as commands.\<close>

definition on_world :: "('e \<Rightarrow> cli_error) \<Rightarrow> (world \<Rightarrow> ('e + 'a) \<times> world) \<Rightarrow> 'a cmd" where
  "on_world conv f p = (case f (pr_world p) of (r, w) \<Rightarrow> Some (map_err conv r, p\<lparr>pr_world := w\<rparr>))"

definition on_session :: "(world \<Rightarrow> ((session_error + 'a) \<times> 's \<times> world) option) \<Rightarrow> ('a \<times> 's) cmd" where
  "on_session f p =
     (case f (pr_world p) of
        None \<Rightarrow> None
      | Some (r, s, w) \<Rightarrow>
          Some (map_err CSession (case r of Inl e \<Rightarrow> Inl e | Inr a \<Rightarrow> Inr (a, s)), p\<lparr>pr_world := w\<rparr>))"

section \<open>Helpers\<close>

definition CRATE_VERSION :: string where
  "CRATE_VERSION = ''0.4.0''"

definition hex_byte :: "u8 \<Rightarrow> string" where
  "hex_byte b = (let s = show_base 16 (unat b) in replicate (2 - length s) CHR ''0'' @ s)"

definition hex :: "bytes \<Rightarrow> string" where
  "hex bs = foldl (\<lambda>out b. out @ hex_byte b) [] bs"

definition identity_generate :: "'sk \<Rightarrow> 'sk identity_secret" where
  "identity_generate drawn = IdentitySecret drawn"

text \<open>\<^verbatim>\<open>set_read_timeout\<close> and \<^verbatim>\<open>set_write_timeout\<close> on the socket that was bound to an address.\<close>

definition set_timeout :: "('np, 'hs, 'ts, 'sk, 'pk) cli_env \<Rightarrow> string \<Rightarrow> duration \<Rightarrow> io_error + unit" where
  "set_timeout C addr d = (if d = 0 then Inl InvalidInput else case c_option C addr of None \<Rightarrow> Inr () | Some e \<Rightarrow> Inl e)"

definition bind_loopback :: "('np, 'hs, 'ts, 'sk, 'pk) cli_env \<Rightarrow> io_error + socket_addr" where
  "bind_loopback C =
     res_bind (c_bind C ''127.0.0.1:0'') (\<lambda>_.
       res_bind (set_timeout C ''127.0.0.1:0'' (from_secs 2)) (\<lambda>_.
         res_bind (set_timeout C ''127.0.0.1:0'' (from_secs 2)) (\<lambda>_.
           c_local_addr C ''127.0.0.1:0'')))"

text \<open>The backslashes of the literal join its lines without their indentation.\<close>

definition help_text :: string where
  "help_text =
     ''ppose '' @ CRATE_VERSION @ '' '' @ text_of [0xE2, 0x80, 0x94] @ '' research prototype (not an anonymity network)'' @
     [CHR 0x0A, CHR 0x0A] @
     ''Commands:'' @ [CHR 0x0A] @
     ''keygen'' @ [CHR 0x0A] @
     ''listen [bind]'' @ [CHR 0x0A] @
     ''connect <peer>'' @ [CHR 0x0A] @
     ''relay [bind]              cleartext dest forwarder'' @ [CHR 0x0A] @
     ''onion-relay [bind]        PND hop (not Sphinx)'' @ [CHR 0x0A] @
     ''rs [bind]                 token rendezvous'' @ [CHR 0x0A] @
     ''rs-register <rs> [psk]'' @ [CHR 0x0A] @
     ''rs-lookup <rs> [psk]'' @ [CHR 0x0A] @
     ''version'' @ [CHR 0x0A]"

definition print_help :: "unit cmd" where
  "print_help = eprintln help_text"

text \<open>\<^verbatim>\<open>args.next().unwrap_or_else(...)\<close>, and \<^verbatim>\<open>args.next().ok_or(...)?.parse()?\<close>.\<close>

definition next_or :: "string \<Rightarrow> string list \<Rightarrow> string" where
  "next_or d args = (case args of [] \<Rightarrow> d | a # _ \<Rightarrow> a)"

definition addr_arg :: "string \<Rightarrow> string list \<Rightarrow> cli_error + socket_addr" where
  "addr_arg usage args =
     (case args of [] \<Rightarrow> Inl (Usage usage) | a # _ \<Rightarrow> ok_or AddrParse (parse_socket_addr a))"

text \<open>\<^verbatim>\<open>loop { r.step()?; }\<close>, which ends only with an error.\<close>

partial_function (option) serve ::
  "('s \<Rightarrow> world \<Rightarrow> (io_error + bool) \<times> 's \<times> world) \<Rightarrow> 's \<Rightarrow> world \<Rightarrow> (io_error \<times> 's \<times> world) option" where
  "serve step s w =
     (case step s w of
        (Inl e, s1, w1) \<Rightarrow> Some (e, s1, w1)
      | (Inr _, s1, w1) \<Rightarrow> serve step s1 w1)"

definition serving :: "('s \<Rightarrow> world \<Rightarrow> (io_error + bool) \<times> 's \<times> world) \<Rightarrow> 's \<Rightarrow> unit cmd" where
  "serving step s p =
     (case serve step s (pr_world p) of
        None \<Rightarrow> None
      | Some (e, _, w) \<Rightarrow> Some (Inl (CIo e), p\<lparr>pr_world := w\<rparr>))"

text \<open>The \<^verbatim>\<open>bind\<close> of the three services: a socket with a read timeout of 200 ms.\<close>

definition bind_service :: "('np, 'hs, 'ts, 'sk, 'pk) cli_env \<Rightarrow> string \<Rightarrow> 's \<Rightarrow> io_error + 's" where
  "bind_service C addr s =
     res_bind (c_bind C addr) (\<lambda>_. res_bind (set_timeout C addr (from_millis 200)) (\<lambda>_. Inr s))"

section \<open>The commands\<close>

definition cmd_keygen :: "('np, 'hs, 'ts, 'sk, 'pk) cli_env \<Rightarrow> unit cmd" where
  "cmd_keygen C =
     (let P = e_prims (c_env C); sk = identity_generate (c_random C)
      in cmd_bind (println (''secret  '' @ hex (secret_to_bytes P sk))) (\<lambda>_.
         cmd_bind (println (''public  '' @ hex (as_bytes P (public P sk)))) (\<lambda>_.
         println (''fp      '' @ hex (fingerprint P (public P sk))))))"

text \<open>The session \<^verbatim>\<open>listen\<close> holds once its socket is bound, and the one of \<^verbatim>\<open>connect\<close>.\<close>

definition listen_session :: "('np, 'hs, 'ts, 'sk, 'pk) cli_env \<Rightarrow> unit cmd" where
  "listen_session C =
     (let E = c_env C; P = e_prims E; ident = identity_generate (c_random C)
      in cmd_bind (println (''fp '' @ hex (fingerprint P (public P ident)))) (\<lambda>_.
         cmd_bind (on_world CSession (accept_responder E ident None)) (\<lambda>s.
         cmd_bind (on_session (session_recv E (from_secs 30) s)) (\<lambda>(msg, s1).
         cmd_bind (println (''recv '' @ from_utf8_lossy msg)) (\<lambda>_.
         cmd_bind (on_session (session_send E (string_bytes ''ack'') s1)) (\<lambda>_.
         cmd_result (Inr ())))))))"

definition cmd_listen :: "('np, 'hs, 'ts, 'sk, 'pk) cli_env \<Rightarrow> string list \<Rightarrow> unit cmd" where
  "cmd_listen C args =
     (let bind = next_or ''127.0.0.1:0'' args
      in cmd_bind (cmd_result (map_err CIo (c_bind C bind))) (\<lambda>_.
         cmd_bind (cmd_result (map_err CIo (set_timeout C bind (from_secs 30)))) (\<lambda>_.
         cmd_bind (cmd_result (map_err CIo (c_local_addr C bind))) (\<lambda>addr.
         cmd_bind (println (''listen '' @ show_socket_addr addr)) (\<lambda>_.
         listen_session C)))))"

definition connect_session :: "('np, 'hs, 'ts, 'sk, 'pk) cli_env \<Rightarrow> socket_addr \<Rightarrow> unit cmd" where
  "connect_session C peer =
     (let E = c_env C; ident = identity_generate (c_random C)
      in cmd_bind (on_world CSession (connect_initiator E ident (Direct peer))) (\<lambda>s.
         cmd_bind (on_session (session_send E (string_bytes ''hello'') s)) (\<lambda>(_, s1).
         cmd_bind (on_session (session_recv E (from_secs 10) s1)) (\<lambda>(reply, _).
         println (''recv '' @ from_utf8_lossy reply)))))"

definition cmd_connect :: "('np, 'hs, 'ts, 'sk, 'pk) cli_env \<Rightarrow> string list \<Rightarrow> unit cmd" where
  "cmd_connect C args =
     cmd_bind (cmd_result (addr_arg ''usage: ppose connect <peer>'' args)) (\<lambda>peer.
     cmd_bind (cmd_result (map_err CIo (bind_loopback C))) (\<lambda>addr.
     cmd_bind (println (''local '' @ show_socket_addr addr)) (\<lambda>_.
     connect_session C peer)))"

definition cmd_relay :: "('np, 'hs, 'ts, 'sk, 'pk) cli_env \<Rightarrow> string list \<Rightarrow> unit cmd" where
  "cmd_relay C args =
     (let bind = next_or ''127.0.0.1:0'' args
      in cmd_bind (cmd_result (map_err CIo (bind_service C bind relay_bind))) (\<lambda>r.
         cmd_bind (cmd_result (map_err CIo (c_local_addr C bind))) (\<lambda>addr.
         cmd_bind (println (''relay '' @ show_socket_addr addr)) (\<lambda>_.
         serving (relay_step (blake3 (e_prims (c_env C)))) r))))"

definition cmd_onion_relay :: "('np, 'hs, 'ts, 'sk, 'pk) cli_env \<Rightarrow> string list \<Rightarrow> unit cmd" where
  "cmd_onion_relay C args =
     (let bind = next_or ''127.0.0.1:0'' args; P = e_prims (c_env C); id = identity_generate (c_random C)
      in cmd_bind (cmd_result (map_err CIo (bind_service C bind (onion_relay_bind id)))) (\<lambda>r.
         cmd_bind (cmd_result (map_err CIo (c_local_addr C bind))) (\<lambda>addr.
         cmd_bind (println (''onion-relay '' @ show_socket_addr addr)) (\<lambda>_.
         cmd_bind (println (''public '' @ hex (as_bytes P (public P (or_local r))))) (\<lambda>_.
         serving (onion_step P) r)))))"

definition cmd_rs :: "('np, 'hs, 'ts, 'sk, 'pk) cli_env \<Rightarrow> string list \<Rightarrow> unit cmd" where
  "cmd_rs C args =
     (let bind = next_or ''127.0.0.1:0'' args
      in cmd_bind (cmd_result (map_err CIo (bind_service C bind rendezvous_bind))) (\<lambda>r.
         cmd_bind (cmd_result (map_err CIo (c_local_addr C bind))) (\<lambda>addr.
         cmd_bind (println (''rendezvous '' @ show_socket_addr addr)) (\<lambda>_.
         serving rendezvous_step r))))"

definition send_request :: "bytes option \<Rightarrow> socket_addr \<Rightarrow> unit cmd" where
  "send_request req rs p = (case req of None \<Rightarrow> None | Some pkt \<Rightarrow> on_world CIo (send_to pkt rs) p)"

definition cmd_rs_register :: "('np, 'hs, 'ts, 'sk, 'pk) cli_env \<Rightarrow> string list \<Rightarrow> unit cmd" where
  "cmd_rs_register C args =
     cmd_bind (cmd_result (addr_arg ''rs-register <rs> <psk>'' args)) (\<lambda>rs.
       let psk = next_or ''demo'' (tl args);
           token = token_from_psk (blake3 (e_prims (c_env C))) (string_bytes psk) 0
       in cmd_bind (cmd_result (map_err CIo (c_bind C ''127.0.0.1:0''))) (\<lambda>_.
          cmd_bind (send_request (encode_register token) rs) (\<lambda>_.
          cmd_bind (println (''registered token '' @ hex token)) (\<lambda>_.
          cmd_bind (cmd_result (map_err CIo (c_local_addr C ''127.0.0.1:0''))) (\<lambda>addr.
          println (''local '' @ show_socket_addr addr))))))"

definition cmd_rs_lookup :: "('np, 'hs, 'ts, 'sk, 'pk) cli_env \<Rightarrow> string list \<Rightarrow> unit cmd" where
  "cmd_rs_lookup C args =
     cmd_bind (cmd_result (addr_arg ''rs-lookup <rs> <psk>'' args)) (\<lambda>rs.
       let psk = next_or ''demo'' (tl args);
           token = token_from_psk (blake3 (e_prims (c_env C))) (string_bytes psk) 0
       in cmd_bind (cmd_result (map_err CIo (c_bind C ''127.0.0.1:0''))) (\<lambda>_.
          cmd_bind (cmd_result (map_err CIo (set_timeout C ''127.0.0.1:0'' (from_secs 2)))) (\<lambda>_.
          cmd_bind (send_request (encode_lookup token) rs) (\<lambda>_.
          cmd_bind (on_world CIo recv_from) (\<lambda>(buf, _).
          case decode_reply (take 512 buf) of
            Some addr \<Rightarrow> println (''peer '' @ show_socket_addr addr)
          | None \<Rightarrow> println ''not found'')))))"

section \<open>The program\<close>

text \<open>
  \<open>run\<close> answers a result, or ends the process with a code itself.  Its arguments are the strings \<^verbatim>\<open>env::args\<close> yields after the program name, so valid
  UTF-8: on any other argument the standard library panics before the program sees it.  Printing succeeds.
\<close>

datatype run_end = Finished "cli_error + unit" | Exited nat

definition finishing :: "unit cmd \<Rightarrow> process \<Rightarrow> (run_end \<times> process) option" where
  "finishing c p = map_option (apfst Finished) (c p)"

definition run :: "('np, 'hs, 'ts, 'sk, 'pk) cli_env \<Rightarrow> string list \<Rightarrow> process \<Rightarrow> (run_end \<times> process) option" where
  "run C argv =
     (let cmd = next_or ''help'' argv; args = tl argv
      in if cmd = ''help'' \<or> cmd = ''-h'' \<or> cmd = ''--help'' then finishing print_help
         else if cmd = ''version'' \<or> cmd = ''-V'' then finishing (println (''ppose '' @ CRATE_VERSION))
         else if cmd = ''keygen'' then finishing (cmd_keygen C)
         else if cmd = ''listen'' then finishing (cmd_listen C args)
         else if cmd = ''connect'' then finishing (cmd_connect C args)
         else if cmd = ''relay'' then finishing (cmd_relay C args)
         else if cmd = ''onion-relay'' then finishing (cmd_onion_relay C args)
         else if cmd = ''rs'' then finishing (cmd_rs C args)
         else if cmd = ''rs-register'' then finishing (cmd_rs_register C args)
         else if cmd = ''rs-lookup'' then finishing (cmd_rs_lookup C args)
         else (\<lambda>p. map_option (apfst (\<lambda>_. Exited 2))
                 (cmd_bind (eprintln (''unknown command '' @ cmd)) (\<lambda>_. print_help) p)))"

fun show_cli_error :: "(io_error \<Rightarrow> string) \<Rightarrow> cli_error \<Rightarrow> string" where
  "show_cli_error io (Usage s) = s"
| "show_cli_error io AddrParse = ''invalid socket address syntax''"
| "show_cli_error io (CIo e) = io e"
| "show_cli_error io (CSession e) = show_session_error io e"

text \<open>The exit code of the process, with everything it printed and sent.\<close>

definition cli_main :: "('np, 'hs, 'ts, 'sk, 'pk) cli_env \<Rightarrow> string list \<Rightarrow> process \<Rightarrow> (nat \<times> process) option" where
  "cli_main C argv p =
     (case run C argv p of
        None \<Rightarrow> None
      | Some (Finished (Inr _), p1) \<Rightarrow> Some (0, p1)
      | Some (Finished (Inl e), p1) \<Rightarrow>
          map_option (\<lambda>(_, p2). (1, p2)) (eprintln (''error: '' @ show_cli_error (c_io_text C) e) p1)
      | Some (Exited n, p1) \<Rightarrow> Some (n, p1))"

end
