(* ===== verification/Ppose_Cli_Run.thy ===== *)
theory Ppose_Cli_Run
  imports Ppose_Cli
begin

text \<open>
  What the command line program does.  \<open>finishes\<close> is a total-correctness triple for commands:
  whatever the network does, the command comes back if the clock passes every deadline.
  Shown: every command but the three daemons ends, with which code; while sending works the daemons end exactly
  at a receive error that is no timeout; a printed address is read back when it is given as an argument; and what the
  rendezvous commands print.
\<close>

section \<open>Commands that come back\<close>

definition clock_diverges :: "world \<Rightarrow> bool" where
  "clock_diverges w \<longleftrightarrow> (\<forall>T. \<exists>N. \<forall>k \<ge> N. T \<le> clock_at w k)"

definition finishes :: "'a cmd \<Rightarrow> ('a \<Rightarrow> bool) \<Rightarrow> bool" where
  "finishes m Q \<longleftrightarrow> (\<forall>p. clock_diverges (pr_world p) \<longrightarrow>
     (\<exists>r p'. m p = Some (r, p') \<and> clock_diverges (pr_world p') \<and>
       (\<exists>out. pr_out p' = pr_out p @ out) \<and> (\<forall>a. r = Inr a \<longrightarrow> Q a)))"

lemma finishesI:
  assumes "\<And>p. clock_diverges (pr_world p) \<Longrightarrow> \<exists>r p' out. m p = Some (r, p') \<and>
    clock_at (pr_world p') = clock_at (pr_world p) \<and> pr_out p' = pr_out p @ out \<and> (\<forall>a. r = Inr a \<longrightarrow> Q a)"
  shows "finishes m Q"
  unfolding finishes_def
proof (intro allI impI)
  fix p :: process
  assume c: "clock_diverges (pr_world p)"
  from assms [OF c] c show "\<exists>r p'. m p = Some (r, p') \<and> clock_diverges (pr_world p') \<and>
    (\<exists>out. pr_out p' = pr_out p @ out) \<and> (\<forall>a. r = Inr a \<longrightarrow> Q a)"
    by (auto simp: clock_diverges_def)
qed

lemma finishes_bind:
  assumes "finishes m Q" and "\<And>a. Q a \<Longrightarrow> finishes (f a) R"
  shows "finishes (cmd_bind m f) R"
  unfolding finishes_def
proof (intro allI impI)
  fix p :: process
  assume "clock_diverges (pr_world p)"
  then obtain r p1 o1 where m: "m p = Some (r, p1)" "clock_diverges (pr_world p1)" "pr_out p1 = pr_out p @ o1"
    "\<forall>a. r = Inr a \<longrightarrow> Q a"
    using assms(1) unfolding finishes_def by blast
  show "\<exists>r p'. cmd_bind m f p = Some (r, p') \<and> clock_diverges (pr_world p') \<and>
    (\<exists>out. pr_out p' = pr_out p @ out) \<and> (\<forall>a. r = Inr a \<longrightarrow> R a)"
  proof (cases r)
    case (Inr a)
    then obtain r' p' o2 where "f a p1 = Some (r', p')" "clock_diverges (pr_world p')" "pr_out p' = pr_out p1 @ o2"
      "\<forall>a. r' = Inr a \<longrightarrow> R a"
      using assms(2) [of a] m(2,4) unfolding finishes_def by blast
    then show ?thesis using m Inr by (simp add: cmd_bind_def)
  qed (use m in \<open>simp add: cmd_bind_def\<close>)
qed

lemma finishes_result: "(\<And>a. r = Inr a \<Longrightarrow> Q a) \<Longrightarrow> finishes (cmd_result r) Q"
  by (rule finishesI) (simp add: cmd_result_def)

lemma finishes_println: "Q () \<Longrightarrow> finishes (println s) Q"
  by (rule finishesI) (simp add: println_def)

lemma finishes_eprintln: "Q () \<Longrightarrow> finishes (eprintln s) Q"
  by (rule finishesI) (simp add: eprintln_def)

lemma finishes_on_world:
  assumes "\<And>w r w'. f w = (r, w') \<Longrightarrow> clock_at w' = clock_at w \<and> (\<forall>a. r = Inr a \<longrightarrow> Q a)"
  shows "finishes (on_world conv f) Q"
proof (rule finishesI)
  fix p :: process
  obtain r w' where "f (pr_world p) = (r, w')" by (cases "f (pr_world p)")
  then show "\<exists>r p' out. on_world conv f p = Some (r, p') \<and> clock_at (pr_world p') = clock_at (pr_world p) \<and>
    pr_out p' = pr_out p @ out \<and> (\<forall>a. r = Inr a \<longrightarrow> Q a)"
    using assms [of "pr_world p" r w'] by (auto simp: on_world_def)
qed

section \<open>Sessions under the command line\<close>

lemma send_inner_clock: "send_inner E ty body s w = (r, s', w') \<Longrightarrow> clock_at w' = clock_at w"
  using send_inner_evolves [of E ty body s w r s' w'] by (simp add: evolves_def)

lemma send_handshake_clock: "send_handshake E s w = (r, s', w') \<Longrightarrow> clock_at w' = clock_at w"
  by (auto simp: send_handshake_def split: prod.splits sum.splits dest: send_inner_clock)

lemma recv_handshake_clock: "recv_handshake E s w = (r, s', w') \<Longrightarrow> clock_at w' = clock_at w"
  by (auto simp: recv_handshake_def recv_inner_def recv_raw_def recv_from_def act_bind_def
      split: prod.splits sum.splits if_splits option.splits)

lemma finish_handshake_clock: "finish_handshake E expected s w = (r, s', w') \<Longrightarrow> clock_at w' = clock_at w"
  by (auto simp: finish_handshake_def split: if_splits option.splits sum.splits)

lemma connect_ok:
  assumes "connect_initiator E ident path w = (r, w')"
  shows "clock_at w' = clock_at w \<and> (\<forall>s. r = Inr s \<longrightarrow> arq_reachable (s_arq s))"
proof (intro conjI allI impI)
  show "clock_at w' = clock_at w"
    using assms
    by (auto simp: connect_initiator_def connect_initiator_pinned_def instant_now_def Let_def act_bind_def returning_def
        split: sum.splits prod.splits dest!: send_handshake_clock recv_handshake_clock finish_handshake_clock)
  fix s assume "r = Inr s"
  then have "s_arq s = arq_new"
    using assms
    by (auto simp: connect_initiator_def connect_initiator_pinned_def returning_Inr_iff act_bind_Inr_iff finish_handshake_Inr Let_def
        instant_now_def dest!: send_handshake_arq recv_handshake_arq split: sum.splits prod.splits)
  then show "arq_reachable (s_arq s)" using arq_reach_init by simp
qed

lemma accept_ok:
  assumes "accept_responder E ident relay' w = (r, w')"
  shows "clock_at w' = clock_at w \<and> (\<forall>s. r = Inr s \<longrightarrow> arq_reachable (s_arq s))"
proof (intro conjI allI impI)
  show "clock_at w' = clock_at w"
    using assms
    by (auto simp: accept_responder_def accept_ex_def recv_raw_def recv_from_def instant_now_def Let_def act_bind_def returning_def
        split: sum.splits prod.splits option.splits if_splits dest!: send_handshake_clock recv_handshake_clock finish_handshake_clock)
  fix s assume "r = Inr s"
  then have "s_arq s = arq_new"
    using assms
    by (auto simp: accept_responder_def accept_ex_def returning_Inr_iff act_bind_Inr_iff finish_handshake_Inr Let_def
        instant_now_def dest!: send_handshake_arq recv_handshake_arq
        split: sum.splits prod.splits option.splits if_splits)
  then show "arq_reachable (s_arq s)" using arq_reach_init by simp
qed

lemma finishes_on_session:
  assumes "arq_reachable (s_arq s)"
    and "\<And>w N. \<forall>k \<ge> N. clock_at w (clock_no w) + timeout \<le> clock_at w k \<Longrightarrow> \<exists>r s' w'. f w = Some (r, s', w')"
    and "\<And>w r s' w'. f w = Some (r, s', w') \<Longrightarrow> evolves s w s' w'"
  shows "finishes (on_session f) (\<lambda>(a, s'). arq_reachable (s_arq s'))"
proof (rule finishesI)
  fix p :: process
  assume "clock_diverges (pr_world p)"
  then obtain N where "\<forall>k \<ge> N. clock_at (pr_world p) (clock_no (pr_world p)) + timeout \<le> clock_at (pr_world p) k"
    unfolding clock_diverges_def by blast
  from assms(2) [OF this] obtain r s' w' where f: "f (pr_world p) = Some (r, s', w')" by blast
  have e: "evolves s (pr_world p) s' w'" using assms(3) [OF f] .
  then have "clock_at w' = clock_at (pr_world p)" by (simp add: evolves_def)
  then show "\<exists>r p' out. on_session f p = Some (r, p') \<and> clock_at (pr_world p') = clock_at (pr_world p) \<and>
    pr_out p' = pr_out p @ out \<and> (\<forall>a. r = Inr a \<longrightarrow> (case a of (a, s') \<Rightarrow> arq_reachable (s_arq s')))"
    using arq_reachable_evolves [OF assms(1) e] by (cases r) (auto simp: on_session_def f)
qed

lemma finishes_send: "arq_reachable (s_arq s) \<Longrightarrow> finishes (on_session (session_send E m s)) (\<lambda>(a, s'). arq_reachable (s_arq s'))"
  unfolding session_send_def using send_timeout_returns send_timeout_evolves by (intro finishes_on_session) blast+

lemma finishes_recv: "arq_reachable (s_arq s) \<Longrightarrow> finishes (on_session (session_recv E t s)) (\<lambda>(a, s'). arq_reachable (s_arq s'))"
  using session_recv_returns session_recv_evolves by (intro finishes_on_session) blast+

lemma finishes_connect: "finishes (on_world conv (connect_initiator E ident path)) (\<lambda>s. arq_reachable (s_arq s))"
  by (rule finishes_on_world) (rule connect_ok)

lemma finishes_accept: "finishes (on_world conv (accept_responder E ident relay')) (\<lambda>s. arq_reachable (s_arq s))"
  by (rule finishes_on_world) (rule accept_ok)

lemma finishes_recv_from: "finishes (on_world conv recv_from) (\<lambda>_. True)"
  by (rule finishes_on_world) (simp add: recv_from_def)

lemma finishes_request: "finishes (send_request (Some req) rs) (\<lambda>_. True)"
proof -
  have "send_request (Some req) rs = on_world CIo (send_to req rs)" by (simp add: send_request_def fun_eq_iff)
  then show ?thesis using send_to_frame by (simp add: finishes_on_world)
qed

section \<open>Each command\<close>

lemmas finishes_steps = finishes_bind [OF finishes_result [where Q = "\<lambda>_. True"]]
  finishes_bind [OF finishes_println [where Q = "\<lambda>_. True"]] finishes_bind [OF finishes_eprintln [where Q = "\<lambda>_. True"]]
  finishes_bind [OF finishes_connect] finishes_bind [OF finishes_accept] finishes_bind [OF finishes_send] finishes_bind [OF finishes_recv]
  finishes_bind [OF finishes_recv_from] finishes_bind [OF finishes_request] finishes_println finishes_eprintln finishes_result TrueI

lemma finishes_keygen: "finishes (cmd_keygen C) (\<lambda>_. True)"
  unfolding cmd_keygen_def Let_def by (intro finishes_steps)

lemma finishes_listen_session: "finishes (listen_session C) (\<lambda>_. True)"
  unfolding listen_session_def Let_def by (intro finishes_steps) (auto intro!: finishes_steps)

lemma finishes_listen: "finishes (cmd_listen C args) (\<lambda>_. True)"
  unfolding cmd_listen_def Let_def by (intro finishes_listen_session finishes_steps)

lemma finishes_connect_session: "finishes (connect_session C peer) (\<lambda>_. True)"
  unfolding connect_session_def Let_def by (intro finishes_steps) (auto intro!: finishes_steps)

lemma finishes_connect_cmd: "finishes (cmd_connect C args) (\<lambda>_. True)"
  unfolding cmd_connect_def by (intro finishes_connect_session finishes_steps)

lemma finishes_register:
  assumes "\<And>x. length (blake3 (e_prims (c_env C)) x) = 32"
  shows "finishes (cmd_rs_register C args) (\<lambda>_. True)"
  unfolding cmd_rs_register_def Let_def token_from_psk_def
  by (simp add: encode_request assms)
    (intro finishes_steps)

lemma finishes_lookup:
  assumes "\<And>x. length (blake3 (e_prims (c_env C)) x) = 32"
  shows "finishes (cmd_rs_lookup C args) (\<lambda>_. True)"
proof -
  have reply: "finishes (case d of (buf, _) \<Rightarrow> (case decode_reply (take 512 buf) of
      Some addr \<Rightarrow> println (''peer '' @ show_socket_addr addr) | None \<Rightarrow> println ''not found'')) (\<lambda>_. True)" for d :: "bytes \<times> socket_addr"
    by (auto intro: finishes_println split: prod.splits option.splits)
  show ?thesis
    unfolding cmd_rs_lookup_def Let_def token_from_psk_def
    by (simp add: encode_request assms)
      (intro reply finishes_steps)
qed

section \<open>Daemons\<close>

text \<open>The result of the step after \<open>n\<close> steps.\<close>

definition step_at ::
  "('s \<Rightarrow> world \<Rightarrow> (io_error + bool) \<times> 's \<times> world) \<Rightarrow> 's \<Rightarrow> world \<Rightarrow> nat \<Rightarrow> io_error + bool" where
  "step_at step s w n = (case service_run step n s w of (s1, w1) \<Rightarrow> fst (step s1 w1))"

lemma step_at_Suc: "step s w = (r, s1, w1) \<Longrightarrow> step_at step s w (Suc n) = step_at step s1 w1 n"
  by (simp add: step_at_def)

lemma step_at_0: "step s w = (r, s1, w1) \<Longrightarrow> step_at step s w 0 = r"
  by (simp add: step_at_def)

lemma serve_stops:
  "step_at step s w n = Inl e \<Longrightarrow> \<forall>k < n. \<not> isl (step_at step s w k) \<Longrightarrow> \<exists>s' w'. serve step s w = Some (e, s', w')"
proof (induction n arbitrary: s w)
  case 0
  obtain r s1 w1 where st: "step s w = (r, s1, w1)" by (cases "step s w")
  show ?case using 0 by (subst serve.simps) (simp add: st step_at_0 [where step = step, OF st])
next
  case (Suc n)
  obtain r s1 w1 where st: "step s w = (r, s1, w1)" by (cases "step s w")
  have r: "\<not> isl r" using Suc.prems(2) [rule_format, of 0] by (simp add: step_at_0 [where step = step, OF st])
  have "\<forall>k < n. \<not> isl (step_at step s1 w1 k)"
    using Suc.prems(2) by (auto simp: step_at_Suc [where step = step, OF st, symmetric])
  with Suc have "\<exists>s' w'. serve step s1 w1 = Some (e, s', w')" by (simp add: step_at_Suc [where step = step, OF st])
  then show ?case using r by (subst serve.simps) (cases r; simp add: st)
qed

lemma serve_stopped:
  "serve step s w = Some (e, s', w') \<Longrightarrow> \<exists>n. step_at step s w n = Inl e \<and> (\<forall>k < n. \<not> isl (step_at step s w k))"
proof (induction step s w "(e, s', w')" arbitrary: e s' w' rule: serve.raw_induct [rotated, consumes 1])
  case (1 f step s w e s' w')
  obtain r s1 w1 where st: "step s w = (r, s1, w1)" by (cases "step s w")
  show ?case
  proof (cases r)
    case (Inl e')
    then show ?thesis using 1(2) st by (intro exI [of _ 0]) (simp add: step_at_0 [where step = step, OF st])
  next
    case (Inr b)
    then have "f step s1 w1 = Some (e, s', w')" using 1(2) st by simp
    from 1(1) [OF this] obtain n where n: "step_at step s1 w1 n = Inl e" "\<forall>k < n. \<not> isl (step_at step s1 w1 k)"
      by blast
    have "\<not> isl (step_at step s w k)" if "k < Suc n" for k
      using that n(2) Inr by (cases k) (simp_all add: step_at_0 [where step = step, OF st] step_at_Suc [where step = step, OF st])
    then show ?thesis using n(1) by (intro exI [of _ "Suc n"]) (simp add: step_at_Suc [where step = step, OF st])
  qed
qed

lemma serve_returns_iff:
  "(\<exists>s' w'. serve step s w = Some (e, s', w')) \<longleftrightarrow> (\<exists>n. step_at step s w n = Inl e \<and> (\<forall>k < n. \<not> isl (step_at step s w k)))"
  using serve_stops serve_stopped by metis

text \<open>The first receive error of a world that is not a timeout.\<close>

definition first_error :: "world \<Rightarrow> io_error \<Rightarrow> bool" where
  "first_error w e \<longleftrightarrow> (\<exists>n. recv_at w (recv_no w + n) = Inl e \<and> hard_error (recv_at w (recv_no w + n)) \<and>
     (\<forall>k < n. \<not> hard_error (recv_at w (recv_no w + k))))"

lemma hard_error_iff: "hard_error x \<longleftrightarrow> (\<exists>e. x = Inl e \<and> hard_error x)"
  by (cases x) simp_all

text \<open>While sending works, a service loop ends exactly at that error.\<close>

context datagram_service
begin

lemma step_at_error:
  assumes "\<forall>k. send_at w k = None"
  shows "step_at step s w n = Inl e \<longleftrightarrow> recv_at w (recv_no w + n) = Inl e \<and> hard_error (recv_at w (recv_no w + n))"
proof -
  obtain s1 w1 where r: "service_run step n s w = (s1, w1)" by (cases "service_run step n s w")
  obtain res s2 w2 where st: "step s1 w1 = (res, s2, w2)" by (cases "step s1 w1")
  show ?thesis using step_fails [OF st, of e] run_streams [OF r] assms by (simp add: step_at_def r st)
qed

lemma serve_error:
  assumes "\<forall>k. send_at w k = None"
  shows "(\<exists>s' w'. serve step s w = Some (e, s', w')) \<longleftrightarrow> first_error w e"
proof -
  have "isl (step_at step s w k) \<longleftrightarrow> hard_error (recv_at w (recv_no w + k))" for k
    using step_at_error [OF assms] hard_error_iff unfolding isl_def by blast
  then show ?thesis unfolding serve_returns_iff first_error_def step_at_error [OF assms] by blast
qed

end

section \<open>The whole program\<close>

definition daemons :: "string set" where
  "daemons = {''relay'', ''onion-relay'', ''rs''}"

definition commands :: "string set" where
  "commands = {''help'', ''-h'', ''--help'', ''version'', ''-V'', ''keygen'', ''listen'', ''connect'', ''rs-register'', ''rs-lookup''} \<union> daemons"

lemma finishing_returns:
  assumes "finishes c Q" and "clock_diverges (pr_world p)"
  shows "\<exists>r p' out. finishing c p = Some (Finished r, p') \<and> pr_out p' = pr_out p @ out"
  using assms unfolding finishes_def finishing_def by fastforce

definition oneshots :: "('np, 'hs, 'ts, 'sk, 'pk) cli_env \<Rightarrow> string list \<Rightarrow> unit cmd set" where
  "oneshots C args = {print_help, println (''ppose '' @ CRATE_VERSION), cmd_keygen C, cmd_listen C args, cmd_connect C args,
     cmd_rs_register C args, cmd_rs_lookup C args}"

lemma run_oneshot:
  assumes "next_or ''help'' argv \<in> commands - daemons"
  shows "\<exists>c \<in> oneshots C (tl argv). run C argv = finishing c"
proof -
  define cmd where "cmd = next_or ''help'' argv"
  have "cmd \<in> {''help'', ''-h'', ''--help'', ''version'', ''-V'', ''keygen'', ''listen'', ''connect'', ''rs-register'', ''rs-lookup''}"
    using assms by (auto simp: commands_def cmd_def [symmetric])
  then show ?thesis
    unfolding run_def Let_def cmd_def [symmetric] oneshots_def by (elim insertE emptyE) simp_all
qed

lemma run_unknown:
  assumes "next_or ''help'' argv \<notin> commands"
  shows "run C argv p = Some (Exited 2, p\<lparr>pr_out := pr_out p @ [Stderr (''unknown command '' @ next_or ''help'' argv), Stderr help_text]\<rparr>)"
proof -
  define cmd where "cmd = next_or ''help'' argv"
  have "cmd \<notin> commands" using assms by (simp add: cmd_def)
  then show ?thesis
    unfolding run_def Let_def cmd_def [symmetric] commands_def daemons_def
    by (simp add: cmd_bind_def eprintln_def print_help_def)
qed

lemma finishes_oneshot:
  assumes "c \<in> oneshots C args" and hash: "\<And>x. length (blake3 (e_prims (c_env C)) x) = 32"
  shows "finishes c (\<lambda>_. True)"
  using assms(1) finishes_keygen finishes_listen finishes_connect_cmd finishes_register [OF hash] finishes_lookup [OF hash]
    finishes_println [where Q = "\<lambda>_. True"] finishes_eprintln [where Q = "\<lambda>_. True"]
  unfolding oneshots_def print_help_def by blast

lemma run_returns:
  assumes "clock_diverges (pr_world p)" and "\<And>x. length (blake3 (e_prims (c_env C)) x) = 32"
    and "next_or ''help'' argv \<in> commands - daemons"
  shows "\<exists>r p' out. run C argv p = Some (Finished r, p') \<and> pr_out p' = pr_out p @ out"
proof -
  obtain c where c: "c \<in> oneshots C (tl argv)" "run C argv = finishing c" using run_oneshot [OF assms(3)] by blast
  show ?thesis using finishing_returns [OF finishes_oneshot [OF c(1) assms(2)] assms(1)] by (simp add: c(2))
qed

lemma main_error:
  "run C argv p = Some (Finished (Inl e), p1) \<Longrightarrow>
     cli_main C argv p = Some (1, p1\<lparr>pr_out := pr_out p1 @ [Stderr (''error: '' @ show_cli_error (c_io_text C) e)]\<rparr>)"
  by (simp add: cli_main_def eprintln_def)

lemma cmd_bind_simps [simp]:
  "cmd_bind (cmd_result (Inl e)) f p = Some (Inl e, p)"
  "cmd_bind (cmd_result (Inr a)) f p = f a p"
  "cmd_bind (println s) g p = g () (p\<lparr>pr_out := pr_out p @ [Stdout s]\<rparr>)"
  by (simp_all add: cmd_bind_def cmd_result_def println_def)

lemma serving_error: "serving step s p = Some (r, p') \<Longrightarrow> isl r"
  by (auto simp: serving_def split: option.splits)

lemma cmd_bind_error: "cmd_bind m f p = Some (r, p') \<Longrightarrow> (\<And>a q. f a q = Some (r, p') \<Longrightarrow> isl r) \<Longrightarrow> isl r"
  by (auto simp: cmd_bind_def split: option.splits sum.splits)

lemma run_daemon:
  "run C (''relay'' # args) = finishing (cmd_relay C args)"
  "run C (''onion-relay'' # args) = finishing (cmd_onion_relay C args)"
  "run C (''rs'' # args) = finishing (cmd_rs C args)"
  by (simp_all add: run_def next_or_def Let_def)

context datagram_service
begin

lemma daemon_life:
  assumes "run C [d, addr] = finishing c" and "c p = serving step s (p\<lparr>pr_out := out\<rparr>)" and "\<forall>k. send_at (pr_world p) k = None"
  shows "((\<exists>x. cli_main C [d, addr] p = Some x) \<longleftrightarrow> (\<exists>e. first_error (pr_world p) e)) \<and>
    (\<forall>code p'. cli_main C [d, addr] p = Some (code, p') \<longrightarrow>
       code = 1 \<and> (\<exists>e. first_error (pr_world p) e \<and> last (pr_out p') = Stderr (''error: '' @ c_io_text C e)))"
proof (cases "serve step s (pr_world p)")
  case None
  then have "cli_main C [d, addr] p = None" by (simp add: cli_main_def assms(1,2) finishing_def serving_def)
  then show ?thesis using serve_error [OF assms(3), of s] None by auto
next
  case (Some x)
  obtain e s' w' where x: "x = (e, s', w')" by (cases x)
  have "run C [d, addr] p = Some (Finished (Inl (CIo e)), p\<lparr>pr_out := out, pr_world := w'\<rparr>)"
    using Some x by (simp add: assms(1,2) finishing_def serving_def)
  from main_error [OF this] show ?thesis using serve_error [OF assms(3), of s] Some x by auto
qed

end

lemma set_timeout_ok [simp]:
  "c_option C addr = None \<Longrightarrow> set_timeout C addr (from_millis (numeral n)) = Inr ()"
  "c_option C addr = None \<Longrightarrow> set_timeout C addr (from_secs (numeral n)) = Inr ()"
  by (simp_all add: set_timeout_def from_millis_def from_secs_def)

text \<open>A daemon after it has bound its socket and printed where.\<close>

lemma daemon_serves:
  assumes "c_bind C addr = Inr ()" and "c_option C addr = None" and "c_local_addr C addr = Inr a"
  shows "cmd_relay C [addr] p = serving (relay_step (blake3 (e_prims (c_env C)))) relay_bind
      (p\<lparr>pr_out := pr_out p @ [Stdout (''relay '' @ show_socket_addr a)]\<rparr>)"
    and "cmd_onion_relay C [addr] p = serving (onion_step (e_prims (c_env C))) (onion_relay_bind (identity_generate (c_random C)))
      (p\<lparr>pr_out := pr_out p @ [Stdout (''onion-relay '' @ show_socket_addr a),
         Stdout (''public '' @ hex (as_bytes (e_prims (c_env C)) (public (e_prims (c_env C)) (identity_generate (c_random C)))))]\<rparr>)"
    and "cmd_rs C [addr] p = serving rendezvous_step rendezvous_bind
      (p\<lparr>pr_out := pr_out p @ [Stdout (''rendezvous '' @ show_socket_addr a)]\<rparr>)"
  using assms by (simp_all add: cmd_relay_def cmd_onion_relay_def cmd_rs_def next_or_def bind_service_def Let_def onion_relay_bind_def)

section \<open>A relay that is refused a destination\<close>

lemma relay_idle:
  "recv_at w (recv_no w) = Inl TimedOut \<Longrightarrow> relay_step hash r w = (Inr False, r, w\<lparr>recv_no := Suc (recv_no w)\<rparr>)"
  by (simp add: relay_step_def recv_from_def)

lemma serve_idle:
  "\<forall>i < n. recv_at w (recv_no w + i) = Inl TimedOut \<Longrightarrow>
     serve (relay_step hash) r w = serve (relay_step hash) r (w\<lparr>recv_no := recv_no w + n\<rparr>)"
proof (induction n arbitrary: w)
  case (Suc n)
  let ?w1 = "w\<lparr>recv_no := Suc (recv_no w)\<rparr>"
  have "serve (relay_step hash) r w = serve (relay_step hash) r ?w1"
    using Suc.prems [rule_format, of 0] by (subst serve.simps) (simp add: relay_idle)
  moreover have "\<forall>i < n. recv_at ?w1 (recv_no ?w1 + i) = Inl TimedOut"
    using Suc.prems by (auto dest: spec [of _ "Suc _"])
  ultimately show ?case using Suc.IH [of ?w1] by simp
qed simp

lemma relay_refused:
  assumes "recv_at w (recv_no w) = Inr (forward_packet flags ip port inner, V4 sip sport)" and "length inner \<le> 1186"
    and "send_at w (send_no w) = Some e"
  shows "\<exists>r' w'. serve (relay_step hash) relay_bind w = Some (e, r', w') \<and> sent w' = sent w"
proof -
  have "length (forward_packet flags ip port inner) \<le> MAX_DATAGRAM"
    using assms(2) by (simp add: forward_packet_def const_defs)
  then have rf: "recv_from w = (Inr (forward_packet flags ip port inner, V4 sip sport), w\<lparr>recv_no := Suc (recv_no w)\<rparr>)"
    by (simp add: recv_from_def assms(1))
  have en: "encode_forward_body (V4 sip sport) inner = Inr (addr_bytes sip sport @ inner)"
    using assms(2) by (simp add: encode_forward_body_Inr_iff)
  have "fst (accept hash (r_replay relay_bind) inner t)" for t
    by (simp add: accept_eq relay_bind_def replay_new_def hm_wf_def remembers_def)
  then obtain c where "accept hash (r_replay relay_bind) inner (clock_at w (clock_no w)) = (True, c)"
    by (metis (full_types) prod.collapse)
  then show ?thesis
    using assms(3) by (subst serve.simps)
      (simp add: relay_step_def rf forward_packet_payload decode_forward_addr instant_now_def en Let_def send_to_def)
qed

section \<open>The rendezvous commands\<close>

lemma addr_arg_show: "printable a \<Longrightarrow> addr_arg usage (show_socket_addr a # args) = Inr a"
  by (simp add: addr_arg_def parse_show_socket_addr)

abbreviation psk_token :: "('np, 'hs, 'ts, 'sk, 'pk) cli_env \<Rightarrow> string \<Rightarrow> bytes" where
  "psk_token C psk \<equiv> token_from_psk (blake3 (e_prims (c_env C))) (string_bytes psk) 0"

lemma finishing_main: "run C argv = finishing c \<Longrightarrow> c p = Some (Inr (), p') \<Longrightarrow> cli_main C argv p = Some (0, p')"
  by (simp add: cli_main_def finishing_def)

lemma run_rendezvous:
  "run C [''rs-register'', a, psk] = finishing (cmd_rs_register C [a, psk])"
  "run C [''rs-lookup'', a, psk] = finishing (cmd_rs_lookup C [a, psk])"
  by (simp_all add: run_def next_or_def Let_def)

lemma send_request_ok:
  "send_at (pr_world p) (send_no (pr_world p)) = None \<Longrightarrow> cmd_bind (send_request (Some req) rs) f p =
     f () (p\<lparr>pr_world := (pr_world p)\<lparr>send_no := Suc (send_no (pr_world p)), sent := sent (pr_world p) @ [(req, rs)]\<rparr>\<rparr>)"
  by (simp add: cmd_bind_def send_request_def on_world_def send_to_def Let_def)

lemma recv_reply_ok:
  "recv_at (pr_world p) (recv_no (pr_world p)) = Inr (pkt, fr) \<Longrightarrow> cmd_bind (on_world CIo recv_from) f p =
     f (take MAX_DATAGRAM pkt, fr) (p\<lparr>pr_world := (pr_world p)\<lparr>recv_no := Suc (recv_no (pr_world p))\<rparr>\<rparr>)"
  by (simp add: cmd_bind_def on_world_def recv_from_def)

text \<open>A client that can bind and send, in an environment whose hash yields 32 bytes.\<close>

definition client_ok :: "('np, 'hs, 'ts, 'sk, 'pk) cli_env \<Rightarrow> process \<Rightarrow> bool" where
  "client_ok C p \<longleftrightarrow> (\<forall>x. length (blake3 (e_prims (c_env C)) x) = 32) \<and> c_bind C ''127.0.0.1:0'' = Inr () \<and>
     c_option C ''127.0.0.1:0'' = None \<and> \<not> isl (c_local_addr C ''127.0.0.1:0'') \<and> send_at (pr_world p) (send_no (pr_world p)) = None"

lemma register_run:
  assumes "client_ok C p" and "printable rs"
  shows "\<exists>p'. cli_main C [''rs-register'', show_socket_addr rs, psk] p = Some (0, p') \<and>
    sent (pr_world p') = sent (pr_world p) @ [(the (encode_register (psk_token C psk)), rs)]"
proof -
  obtain l where "c_local_addr C ''127.0.0.1:0'' = Inr l"
    using assms(1) by (cases "c_local_addr C ''127.0.0.1:0''") (auto simp: client_ok_def)
  moreover have "length (psk_token C psk) = 32" using assms(1) by (simp add: client_ok_def token_from_psk_def)
  ultimately have "\<exists>p'. cmd_rs_register C [show_socket_addr rs, psk] p = Some (Inr (), p') \<and>
      sent (pr_world p') = sent (pr_world p) @ [(the (encode_register (psk_token C psk)), rs)]"
    using assms by (simp add: client_ok_def cmd_rs_register_def addr_arg_show next_or_def Let_def encode_request
        send_request_ok println_def)
  then show ?thesis using finishing_main [OF run_rendezvous(1)] by blast
qed

definition lookup_line :: "bytes \<Rightarrow> string" where
  "lookup_line pkt = (case decode_reply (take 512 (take MAX_DATAGRAM pkt)) of
     Some a \<Rightarrow> ''peer '' @ show_socket_addr a | None \<Rightarrow> ''not found'')"

lemma lookup_run:
  assumes "client_ok C p" and "printable rs" and "recv_at (pr_world p) (recv_no (pr_world p)) = Inr (pkt, fr)"
  shows "\<exists>p'. cli_main C [''rs-lookup'', show_socket_addr rs, psk] p = Some (0, p') \<and>
    sent (pr_world p') = sent (pr_world p) @ [(the (encode_lookup (psk_token C psk)), rs)] \<and>
    pr_out p' = pr_out p @ [Stdout (lookup_line pkt)]"
proof -
  have "length (psk_token C psk) = 32" using assms(1) by (simp add: client_ok_def token_from_psk_def)
  then have "\<exists>p'. cmd_rs_lookup C [show_socket_addr rs, psk] p = Some (Inr (), p') \<and>
      sent (pr_world p') = sent (pr_world p) @ [(the (encode_lookup (psk_token C psk)), rs)] \<and>
      pr_out p' = pr_out p @ [Stdout (lookup_line pkt)]"
    using assms
    by (simp add: client_ok_def cmd_rs_lookup_def addr_arg_show next_or_def Let_def encode_request send_request_ok
        recv_reply_ok println_def lookup_line_def split: option.splits)
  then show ?thesis using finishing_main [OF run_rendezvous(2)] by blast
qed

text \<open>
  What happens at the service: it receives the registration \<open>d\<close> from \<open>a\<close>, then \<open>n\<close> times
  something that does not register the token, then the request \<open>q\<close>, and answers \<open>pkt\<close>, all within the TTL.
\<close>

definition rendezvous_exchange ::
  "rendezvous_service \<Rightarrow> world \<Rightarrow> bytes \<Rightarrow> bytes \<Rightarrow> socket_addr \<Rightarrow> nat \<Rightarrow> bytes \<Rightarrow> bytes \<Rightarrow> bool" where
  "rendezvous_exchange s w tok d a n q pkt \<longleftrightarrow>
     hm_wf (rv_map s) \<and> recv_at w (recv_no w) = Inr (d, a) \<and>
     mono (clock_at w) \<and>
     (\<forall>i < n. \<forall>d' fr. recv_at w (Suc (recv_no w) + i) = Inr (d', fr) \<longrightarrow> \<not> registers tok (take MAX_DATAGRAM d')) \<and>
     (case rendezvous_step s w of (_, s1, w1) \<Rightarrow>
      case service_run rendezvous_step n s1 w1 of (s2, w2) \<Rightarrow>
        clock_at w (clock_no w2) - clock_at w (Suc (clock_no w)) < rv_ttl s \<and> send_at w2 (send_no w2) = None \<and>
        (\<exists>fr. recv_at w2 (recv_no w2) = Inr (q, fr) \<and> last (sent (snd (snd (rendezvous_step s2 w2)))) = (pkt, fr)))"

lemma rendezvous_exchange_reply:
  assumes "rendezvous_exchange s w tok d (V4 ip port) n q pkt" and "length tok = 32"
    and "encode_register tok = Some d" and "encode_lookup tok = Some q"
  shows "lookup_line pkt = ''peer '' @ show_socket_addr (V4 ip port)"
proof -
  obtain r1 s1 w1 where st: "rendezvous_step s w = (r1, s1, w1)" by (cases "rendezvous_step s w")
  obtain s2 w2 where sr: "service_run rendezvous_step n s1 w1 = (s2, w2)" by (cases "service_run rendezvous_step n s1 w1")
  obtain r3 s3 w3 where st3: "rendezvous_step s2 w2 = (r3, s3, w3)" by (cases "rendezvous_step s2 w2")
  obtain fr where fr: "recv_at w2 (recv_no w2) = Inr (q, fr)" "last (sent w3) = (pkt, fr)" "send_at w2 (send_no w2) = None"
    using assms(1) by (auto simp: rendezvous_exchange_def st sr st3)
  have "\<exists>pkt'. sent w3 = sent w2 @ [(pkt', fr)] \<and> decode_reply pkt' = Some (V4 ip port) \<and> length pkt' \<le> 16"
    by (rule rendezvous_register_lookup [of tok d s w ip port r1 s1 w1 w2 n s2 q fr r3 s3 w3])
      (use assms st sr st3 fr in \<open>auto simp: rendezvous_exchange_def\<close>)
  then show ?thesis using fr(2) by (auto simp: lookup_line_def const_defs)
qed

section \<open>An instance\<close>

definition demo_cli :: "(unit, bool \<times> model_hs, model_ts, 256 word, 256 word) cli_env" where
  "demo_cli = \<lparr>c_env = model_env, c_bind = (\<lambda>_. Inr ()), c_local_addr = (\<lambda>_. Inr (V4 (Ipv4Addr 127 0 0 1) 4000)),
     c_option = (\<lambda>_. None), c_random = 5, c_io_text = (\<lambda>_. ''refused'')\<rparr>"

definition demo_process :: process where
  "demo_process = \<lparr>pr_world = quiet_world, pr_out = []\<rparr>"

lemma demo_clock: "clock_diverges (pr_world demo_process)"
  by (auto simp: clock_diverges_def demo_process_def quiet_world_def)

lemma demo_hash: "length (blake3 (e_prims (c_env demo_cli)) x) = 32"
  by (simp add: demo_cli_def model_env_def model_primitives_def)

section \<open>Properties\<close>

text \<open>
  C36: every command but the three daemons ends.  If the clock passes every deadline, then
  whatever datagrams and errors the network produces, the program returns an exit code:
  2 exactly for a command it does not know, 1 with the error printed last, or 0.  The hash
  yields 32 bytes.
\<close>
theorem commands_return:
  assumes "clock_diverges (pr_world p)" and "\<forall>x. length (blake3 (e_prims (c_env C)) x) = 32"
    and "next_or ''help'' argv \<notin> daemons"
  shows "\<exists>code p' out. cli_main C argv p = Some (code, p') \<and> pr_out p' = pr_out p @ out \<and>
    (code = 2 \<longleftrightarrow> next_or ''help'' argv \<notin> commands) \<and>
    (code = 0 \<or> code = 1 \<and> (\<exists>t. last out = Stderr (''error: '' @ t)) \<or> code = 2)"
proof (cases "next_or ''help'' argv \<in> commands")
  case True
  then obtain r p1 out where r: "run C argv p = Some (Finished r, p1)" "pr_out p1 = pr_out p @ out"
    using run_returns [of p C argv] assms by blast
  show ?thesis
  proof (cases r)
    case (Inl e)
    then show ?thesis using main_error [of C argv p e p1] r True by auto
  next
    case (Inr u)
    then show ?thesis using r True by (simp add: cli_main_def)
  qed
next
  case False
  then show ?thesis using run_unknown [OF False, of C p] by (simp add: cli_main_def)
qed

theorem commands_return_witness:
  "\<exists>code p' out. cli_main demo_cli [''connect'', ''127.0.0.1:9''] demo_process = Some (code, p') \<and> pr_out p' = pr_out demo_process @ out
    \<and> (code = 0 \<or> code = 1 \<and> (\<exists>t. last out = Stderr (''error: '' @ t)))"
proof -
  have k: "next_or ''help'' [''connect'', ''127.0.0.1:9''] = ''connect''" by (simp add: next_or_def)
  have "''connect'' \<notin> daemons" "''connect'' \<in> commands" by (simp_all add: daemons_def commands_def)
  then show ?thesis
    using commands_return [of demo_process demo_cli "[''connect'', ''127.0.0.1:9'']"] demo_clock demo_hash
    unfolding k by blast
qed

text \<open>
  C39: no datagram ends a daemon.  Once its socket is set up, and as long as the operating system sends what it is given,
  each of \<open>relay\<close>, \<open>onion-relay\<close> and \<open>rs\<close> serves forever, whatever bytes arrive from wherever, unless a receive call reports an error other than
  a timeout; it ends at the first such error, prints it and exits with code 1.
\<close>
theorem daemons_survive:
  assumes "c_bind C addr = Inr ()" and "c_option C addr = None" and "c_local_addr C addr = Inr a"
    and "\<forall>k. send_at (pr_world p) k = None" and "d \<in> daemons"
  shows "((\<exists>x. cli_main C [d, addr] p = Some x) \<longleftrightarrow> (\<exists>e. first_error (pr_world p) e)) \<and>
    (\<forall>code p'. cli_main C [d, addr] p = Some (code, p') \<longrightarrow>
       code = 1 \<and> (\<exists>e. first_error (pr_world p) e \<and> last (pr_out p') = Stderr (''error: '' @ c_io_text C e)))"
proof -
  consider "d = ''relay''" | "d = ''onion-relay''" | "d = ''rs''" using assms(5) by (auto simp: daemons_def)
  then show ?thesis
  proof cases
    case 1
    show ?thesis unfolding 1 by (rule relay_service.daemon_life [OF run_daemon(1) daemon_serves(1) [OF assms(1-3)] assms(4)])
  next
    case 2
    show ?thesis unfolding 2 by (rule onion_service.daemon_life [OF run_daemon(2) daemon_serves(2) [OF assms(1-3)] assms(4)])
  next
    case 3
    show ?thesis unfolding 3 by (rule rendezvous.daemon_life [OF run_daemon(3) daemon_serves(3) [OF assms(1-3)] assms(4)])
  qed
qed

theorem daemons_survive_witness:
  "(\<nexists>x. cli_main demo_cli [''relay'', ''127.0.0.1:0''] (demo_process\<lparr>pr_world := quiet_world\<lparr>recv_at := \<lambda>_. Inr ([1, 2, 3], demo_peer)\<rparr>\<rparr>) = Some x) \<and>
   (\<exists>x. cli_main demo_cli [''rs'', ''127.0.0.1:0''] (demo_process\<lparr>pr_world := quiet_world\<lparr>recv_at := \<lambda>_. Inl IoOther\<rparr>\<rparr>) = Some x)"
proof -
  have w: "\<nexists>e. first_error (quiet_world\<lparr>recv_at := \<lambda>_. Inr ([1, 2, 3], demo_peer)\<rparr>) e"
    "\<exists>e. first_error (quiet_world\<lparr>recv_at := \<lambda>_. Inl IoOther\<rparr>) e"
    by (auto simp: first_error_def intro: exI [of _ 0])
  have d: "''relay'' \<in> daemons" "''rs'' \<in> daemons" by (simp_all add: daemons_def)
  show ?thesis
    using daemons_survive [OF _ _ _ _ d(1), of demo_cli "''127.0.0.1:0''" "V4 (Ipv4Addr 127 0 0 1) 4000"
        "demo_process\<lparr>pr_world := quiet_world\<lparr>recv_at := \<lambda>_. Inr ([1, 2, 3], demo_peer)\<rparr>\<rparr>"]
      daemons_survive [OF _ _ _ _ d(2), of demo_cli "''127.0.0.1:0''" "V4 (Ipv4Addr 127 0 0 1) 4000"
        "demo_process\<lparr>pr_world := quiet_world\<lparr>recv_at := \<lambda>_. Inl IoOther\<rparr>\<rparr>"] w
    by (simp add: demo_cli_def quiet_world_def)
qed

text \<open>
  C38: one datagram ends the relay.  If the operating system refuses to send to the
  destination that a forward request names, such as a broadcast address or port zero, the
  command \<open>relay\<close> stops with code 1 and has forwarded nothing: anyone who can send it a
  datagram can end it, however long it was idle before.
\<close>
theorem relay_request_kills:
  assumes "c_bind C addr = Inr ()" and "c_local_addr C addr = Inr a"
    and "c_option C addr = None" and "\<forall>i < n. recv_at (pr_world p) (recv_no (pr_world p) + i) = Inl TimedOut"
    and "recv_at (pr_world p) (recv_no (pr_world p) + n) = Inr (forward_packet flags ip port inner, V4 sip sport)"
    and "length inner \<le> 1186" and "send_at (pr_world p) (send_no (pr_world p)) = Some e"
  shows "\<exists>p'. cli_main C [''relay'', addr] p = Some (1, p') \<and> sent (pr_world p') = sent (pr_world p) \<and>
    pr_out p' = pr_out p @ [Stdout (''relay '' @ show_socket_addr a), Stderr (''error: '' @ c_io_text C e)]"
proof -
  let ?w = "(pr_world p)\<lparr>recv_no := recv_no (pr_world p) + n\<rparr>" and ?h = "blake3 (e_prims (c_env C))"
  obtain r' w' where "serve (relay_step ?h) relay_bind (pr_world p) = Some (e, r', w')" "sent w' = sent (pr_world p)"
    using relay_refused [of ?w flags ip port inner sip sport e ?h] serve_idle [OF assms(4)] assms(5-7) by auto
  then show ?thesis
    using main_error [of C "[''relay'', addr]" p "CIo e"] daemon_serves(1) [OF assms(1,3,2), of p]
    by (simp add: run_daemon finishing_def serving_def)
qed

theorem relay_request_kills_witness:
  "\<exists>p'. cli_main demo_cli [''relay'', ''127.0.0.1:0''] (demo_process\<lparr>pr_world := quiet_world\<lparr>
      recv_at := (\<lambda>k. if k < 3 then Inl TimedOut else Inr (forward_packet 0 (Ipv4Addr 255 255 255 255) 7 [], demo_peer)),
      send_at := (\<lambda>_. Some IoOther)\<rparr>\<rparr>) = Some (1, p')"
  using relay_request_kills [of demo_cli "''127.0.0.1:0''" "V4 (Ipv4Addr 127 0 0 1) 4000" 3
      "demo_process\<lparr>pr_world := quiet_world\<lparr>
        recv_at := (\<lambda>k. if k < 3 then Inl TimedOut else Inr (forward_packet 0 (Ipv4Addr 255 255 255 255) 7 [], demo_peer)),
        send_at := (\<lambda>_. Some IoOther)\<rparr>\<rparr>" 0 "Ipv4Addr 255 255 255 255" 7 "[]" "Ipv4Addr 10 0 0 1" 9 IoOther]
  by (auto simp: demo_cli_def demo_process_def quiet_world_def)



text \<open>
  C37: two users find each other.  If a rendezvous service receives what \<open>rs-register\<close> sent from an IPv4 address,
  then any datagrams other than registrations of the same token, then within the TTL what
  \<open>rs-lookup\<close> with the same secret sent, and its answer reaches \<open>rs-lookup\<close>, then that program
  prints the address the registration came from and both end with code 0.  (Another registration of the token replaces the address, and
  an IPv6 registrar is stored but cannot be answered for.)
\<close>
theorem rendezvous_commands_meet:
  assumes "client_ok A pA" and "client_ok B pB" and "blake3 (e_prims (c_env B)) = blake3 (e_prims (c_env A))" and "printable rs"
    and "cli_main A [''rs-register'', show_socket_addr rs, psk] pA = Some (codeA, pA')"
    and "cli_main B [''rs-lookup'', show_socket_addr rs, psk] pB = Some (codeB, pB')"
    and "rendezvous_exchange s w (psk_token A psk) (fst (last (sent (pr_world pA')))) (V4 ip port) n
      (fst (last (sent (pr_world pB')))) pkt"
    and "recv_at (pr_world pB) (recv_no (pr_world pB)) = Inr (pkt, rs)"
  shows "codeA = 0 \<and> codeB = 0 \<and> snd (last (sent (pr_world pA'))) = rs \<and> snd (last (sent (pr_world pB'))) = rs \<and>
    pr_out pB' = pr_out pB @ [Stdout (''peer '' @ show_socket_addr (V4 ip port))]"
proof -
  have tok: "length (psk_token A psk) = 32" using assms(1) by (simp add: client_ok_def token_from_psk_def)
  have a: "codeA = 0" "sent (pr_world pA') = sent (pr_world pA) @ [(the (encode_register (psk_token A psk)), rs)]"
    using register_run [OF assms(1,4), of psk] assms(5) by auto
  have b: "codeB = 0" "sent (pr_world pB') = sent (pr_world pB) @ [(the (encode_lookup (psk_token A psk)), rs)]"
    "pr_out pB' = pr_out pB @ [Stdout (lookup_line pkt)]"
    using lookup_run [OF assms(2,4,8), of psk] assms(3,6) by auto
  have "lookup_line pkt = ''peer '' @ show_socket_addr (V4 ip port)"
    using rendezvous_exchange_reply [of s w "psk_token A psk" _ ip port n _ pkt] assms(7) tok
    by (simp add: a b encode_request)
  then show ?thesis using a b by simp
qed

theorem rendezvous_commands_meet_witness:
  "\<exists>pB pB'. cli_main demo_cli [''rs-lookup'', ''127.0.0.1:80'', ''x''] pB = Some (0, pB') \<and> pr_out pB' = pr_out pB @ [Stdout ''peer 10.0.0.7:80'']"
proof -
  let ?t = "psk_token demo_cli ''x''" and ?rs = "V4 (Ipv4Addr 127 0 0 1) 80" and ?a = "V4 (Ipv4Addr 10 0 0 7) 80"
  let ?d = "the (encode_register ?t)" and ?q = "the (encode_lookup ?t)"
  let ?w = "quiet_world\<lparr>recv_at := \<lambda>n. if n = 0 then Inr (?d, ?a) else Inr (?q, demo_peer), clock_at := \<lambda>_. 0\<rparr>"
  have tok: "length ?t = 32" using demo_hash by (simp add: token_from_psk_def)
  obtain r1 s1 w1 where st: "rendezvous_step rendezvous_bind ?w = (r1, s1, w1)" by (cases "rendezvous_step rendezvous_bind ?w")
  obtain r2 s2 w2 where st2: "rendezvous_step s1 w1 = (r2, s2, w2)" by (cases "rendezvous_step s1 w1")
  have f: "recv_at w1 = recv_at ?w" "recv_no w1 = 1" "send_at w1 = send_at ?w"
    using step_frame [OF st] by (simp_all add: quiet_world_def)
  obtain pkt where pkt: "sent w2 = sent w1 @ [(pkt, demo_peer)]"
    using rendezvous_register_lookup [of ?t ?d rendezvous_bind ?w _ _ r1 s1 w1 w1 0 s1 ?q demo_peer r2 s2 w2] st st2 f tok
    by (auto simp: encode_request rendezvous_bind_def hm_wf_def quiet_world_def from_secs_def mono_def)
  let ?pB = "demo_process\<lparr>pr_world := quiet_world\<lparr>recv_at := \<lambda>_. Inr (pkt, ?rs)\<rparr>\<rparr>"
  have ok: "client_ok demo_cli demo_process" "client_ok demo_cli ?pB"
    using demo_hash by (simp_all add: client_ok_def) (simp_all add: demo_cli_def demo_process_def quiet_world_def)
  obtain pA' where A: "cli_main demo_cli [''rs-register'', show_socket_addr ?rs, ''x''] demo_process = Some (0, pA')"
    "sent (pr_world pA') = sent (pr_world demo_process) @ [(?d, ?rs)]"
    using register_run [OF ok(1), of ?rs "''x''"] by auto
  obtain pB' where B: "cli_main demo_cli [''rs-lookup'', show_socket_addr ?rs, ''x''] ?pB = Some (0, pB')"
    "sent (pr_world pB') = sent (pr_world ?pB) @ [(?q, ?rs)]"
    using lookup_run [OF ok(2), of ?rs pkt ?rs "''x''"] by auto
  have "rendezvous_exchange rendezvous_bind ?w ?t ?d ?a 0 ?q pkt"
    using st st2 f pkt by (simp add: rendezvous_exchange_def) (simp add: rendezvous_bind_def hm_wf_def quiet_world_def from_secs_def mono_def)
  then have "pr_out pB' = pr_out ?pB @ [Stdout (''peer '' @ show_socket_addr ?a)]"
    using rendezvous_commands_meet [OF ok refl _ A(1) B(1), of rendezvous_bind ?w "Ipv4Addr 10 0 0 7" 80 0 pkt] A(2) B(2) by simp
  moreover have "show_socket_addr ?rs = ''127.0.0.1:80''" "show_socket_addr ?a = ''10.0.0.7:80''"
    by (simp_all add: show_base.simps digit_char_def char_of_eq_iff)
  ultimately show ?thesis using B(1) by (intro exI [of _ ?pB] exI [of _ pB']) simp
qed

end
