(* ===== verification/Ppose_Examples.thy ===== *)
theory Ppose_Examples
  imports Ppose_Cli_Run
begin

text \<open>
  The example programs under \<^verbatim>\<open>examples/\<close>.  They end with a panic, exit code 101, where the
  command line program returns an error; the text of the panic is not modelled.  \<^verbatim>\<open>udp_chat\<close> has two
  threads with a socket each, so each has its own world and prints its own lines; how the lines
  of the two mix is up to the scheduler.  The keys that are drawn are arguments.
\<close>

section \<open>Panics\<close>

definition panicking :: "unit cmd \<Rightarrow> process \<Rightarrow> (nat \<times> process) option" where
  "panicking c p =
     (case c p of
        None \<Rightarrow> None
      | Some (Inl _, p1) \<Rightarrow> Some (101, p1)
      | Some (Inr _, p1) \<Rightarrow> Some (0, p1))"

section \<open>cli\_client\<close>

text \<open>
  A call on a socket that has no read timeout: where the world would answer with a timeout, it does not return.
\<close>

definition blocking :: "'a cmd \<Rightarrow> 'a cmd" where
  "blocking c p =
     (case c p of
        Some (Inl (CSession (SIo e)), p1) \<Rightarrow>
          if e = WouldBlock \<or> e = TimedOut then None else Some (Inl (CSession (SIo e)), p1)
      | r \<Rightarrow> r)"

definition client_listen :: "('np, 'hs, 'ts, 'sk, 'pk) cli_env \<Rightarrow> string list \<Rightarrow> unit cmd" where
  "client_listen C args =
     (let bind = next_or ''127.0.0.1:0'' args; E = c_env C; ident = identity_generate (c_random C)
      in cmd_bind (cmd_result (map_err CIo (c_bind C bind))) (\<lambda>_.
         cmd_bind (cmd_result (map_err CIo (c_local_addr C bind))) (\<lambda>addr.
         cmd_bind (println (''listen '' @ show_socket_addr addr)) (\<lambda>_.
         cmd_bind (blocking (on_world CSession (accept_responder E ident None))) (\<lambda>s.
         cmd_bind (on_session (session_recv E (from_secs 30) s)) (\<lambda>(msg, s1).
         cmd_bind (println (from_utf8_lossy msg)) (\<lambda>_.
         cmd_bind (on_session (session_send E (string_bytes ''ack'') s1)) (\<lambda>_.
         cmd_result (Inr ())))))))))"

definition client_connect :: "('np, 'hs, 'ts, 'sk, 'pk) cli_env \<Rightarrow> string list \<Rightarrow> unit cmd" where
  "client_connect C args =
     (let E = c_env C; ident = identity_generate (c_random C)
      in cmd_bind (cmd_result (addr_arg ''peer addr'' args)) (\<lambda>peer.
         cmd_bind (cmd_result (map_err CIo (bind_loopback C))) (\<lambda>_.
         cmd_bind (on_world CSession (connect_initiator E ident (Direct peer))) (\<lambda>s.
         cmd_bind (on_session (session_send E (string_bytes ''hello'') s)) (\<lambda>(_, s1).
         cmd_bind (on_session (session_recv E (from_secs 10) s1)) (\<lambda>(reply, _).
         println (from_utf8_lossy reply)))))))"

definition cli_client :: "('np, 'hs, 'ts, 'sk, 'pk) cli_env \<Rightarrow> string list \<Rightarrow> process \<Rightarrow> (nat \<times> process) option" where
  "cli_client C argv p =
     (case argv of
        cmd # args \<Rightarrow>
          if cmd = ''listen'' then panicking (client_listen C args) p
          else if cmd = ''connect'' then panicking (client_connect C args) p
          else map_option (\<lambda>(_, p1). (2, p1)) (eprintln ''usage: cli_client listen [bind] | connect <peer>'' p)
      | [] \<Rightarrow> map_option (\<lambda>(_, p1). (2, p1)) (eprintln ''usage: cli_client listen [bind] | connect <peer>'' p))"

section \<open>relay\_node\<close>

text \<open>\<^verbatim>\<open>loop { let _ = r.step(); }\<close>\<close>

partial_function (option) serve_forever ::
  "('s \<Rightarrow> world \<Rightarrow> (io_error + bool) \<times> 's \<times> world) \<Rightarrow> 's \<Rightarrow> world \<Rightarrow> (nat \<times> process) option" where
  "serve_forever step s w = (case step s w of (_, s1, w1) \<Rightarrow> serve_forever step s1 w1)"

definition relay_node :: "('np, 'hs, 'ts, 'sk, 'pk) cli_env \<Rightarrow> string list \<Rightarrow> process \<Rightarrow> (nat \<times> process) option" where
  "relay_node C argv p =
     (let bind = next_or ''127.0.0.1:0'' argv
      in case bind_service C bind relay_bind of
           Inl _ \<Rightarrow> Some (101, p)
         | Inr r \<Rightarrow>
             (case c_local_addr C bind of
                Inl _ \<Rightarrow> Some (101, p)
              | Inr addr \<Rightarrow>
                  (case println (''relay '' @ show_socket_addr addr) p of
                     Some (_, p1) \<Rightarrow> serve_forever (relay_step (blake3 (e_prims (c_env C)))) r (pr_world p1)
                   | None \<Rightarrow> None)))"

section \<open>udp\_chat\<close>

definition hex_prefix :: "bytes \<Rightarrow> string" where
  "hex_prefix bs = concat (map hex_byte (take 4 bs))"

definition chat_bob :: "('np, 'hs, 'ts, 'sk, 'pk) cli_env \<Rightarrow> unit cmd" where
  "chat_bob B =
     (let E = c_env B; bob_id = identity_generate (c_random B)
      in cmd_bind (on_world CSession (accept_responder E bob_id None)) (\<lambda>s.
         cmd_bind (on_session (session_recv E (from_secs 2) s)) (\<lambda>(msg, s1).
         cmd_bind (println (''bob got: '' @ from_utf8_lossy msg)) (\<lambda>_.
         cmd_bind (on_session (session_send E (string_bytes ''ack'') s1)) (\<lambda>_.
         cmd_result (Inr ()))))))"

definition chat_alice :: "('np, 'hs, 'ts, 'sk, 'pk) cli_env \<Rightarrow> socket_addr \<Rightarrow> unit cmd" where
  "chat_alice A bob_addr =
     (let E = c_env A; P = e_prims E; alice_id = identity_generate (c_random A)
      in cmd_bind (on_world CSession (connect_initiator E alice_id (Direct bob_addr))) (\<lambda>s.
         cmd_bind (println (''alice fp '' @ hex_prefix (fingerprint P (public P alice_id)) @ text_of [0xE2, 0x80, 0xA6])) (\<lambda>_.
         cmd_bind (on_session (session_send E (string_bytes ''ping'') s)) (\<lambda>(_, s1).
         cmd_bind (on_session (session_recv E (from_secs 2) s1)) (\<lambda>(reply, _).
         println (''alice got: '' @ from_utf8_lossy reply))))))"

text \<open>
  The main thread holds Alice's socket.  When it panics the program ends without waiting for
  Bob; otherwise it joins his thread and panics if that has.
\<close>

definition udp_chat ::
  "('np, 'hs, 'ts, 'sk, 'pk) cli_env \<Rightarrow> ('np, 'hs, 'ts, 'sk, 'pk) cli_env \<Rightarrow> process \<Rightarrow> process \<Rightarrow> (nat \<times> process) option" where
  "udp_chat A B p pB =
     (case println (''PPoSE udp_chat demo (crate '' @ CRATE_VERSION @ '')'') p of
        None \<Rightarrow> None
      | Some (_, p1) \<Rightarrow>
          (case (bind_loopback B, bind_loopback A) of
             (Inr bob_addr, Inr _) \<Rightarrow>
               (case chat_alice A bob_addr p1 of
                  None \<Rightarrow> None
                | Some (Inl _, p2) \<Rightarrow> Some (101, p2)
                | Some (Inr _, p2) \<Rightarrow>
                    (case chat_bob B pB of
                       None \<Rightarrow> None
                     | Some (Inl _, _) \<Rightarrow> Some (101, p2)
                     | Some (Inr _, _) \<Rightarrow> Some (0, p2)))
           | _ \<Rightarrow> Some (101, p1)))"

section \<open>admission\_demo\<close>

definition invite_generate :: "'sgk \<Rightarrow> 'sgk invite_signing_key" where
  "invite_generate drawn = InviteSigningKey drawn"

fun show_bool :: "bool \<Rightarrow> string" where
  "show_bool True = ''true''"
| "show_bool False = ''false''"

text \<open>The lines it prints; \<open>None\<close> is a panic.\<close>

definition admission_demo ::
  "('sgk, 'vk) signatures \<Rightarrow> ('sk, 'pk) primitives \<Rightarrow> 'sgk \<Rightarrow> 'sgk \<Rightarrow> 'sk \<Rightarrow> 'sk \<Rightarrow> string list option" where
  "admission_demo E P root_key alice_key bob_key mallory_key =
     (let now = 1700000000;
          root = invite_generate root_key;
          store0 = set_max_invitees_per_issuer (add_root E trust_store_new (invite_public E root)) 50;
          alice_signing = invite_generate alice_key;
          alice_as_subject = public_from_bytes P (verifying_as_bytes E (invite_public E alice_signing));
          root_to_alice = issue E P root alice_as_subject now (30 * 24 * 3600)
      in case ts_ingest E store0 root_to_alice now of
           (Inl _, _) \<Rightarrow> None
         | (Inr _, store1) \<Rightarrow>
             let bob = public P (identity_generate bob_key);
                 alice_to_bob = issue E P alice_signing bob now (7 * 24 * 3600)
             in case ts_ingest E store1 alice_to_bob now of
                  (Inl _, _) \<Rightarrow> None
                | (Inr _, store) \<Rightarrow>
                    let bob_line = (case trust_depth E store (as_bytes P bob) 2 now of
                          Some depth \<Rightarrow> ''bob admitted, '' @ show_nat (unat depth) @ '' hop(s) from a trusted root''
                        | None \<Rightarrow> ''bob NOT admitted'');
                        mallory = public P (identity_generate mallory_key)
                    in Some [bob_line, ''mallory admitted: '' @ show_bool (is_admitted E store (as_bytes P mallory) 2 now)])"

section \<open>The examples come back\<close>

lemma finishes_returns: "finishes c Q \<Longrightarrow> clock_diverges (pr_world p) \<Longrightarrow> \<exists>r p'. c p = Some (r, p')"
  unfolding finishes_def by blast

lemma panicking_returns:
  assumes "finishes c Q" and "clock_diverges (pr_world p)"
  shows "\<exists>code p'. panicking c p = Some (code, p') \<and> code \<in> {0, 2, 101}"
proof -
  obtain r p' where "c p = Some (r, p')" using finishes_returns [OF assms] by blast
  then show ?thesis by (cases r) (simp_all add: panicking_def)
qed

lemma finishes_client:
  "finishes (client_connect C args) (\<lambda>_. True)"
  "finishes (chat_bob C) (\<lambda>_. True)" "finishes (chat_alice C a) (\<lambda>_. True)"
  unfolding client_connect_def chat_bob_def chat_alice_def Let_def
  by (intro finishes_steps; auto intro!: finishes_steps)+

text \<open>\<^verbatim>\<open>cli_client listen\<close> may wait for its handshake forever; everything else ends.\<close>

lemma cli_client_returns:
  assumes "clock_diverges (pr_world p)" and "argv = [] \<or> hd argv \<noteq> ''listen''"
  shows "\<exists>code p'. cli_client C argv p = Some (code, p') \<and> code \<in> {0, 2, 101}"
proof (cases "argv \<noteq> [] \<and> hd argv = ''connect''")
  case True
  then have "cli_client C argv p = panicking (client_connect C (tl argv)) p" by (cases argv) (auto simp: cli_client_def)
  then show ?thesis using panicking_returns [OF finishes_client(1) assms(1)] by simp
next
  case False
  then show ?thesis using assms(2) by (cases argv) (simp_all add: cli_client_def eprintln_def)
qed

lemma udp_chat_returns:
  assumes "clock_diverges (pr_world p)" and "clock_diverges (pr_world pB)"
  shows "\<exists>code p'. udp_chat A B p pB = Some (code, p') \<and> code \<in> {0, 101}"
proof -
  define p1 where "p1 = p\<lparr>pr_out := pr_out p @ [Stdout (''PPoSE udp_chat demo (crate '' @ CRATE_VERSION @ '')'')]\<rparr>"
  have "clock_diverges (pr_world p1)" using assms(1) by (simp add: p1_def)
  note alice = finishes_returns [OF finishes_client(3) [of A] this]
  obtain q p3 where bob: "chat_bob B pB = Some (q, p3)" using finishes_returns [OF finishes_client(2) assms(2)] by blast
  show ?thesis
  proof (cases "isl (bind_loopback B) \<or> isl (bind_loopback A)")
    case True
    then show ?thesis by (auto simp: udp_chat_def println_def isl_def split: sum.splits)
  next
    case False
    then obtain b a where ab: "bind_loopback B = Inr b" "bind_loopback A = Inr a"
      by (cases "bind_loopback B"; cases "bind_loopback A") auto
    obtain r p2 where "chat_alice A b p1 = Some (r, p2)" using alice by blast
    then show ?thesis by (cases r; cases q) (simp_all add: udp_chat_def println_def ab p1_def bob)
  qed
qed

lemma serve_forever_None: "serve_forever step s w = None"
proof -
  have "serve_forever step s w = Some x \<Longrightarrow> False" for x
    by (induction rule: serve_forever.raw_induct [rotated, consumes 1]) (auto split: prod.splits)
  then show ?thesis by (cases "serve_forever step s w") auto
qed

text \<open>
  Once its socket is bound, \<^verbatim>\<open>relay_node\<close> never ends, whatever it receives and whatever the operating system
  refuses to send.
\<close>

lemma relay_node_stays:
  "c_bind C (next_or ''127.0.0.1:0'' argv) = Inr () \<Longrightarrow> c_option C (next_or ''127.0.0.1:0'' argv) = None \<Longrightarrow> \<not> isl (c_local_addr C (next_or ''127.0.0.1:0'' argv)) \<Longrightarrow>
     relay_node C argv p = None"
  by (auto simp: relay_node_def bind_service_def println_def serve_forever_None Let_def isl_def split: sum.splits)

section \<open>Properties\<close>

text \<open>
  What the admission example demonstrates.  With signatures that verify, keys that are
  their bytes, and four different public keys, it does not panic, admits Bob at two hops
  from the root and does not admit Mallory.
\<close>
lemma admission_demo_outcome:
  fixes E :: "('sgk, 'vk) signatures"
  assumes "signatures_ok E" and "\<forall>b. length b = 32 \<longrightarrow> pk_bytes P (pk_from P b) = b"
    and "distinct [vk_bytes E (vk_of E rk), vk_bytes E (vk_of E ak), pk_bytes P (pk_of P bk), pk_bytes P (pk_of P mk)]"
  shows "admission_demo E P rk ak bk mk = Some [''bob admitted, 2 hop(s) from a trusted root'', ''mallory admitted: false'']"
proof -
  let ?now = "1700000000 :: u64"
  define R where "R = vk_bytes E (vk_of E rk)"
  define A where "A = vk_bytes E (vk_of E ak)"
  define B where "B = pk_bytes P (pk_of P bk)"
  define M where "M = pk_bytes P (pk_of P mk)"
  have dist: "R \<noteq> A" "R \<noteq> B" "R \<noteq> M" "A \<noteq> B" "A \<noteq> M" "B \<noteq> M" using assms(3) by (auto simp: R_def A_def B_def M_def)
  define ra where "ra = issue E P (InviteSigningKey rk) (public_from_bytes P A) ?now (30 * 24 * 3600)"
  define ab where "ab = issue E P (InviteSigningKey ak) (PublicIdentity (pk_of P bk)) ?now (7 * 24 * 3600)"
  have "pk_bytes P (pk_from P A) = A" using assms(1,2) by (simp add: A_def signatures_ok_def)
  then have i: "inv_subject ra = A" "inv_subject ab = B" "vk_bytes E (verifying_key (inv_issuer ra)) = R"
      "vk_bytes E (verifying_key (inv_issuer ab)) = A"
    by (simp_all add: ra_def ab_def issue_def Let_def as_bytes_def public_from_bytes_def invite_public_def R_def A_def B_def)
  have v: "verify E ra ?now = Inr ()" "verify E ab ?now = Inr ()"
    by (simp_all add: ra_def ab_def issue_verify_window [OF assms(1)])
  note defs = ts_ingest_def add_root_def set_max_invitees_per_issuer_def trust_store_new_def verifying_as_bytes_def
    hm_insert_def Let_def
  define t0 :: "'vk trust_store" where "t0 = \<lparr>ts_roots = [R], ts_edges = [], ts_max = 50\<rparr>"
  define t1 :: "'vk trust_store" where "t1 = \<lparr>ts_roots = [R], ts_edges = [(R, [(A, ra)])], ts_max = 50\<rparr>"
  obtain t2 where t2: "ts_ingest E t1 ab ?now = (Inr (), t2)" "hm_get (ts_edges t2) R = Some [(A, ra)]"
    "hm_get (ts_edges t2) A = Some [(B, ab)]" "ts_roots t2 = [R]"
    using dist v i by (auto simp: t1_def defs)
  have levels: "[Suc 0..<3] = [1, 2]" by (simp add: upt_rec)
  have "ts_ingest E t0 ra ?now = (Inr (), t1)" using v i by (simp add: t0_def t1_def defs)
  moreover have "trust_depth E t2 B 2 ?now = Some 2" "trust_depth E t2 M 2 ?now = None"
    using dist v i t2 by (simp_all add: trust_depth_def levels Let_def)
  moreover have "show_nat 2 = ''2''" by (simp add: show_base.simps digit_char_def char_of_eq_iff)
  moreover have "set_max_invitees_per_issuer (add_root E trust_store_new (invite_public E (invite_generate rk))) 50 = t0"
    by (simp add: t0_def defs invite_public_def invite_generate_def R_def)
  moreover have "issue E P (invite_generate rk) (public_from_bytes P (verifying_as_bytes E (invite_public E (invite_generate ak)))) ?now (30 * 24 * 3600) = ra"
    "issue E P (invite_generate ak) (public P (identity_generate bk)) ?now (7 * 24 * 3600) = ab"
    by (simp_all add: ra_def ab_def A_def invite_generate_def identity_generate_def public_def verifying_as_bytes_def invite_public_def)
  moreover have "as_bytes P (public P (identity_generate bk)) = B" "as_bytes P (public P (identity_generate mk)) = M"
    by (simp_all add: as_bytes_def public_def identity_generate_def B_def M_def)
  ultimately show ?thesis
    using t2(1) unfolding admission_demo_def Let_def by (simp only: is_admitted_def) simp
qed

end
