(* ===== verification/Ppose_Arq_Transfer.thy ===== *)
theory Ppose_Arq_Transfer
  imports Ppose_Arq_System
begin

text \<open>
  The transfer of one message between two endpoints that are at rest, in closed form: what the
  sender's queue looks like after \<open>k\<close> acknowledgements with \<open>h\<close> frames sent, what the receiver holds
  after \<open>i\<close> frames, and that each operation of \<^verbatim>\<open>src/reliability/arq.rs\<close> takes one such state to the next.
\<close>

section \<open>Endpoints at rest\<close>

definition idle :: "arq \<Rightarrow> bool" where
  "idle a \<longleftrightarrow> unacked a = [] \<and> delivered a = [] \<and> fragments a = [] \<and> recv_bits a = 0 \<and> 0 < retx a"

text \<open>Both ends at rest, each expecting the number the other will use next.\<close>

definition in_tune :: "arq \<Rightarrow> arq \<Rightarrow> bool" where
  "in_tune a b \<longleftrightarrow> idle a \<and> idle b \<and> recv_base b = next_seq a \<and> recv_base a = next_seq b"

lemma in_tune_new: "in_tune arq_new arq_new"
  by (simp add: in_tune_def idle_def arq_new_def DEFAULT_RETX_def from_millis_def)

lemma in_tune_sym: "in_tune a b \<longleftrightarrow> in_tune b a"
  by (auto simp: in_tune_def)

definition msg_id :: "arq \<Rightarrow> bytes \<Rightarrow> u16" where
  "msg_id a m = (if m = [] then 0 else next_frag_id a)"

definition frame :: "arq \<Rightarrow> bytes \<Rightarrow> nat \<Rightarrow> bytes" where
  "frame a m i = encode_data (next_seq a + of_nat i) (msg_id a m) (of_nat i) (of_nat (nfr m)) (pieces m ! i)"

definition frame_ack :: "arq \<Rightarrow> nat \<Rightarrow> bytes" where
  "frame_ack a i = encode_ack (next_seq a + of_nat (Suc i)) 0"

text \<open>The endpoints after the transfer.\<close>

definition sent_msg :: "arq \<Rightarrow> bytes \<Rightarrow> arq" where
  "sent_msg a m = a\<lparr>next_seq := next_seq a + of_nat (nfr m),
     next_frag_id := (if m = [] then next_frag_id a else next_frag_id (bump_frag_id a))\<rparr>"

definition received_msg :: "arq \<Rightarrow> bytes \<Rightarrow> arq" where
  "received_msg b m = b\<lparr>recv_base := recv_base b + of_nat (nfr m), pending_ack := True\<rparr>"

lemma in_tune_msg: "in_tune a b \<Longrightarrow> in_tune (sent_msg a m) (received_msg b m)"
  by (simp add: in_tune_def idle_def sent_msg_def received_msg_def)

section \<open>The sender\<close>

definition slot :: "arq \<Rightarrow> bytes \<Rightarrow> (nat \<Rightarrow> instant) \<Rightarrow> nat \<Rightarrow> nat \<Rightarrow> u32 \<times> outgoing" where
  "slot a m tm h i = (next_seq a + of_nat i,
     if i < h then \<lparr>og_plaintext = frame a m i, og_last_sent = Some (tm i), og_attempts = 1\<rparr> else fresh_slot (frame a m i))"

text \<open>\<open>k\<close> frames are acknowledged, \<open>h\<close> have been sent, frame \<open>i\<close> at time \<open>tm i\<close>.\<close>

definition sender_at :: "arq \<Rightarrow> bytes \<Rightarrow> (nat \<Rightarrow> instant) \<Rightarrow> nat \<Rightarrow> nat \<Rightarrow> arq" where
  "sender_at a m tm k h = (sent_msg a m)\<lparr>unacked := map (slot a m tm h) [k..<nfr m]\<rparr>"

lemma sender_at_simps [simp]:
  "unacked (sender_at a m tm k h) = map (slot a m tm h) [k..<nfr m]" "retx (sender_at a m tm k h) = retx a"
  "max_attempts (sender_at a m tm k h) = max_attempts a" "delivered (sender_at a m tm k h) = delivered a"
  by (simp_all add: sender_at_def sent_msg_def)

lemma sender_at_end: "idle a \<Longrightarrow> sender_at a m tm (nfr m) h = sent_msg a m"
  by (simp add: sender_at_def sent_msg_def idle_def)

text \<open>The sequence numbers of a message do not wrap.\<close>

definition no_wrap :: "arq \<Rightarrow> bytes \<Rightarrow> bool" where
  "no_wrap a m \<longleftrightarrow> unat (next_seq a) + nfr m < 2 ^ 32"

lemma enqueue_sender_at:
  assumes "idle a" and "no_wrap a m" and "nfr m \<le> 255"
  shows "enqueue a m = (Inr (), sender_at a m tm 0 0)"
proof -
  have "fst (enqueue a m) = Inr ()"
    using assms(3) by (auto simp: enqueue_def enqueue_one_def Let_def pieces_def split: if_splits)
  then obtain a' where a': "enqueue a m = (Inr (), a')" by (metis prod.collapse)
  have "a' = a\<lparr>next_seq := of_nat (unat (next_seq a) + nfr m),
     next_frag_id := (if m = [] then next_frag_id a else next_frag_id (bump_frag_id a)),
     unacked := new_entries (unat (next_seq a)) (msg_id a m) (of_nat (nfr m)) 0 (pieces m)\<rparr>"
    using enqueue_eq [OF a', of "unat (next_seq a)"] assms by (simp add: idle_def msg_id_def no_wrap_def)
  also have "\<dots> = sender_at a m tm 0 0"
    by (simp add: sender_at_def sent_msg_def new_entries_def slot_def frame_def)
  finally show ?thesis using a' by simp
qed

lemma seq_less:
  assumes "no_wrap a m" and "i < j" and "j < nfr m"
  shows "next_seq a + of_nat i < next_seq a + of_nat j"
proof -
  have "unat (next_seq a + of_nat l) = unat (next_seq a) + l" if "l < nfr m" for l
    using that assms(1) unat_add_lem [of "next_seq a" "of_nat l"] by (simp add: no_wrap_def unat_of_nat)
  then show ?thesis using assms(2,3) by (simp add: word_less_nat_alt)
qed

lemma bt_wf_slots: "no_wrap a m \<Longrightarrow> bt_wf (map (slot a m tm h) [k..<nfr m])"
  by (auto simp: bt_wf_def sorted_wrt_map sorted_wrt_iff_nth_less slot_def simp del: of_nat_add intro: seq_less)

lemma take_upt_min: "take j [h..<n] = [h..<min n (h + j)]"
  by (cases "h + j \<le> n") (simp_all add: min_def)

lemma slots_split: "k \<le> h \<Longrightarrow> h \<le> nfr m \<Longrightarrow> [k..<nfr m] = [k..<h] @ [h..<nfr m]"
  by (metis le_add_diff_inverse upt_add_eq_append)

lemma filter_slots:
  assumes "k \<le> h" and "h \<le> nfr m"
  shows "filter (\<lambda>e. unsent (snd e)) (map (slot a m tm h) [k..<nfr m]) = map (slot a m tm h) [h..<nfr m]"
    and "in_flight (map (slot a m tm h) [k..<nfr m]) = h - k"
proof -
  have s: "filter (\<lambda>e. unsent (snd e)) (map (slot a m tm h) [k..<h]) = []"
    "filter (\<lambda>e. \<not> unsent (snd e)) (map (slot a m tm h) [k..<h]) = map (slot a m tm h) [k..<h]"
    by (auto simp: filter_empty_conv filter_id_conv slot_def unsent_def)
  have f: "filter (\<lambda>e. unsent (snd e)) (map (slot a m tm h) [h..<nfr m]) = map (slot a m tm h) [h..<nfr m]"
    "filter (\<lambda>e. \<not> unsent (snd e)) (map (slot a m tm h) [h..<nfr m]) = []"
    by (auto simp: filter_empty_conv filter_id_conv slot_def unsent_def fresh_slot_def)
  show "filter (\<lambda>e. unsent (snd e)) (map (slot a m tm h) [k..<nfr m]) = map (slot a m tm h) [h..<nfr m]"
    "in_flight (map (slot a m tm h) [k..<nfr m]) = h - k"
    by (simp_all only: slots_split [OF assms] in_flight_def map_append filter_append s f) simp_all
qed

lemma mark_first_sent:
  "\<forall>e \<in> set m1. \<not> unsent (snd e) \<Longrightarrow> mark_first now j (m1 @ m2) = m1 @ mark_first now j m2"
proof (induction m1)
  case (Cons e m1)
  then show ?case by (cases j; cases e) simp_all
qed simp

lemma mark_first_fresh:
  "\<forall>e \<in> set m. unsent (snd e) \<Longrightarrow> mark_first now j m = map (apsnd (mark_sent now)) (take j m) @ drop j m"
proof (induction m arbitrary: j)
  case (Cons e m)
  then show ?case by (cases j; cases e) simp_all
qed simp

lemma mark_first_slots:
  assumes "k \<le> h" and "h \<le> nfr m"
  shows "mark_first now j (map (slot a m tm h) [k..<nfr m]) =
    map (slot a m (\<lambda>i. if i < h then tm i else now) (min (nfr m) (h + j))) [k..<nfr m]" (is "_ = map ?s _")
proof -
  let ?h = "min (nfr m) (h + j)"
  have 1: "\<forall>e \<in> set (map (slot a m tm h) [k..<h]). \<not> unsent (snd e)" by (auto simp: slot_def unsent_def)
  have 2: "\<forall>e \<in> set (map (slot a m tm h) [h..<nfr m]). unsent (snd e)"
    by (auto simp: slot_def unsent_def fresh_slot_def)
  have h: "h \<le> ?h" "?h \<le> nfr m" using assms(2) by simp_all
  have "take j [h..<nfr m] = [h..<?h]" "drop j [h..<nfr m] = [?h..<nfr m]"
    by (auto simp: take_upt_min drop_upt min_def)
  then have "mark_first now j (map (slot a m tm h) [k..<nfr m]) =
      map (slot a m tm h) [k..<h] @ map (apsnd (mark_sent now)) (map (slot a m tm h) [h..<?h]) @ map (slot a m tm h) [?h..<nfr m]"
    unfolding slots_split [OF assms] map_append mark_first_sent [OF 1] mark_first_fresh [OF 2] take_map drop_map by simp
  also have "\<dots> = map ?s [k..<h] @ map ?s [h..<?h] @ map ?s [?h..<nfr m]"
    using h(1) by (auto simp: slot_def fresh_slot_def mark_sent_def)
  also have "\<dots> = map ?s [k..<nfr m]"
    using slots_split [OF assms] slots_split [OF h] by (metis map_append)
  finally show ?thesis .
qed

text \<open>A flush fills the window, and resends nothing while all is recent.\<close>

lemma new_sends_sender_at:
  assumes "no_wrap a m" and "k \<le> h" and "h \<le> min (nfr m) (k + 32)"
  shows "take_new_sends (sender_at a m tm k h) now = Some (map (frame a m) [h..<min (nfr m) (k + 32)],
    sender_at a m (\<lambda>i. if i < h then tm i else now) k (min (nfr m) (k + 32)))"
proof -
  let ?h = "min (nfr m) (k + 32)" and ?m = "map (slot a m tm h) [k..<nfr m]"
  have h: "h \<le> nfr m" "32 - (h - k) = k + 32 - h" using assms(2,3) by auto
  have t: "take (k + 32 - h) (map ((\<lambda>e. og_plaintext (snd e)) \<circ> slot a m tm h) [h..<nfr m]) = map (frame a m) [h..<?h]"
    using assms(3) by (auto simp: take_map slot_def fresh_slot_def take_upt_min min_def)
  have "h - k < 2 ^ 32" using assms(3) by auto
  then show ?thesis
    using take_new_sends_eq [of "sender_at a m tm k h" now] bt_wf_slots [OF assms(1)] filter_slots [OF assms(2) h(1)] assms(3)
      mark_first_slots [OF assms(2) h(1), of now "k + 32 - h" a tm]
    by (simp add: h(2) t) (simp add: sender_at_def t)
qed

lemma retransmits_sender_at:
  assumes "no_wrap a m" and "\<forall>i < h. now - tm i < retx a"
  shows "take_retransmits (sender_at a m tm k h) now = Some (Inr [], sender_at a m tm k h)"
proof -
  have d: "\<not> due now (retx a) (snd (slot a m tm h i))" for i
    using assms(2) by (auto simp: slot_def due_def fresh_slot_def not_le)
  then have "mark_due now (retx a) (map (slot a m tm h) [k..<nfr m]) = map (slot a m tm h) [k..<nfr m]"
    by (auto simp: mark_due_def split: prod.splits) (metis snd_conv)
  moreover have "due_frames now (retx a) (map (slot a m tm h) [k..<nfr m]) = []"
    using d by (simp add: due_frames_def filter_empty_conv)
  moreover have "\<not> exhausted now (retx a) ma x" if "(p, x) \<in> set (map (slot a m tm h) [k..<nfr m])" for p x ma
    using d that by (metis (no_types, lifting) exhausted_def imageE list.set_map snd_conv)
  ultimately show ?thesis
    using take_retransmits_go [of "sender_at a m tm k h" now] bt_wf_slots [OF assms(1)]
    by (simp add: sender_at_def sent_msg_def)
qed

lemma acked_first:
  assumes "k \<le> i" and "i < n" and "n \<le> 255"
  shows "acked (q + of_nat (Suc k)) 0 (q + of_nat i) \<longleftrightarrow> i = k"
proof -
  let ?n = "unat q + Suc k"
  have "window_rel {..<?n} ?n (q + of_nat (Suc k)) 0" by (simp add: window_rel_def)
  from acked_window [OF this, of "unat q + i"] have "acked (q + of_nat (Suc k)) 0 (of_nat (unat q + i)) \<longleftrightarrow> i < Suc k"
    using assms by simp
  then show ?thesis using assms(1) by auto
qed

lemma ingest_ack_sender_at:
  assumes "k < nfr m" and "nfr m \<le> 255"
  shows "ingest (sender_at a m tm k h) (frame_ack a k) = (Inr None, sender_at a m tm (Suc k) h)"
proof -
  have "filter (\<lambda>e. \<not> acked (next_seq a + of_nat (Suc k)) 0 (fst e)) (map (slot a m tm h) [k..<nfr m]) =
      map (slot a m tm h) (filter (\<lambda>i. i \<noteq> k) [k..<nfr m])"
    unfolding filter_map comp_def
    by (intro arg_cong [where f = "map _"] filter_cong refl) (use acked_first [of k _ "nfr m" "next_seq a"] assms in \<open>auto simp: slot_def\<close>)
  also have "filter (\<lambda>i. i \<noteq> k) [k..<nfr m] = [Suc k..<nfr m]"
    using assms(1) by (simp add: upt_conv_Cons filter_id_conv)
  finally have f: "unacked (on_ack (sender_at a m tm k h) (next_seq a + of_nat (Suc k)) 0) = map (slot a m tm h) [Suc k..<nfr m]"
    by (simp only: on_ack_filter sender_at_simps)
  have "on_ack s base bits = s\<lparr>unacked := unacked (on_ack s base bits)\<rparr>" for s base bits by (simp add: on_ack_def)
  then have "on_ack (sender_at a m tm k h) (next_seq a + of_nat (Suc k)) 0 = sender_at a m tm (Suc k) h"
    using f by (metis (no_types, lifting) arq.update_convs(3) arq.surjective sender_at_def)
  then show ?thesis
    by (simp add: ingest_def frame_ack_def decode_encode_ack [where rest = "[]", simplified] del: of_nat_Suc)
qed

section \<open>The receiver\<close>

definition parts_at :: "bytes \<Rightarrow> nat \<Rightarrow> bytes option list" where
  "parts_at m i = map (\<lambda>j. if j < i then Some (pieces m ! j) else None) [0..<nfr m]"

text \<open>The receiver with the first \<open>i\<close> frames of a message, not the last.\<close>

definition receiver_at :: "arq \<Rightarrow> arq \<Rightarrow> bytes \<Rightarrow> nat \<Rightarrow> arq" where
  "receiver_at a b m i = b\<lparr>recv_base := recv_base b + of_nat i, pending_ack := (0 < i \<or> pending_ack b),
     fragments := (if i = 0 then [] else [(msg_id a m, \<lparr>fb_total = of_nat (nfr m), fb_parts = parts_at m i\<rparr>)])\<rparr>"

lemma receiver_at_0: "idle b \<Longrightarrow> receiver_at a b m 0 = b"
  by (simp add: receiver_at_def idle_def)

lemma parts_at_simps [simp]: "length (parts_at m i) = nfr m" "parts_at m 0 = replicate (nfr m) None"
  by (simp_all add: parts_at_def map_replicate_const)

lemma parts_at_step: "i < nfr m \<Longrightarrow> (parts_at m i)[i := Some (pieces m ! i)] = parts_at m (Suc i)"
  by (intro nth_equalityI) (auto simp: parts_at_def nth_list_update)

lemma parts_at_complete: "list_all (\<lambda>p. p \<noteq> None) (parts_at m i) \<longleftrightarrow> nfr m \<le> i"
proof -
  have "list_all (\<lambda>p. p \<noteq> None) (parts_at m i) \<longleftrightarrow> (\<forall>j < nfr m. j < i)"
    by (auto simp: parts_at_def list_all_iff split: if_splits)
  then show ?thesis by (meson leI le_less_trans less_irrefl less_le_trans)
qed

lemma parts_at_end: "concat (flatten (parts_at m (nfr m))) = m"
proof -
  have "parts_at m (nfr m) = map (\<lambda>j. Some (pieces m ! j)) [0..<nfr m]" by (simp add: parts_at_def)
  then show ?thesis by (simp add: flatten_Some map_nth concat_pieces)
qed

lemma mark_received_next: "recv_bits r = 0 \<Longrightarrow> mark_received r (recv_base r) = (True, r\<lparr>recv_base := recv_base r + 1\<rparr>)"
  by (cases r) (simp add: mark_received_def advance_1)

lemma u8_index: "n \<le> 255 \<Longrightarrow> unat (of_nat n :: u8) = n"
  by (simp add: unat_of_nat)

lemma store_next:
  assumes f: "fragments r = (if i = 0 then [] else [(f, \<lparr>fb_total = of_nat (nfr m), fb_parts = parts_at m i\<rparr>)])"
    and "i < nfr m" and "nfr m \<le> 255"
  shows "store_fragment r f (of_nat i) (of_nat (nfr m)) (pieces m ! i) =
    (if Suc i = nfr m then r\<lparr>fragments := [], delivered := delivered r @ [m]\<rparr>
     else r\<lparr>fragments := [(f, \<lparr>fb_total = of_nat (nfr m), fb_parts = parts_at m (Suc i)\<rparr>)]\<rparr>)"
proof -
  let ?b = "\<lambda>i. \<lparr>fb_total = of_nat (nfr m) :: u8, fb_parts = parts_at m i\<rparr>"
  have idx: "unat (of_nat i :: u8) = i" "unat (of_nat (nfr m) :: u8) = nfr m" using assms(2,3) by (simp_all add: u8_index)
  have b: "(case hm_get (fragments r) f of Some b \<Rightarrow> b | None \<Rightarrow> \<lparr>fb_total = of_nat (nfr m), fb_parts = replicate (nfr m) None\<rparr>) = ?b i"
    "hm_insert f x (fragments r) = [(f, x)]" for x
    by (simp_all add: f hm_insert_def)
  have "list_all (\<lambda>p. p \<noteq> None) (parts_at m (Suc i)) \<longleftrightarrow> Suc i = nfr m" 
    using parts_at_complete [of m "Suc i"] assms(2) by linarith
  moreover have "concat (flatten (parts_at m (Suc i))) = m" if "Suc i = nfr m" using parts_at_end that by metis
  ultimately show ?thesis
    using assms(2) unfolding store_fragment_def idx b Let_def
    by (simp add: hm_insert_def hm_remove_def parts_at_step)
qed

lemma ingest_frame:
  assumes "in_tune a b" and "i < nfr m" and "nfr m \<le> 255"
  shows "ingest (receiver_at a b m i) (frame a m i) = (Inr (Some (frame_ack a i)),
    if Suc i = nfr m then (received_msg b m)\<lparr>delivered := [m]\<rparr> else receiver_at a b m (Suc i))"
proof -
  let ?r = "receiver_at a b m i"
  let ?f = "if i = 0 then [] else [(msg_id a m, \<lparr>fb_total = of_nat (nfr m), fb_parts = parts_at m i\<rparr>)]"
  have r: "recv_base ?r = next_seq a + of_nat i" "recv_bits ?r = 0" "delivered ?r = []" "fragments ?r = ?f"
    using assms(1) by (simp_all add: receiver_at_def in_tune_def idle_def)
  have lt: "(of_nat i :: u8) < of_nat (nfr m)" using assms(2,3) by (simp add: word_less_nat_alt u8_index)
  then have dec: "decode_inner (frame a m i) = Inr (DataFrame (recv_base ?r) (msg_id a m) (of_nat i) (of_nat (nfr m)) (pieces m ! i))"
    unfolding frame_def r(1) by (rule decode_encode_data)
  have one: "(of_nat (nfr m) :: u8) = 1 \<longleftrightarrow> nfr m = 1" using u8_index [OF assms(3)] by (metis of_nat_1 unat_1)
  have end1: "i = 0 \<and> Suc i = nfr m \<and> pieces m ! i = m" if "nfr m = 1" using that assms(2) pieces_single by simp
  have "on_data ?r (recv_base ?r) (msg_id a m) (of_nat i) (of_nat (nfr m)) (pieces m ! i) =
      (if Suc i = nfr m then ?r\<lparr>recv_base := recv_base ?r + 1, fragments := [], delivered := [m]\<rparr>
       else ?r\<lparr>recv_base := recv_base ?r + 1, fragments := [(msg_id a m, \<lparr>fb_total = of_nat (nfr m), fb_parts = parts_at m (Suc i)\<rparr>)]\<rparr>)"
  proof (cases "nfr m = 1")
    case True
    have "?r\<lparr>recv_base := recv_base ?r + 1, delivered := [m]\<rparr> = ?r\<lparr>recv_base := recv_base ?r + 1, fragments := [], delivered := [m]\<rparr>"
      using r(4) end1 [OF True] by (cases ?r) simp
    moreover have "pieces m ! i = m" "Suc i = nfr m" using end1 [OF True] by blast+
    ultimately show ?thesis unfolding on_data_def mark_received_next [OF r(2)] using True r(3) by (simp add: one)
  next
    case False
    then show ?thesis
      using store_next [of "?r\<lparr>recv_base := recv_base ?r + 1\<rparr>" i "msg_id a m" m] assms(2,3) r(3,4)
      by (simp add: on_data_def mark_received_next r(2) one)
  qed
  moreover have "?r\<lparr>recv_base := recv_base ?r + 1, fragments := [], delivered := [m], pending_ack := True\<rparr> = (received_msg b m)\<lparr>delivered := [m]\<rparr>"
    if "Suc i = nfr m"
    using assms(1) by (cases b) (simp add: receiver_at_def received_msg_def in_tune_def idle_def that [symmetric] add_ac)
  moreover have "?r\<lparr>recv_base := recv_base ?r + 1,
      fragments := [(msg_id a m, \<lparr>fb_total = of_nat (nfr m), fb_parts = parts_at m (Suc i)\<rparr>)], pending_ack := True\<rparr> = receiver_at a b m (Suc i)"
    by (simp add: receiver_at_def add_ac)
  ultimately show ?thesis
    using r(1,2) by (auto simp: ingest_def dec Let_def frame_ack_def add_ac)
qed

lemma idle_receiver_at: "idle b \<Longrightarrow> unacked (receiver_at a b m i) = []" "idle b \<Longrightarrow> delivered (receiver_at a b m i) = []"
  by (simp_all add: idle_def receiver_at_def)

end
