(* ===== verification/Ppose_Conversation.thy ===== *)
theory Ppose_Conversation
  imports Ppose_Session_Run Ppose_Arq_Transfer
begin

text \<open>
  Two sessions over a network that does its job.  When datagrams arrive in order and in time, every
  message the ARQ accepts is sent, acknowledged frame by frame and received, and both sessions
  end as they began, ready for the next one (\<open>message_arrives\<close>).  The sliding window is at work from the 33rd
  fragment on: a flush sends a new frame for each one acknowledged.
\<close>

section \<open>Worlds\<close>

text \<open>Only counters and the list of sent datagrams differ: \<open>r\<close> receptions, \<open>k\<close> readings of the clock.\<close>

definition moves :: "world \<Rightarrow> nat \<Rightarrow> nat \<Rightarrow> (bytes \<times> socket_addr) list \<Rightarrow> world \<Rightarrow> bool" where
  "moves w r k out w' \<longleftrightarrow> recv_at w' = recv_at w \<and> clock_at w' = clock_at w \<and> send_at w' = send_at w \<and> opt_at w' = opt_at w \<and>
     recv_no w' = recv_no w + r \<and> clock_no w' = clock_no w + k \<and> sent w' = sent w @ out"

lemma moves_refl: "moves w 0 0 [] w"
  by (simp add: moves_def)

lemma moves_trans: "moves w r k o1 w1 \<Longrightarrow> moves w1 r' k' o2 w2 \<Longrightarrow> moves w (r + r') (k + k') (o1 @ o2) w2"
  by (simp add: moves_def)

lemma moves_turn:
  assumes "moves w 1 2 o1 w1" and "moves w1 (n - Suc k) (2 * (n - Suc k) + x) o2 w2" and "k < n"
  shows "moves w (n - k) (2 * (n - k) + x) (o1 @ o2) w2"
proof -
  have "n - k = 1 + (n - Suc k)" using assms(3) by simp
  then show ?thesis using moves_trans [OF assms(1,2)] by (simp add: algebra_simps)
qed

definition tick :: "world \<Rightarrow> world" where
  "tick w = w\<lparr>clock_no := Suc (clock_no w)\<rparr>"

lemma tick_fold: "w\<lparr>clock_no := Suc (clock_no w)\<rparr> = tick w"
  by (simp add: tick_def)

lemma moves_tick: "moves w 0 1 [] (tick w)"
  by (simp add: moves_def tick_def)

definition took :: "world \<Rightarrow> world" where
  "took w = w\<lparr>recv_no := Suc (recv_no w)\<rparr>"

lemma moves_took: "moves w 1 0 [] (took w)"
  by (simp add: moves_def took_def)

lemma now_after: "instant_now w = (clock_at w (clock_no w), tick w)"
  by (simp add: instant_now_def tick_def)

text \<open>A world in which sending works and of the first \<open>n\<close> readings of the clock no two are \<open>d\<close> apart.\<close>

definition calm :: "nat \<Rightarrow> duration \<Rightarrow> world \<Rightarrow> bool" where
  "calm n d w \<longleftrightarrow> (\<forall>i. send_at w i = None \<and> opt_at w i = None) \<and> (\<forall>j < n. \<forall>k < n. clock_at w j < clock_at w k + d)"

lemma calm_mono: "calm n d w \<Longrightarrow> d \<le> e \<Longrightarrow> calm n e w"
  unfolding calm_def by (meson add_left_mono less_le_trans)

lemma calm_moves: "moves w r k out w' \<Longrightarrow> calm n d w' = calm n d w"
  by (simp add: moves_def calm_def)

text \<open>The next datagrams to be received are \<open>ds\<close>, all from \<open>p\<close>.\<close>

definition arriving :: "world \<Rightarrow> bytes list \<Rightarrow> socket_addr \<Rightarrow> bool" where
  "arriving w ds p \<longleftrightarrow> (\<forall>i < length ds. recv_at w (recv_no w + i) = Inr (ds ! i, p))"

lemma arriving_Cons: "arriving w (d # ds) p \<Longrightarrow> recv_at w (recv_no w) = Inr (d, p)"
  by (auto simp: arriving_def dest: spec [of _ 0])

lemma arriving_moves:
  assumes "arriving w (ds @ es) p" and "moves w (length ds) k out w'"
  shows "arriving w' es p"
proof (unfold arriving_def, intro allI impI)
  fix i assume "i < length es"
  then have "recv_at w (recv_no w + (length ds + i)) = Inr ((ds @ es) ! (length ds + i), p)"
    using assms(1) unfolding arriving_def by simp
  then show "recv_at w' (recv_no w' + i) = Inr (es ! i, p)"
    using assms(2) by (simp add: moves_def nth_append add.assoc)
qed

lemmas arriving_tl = arriving_moves [where ds = "[d]" for d, simplified]

section \<open>A session on a direct path\<close>

definition talk :: "socket_addr \<Rightarrow> instant \<Rightarrow> 'ts \<Rightarrow> arq \<Rightarrow> ('hs, 'ts, 'pk) udp_session" where
  "talk p c t a = \<lparr>next_hop = p, s_peer = p, via_relay = False, s_onion = None, s_noise = \<lparr>handshake = None, transport = Some t\<rparr>,
     s_arq = a, drop_data = 0, s_cover = Off, last_cover = c\<rparr>"

lemma talk_simps [simp]:
  "s_arq (talk p c t a) = a" "(talk p c t a)\<lparr>s_arq := b\<rparr> = talk p c t b" "next_hop (talk p c t a) = p"
  "maybe_cover E (talk p c t a) w = (Inr (), talk p c t a, w)"
  by (simp_all add: talk_def maybe_cover_def)

abbreviation sealed :: "bytes \<Rightarrow> bytes" where
  "sealed ct \<equiv> encode_outer Data 0 @ ct"

abbreviation wires :: "bytes list \<Rightarrow> socket_addr \<Rightarrow> (bytes \<times> socket_addr) list" where
  "wires cs p \<equiv> map (\<lambda>c. (sealed c, p)) cs"

lemma seal_talk:
  assumes "ts_write (e_snow E) t pt MAX_DATAGRAM = (Inr ct, t')" and "length ct \<le> 1192" and "\<forall>i. send_at w i = None \<and> opt_at w i = None"
  shows "\<exists>w'. seal_and_send E pt (talk p c t a) w = (Inr (), talk p c t' a, w') \<and> moves w 0 0 (wires [ct] p) w'"
  using assms
  by (simp add: seal_and_send_def noise_seal_def transport_call_def talk_def send_inner_def wire_of_def encode_datagram_def
      send_to_def moves_def const_defs Let_def)

lemma pump_talk:
  assumes "recv_at w (recv_no w) = Inr (sealed ct, p)" and "length ct \<le> 1192" and "0 < d" and "opt_at w (clock_no w) = None"
    and "ts_read (e_snow E) t ct (length ct) = (Inr pt, t')"
  shows "pump E d (talk p c t a) w = ingest_reply E pt (talk p c t' a) (took w)"
proof -
  have "recv_raw w = (Inr (sealed ct, p), took w)"
    using assms(1,2) by (simp add: recv_raw_def recv_from_def took_def const_defs)
  then show ?thesis
    using assms(3-5)
    by (simp add: pump_def set_read_timeout_def handle_incoming_def decode_incoming_def talk_def noise_open_def transport_call_def)
qed

text \<open>A list of plaintexts sealed in sequence.\<close>

fun writes :: "('np, 'hs, 'ts) snow \<Rightarrow> 'ts \<Rightarrow> bytes list \<Rightarrow> bytes list \<Rightarrow> 'ts \<Rightarrow> bool" where
  "writes N t [] [] t' \<longleftrightarrow> t' = t"
| "writes N t (p # ps) (c # cs) t' \<longleftrightarrow>
     (\<exists>t1. ts_write N t p MAX_DATAGRAM = (Inr c, t1) \<and> length c \<le> 1192 \<and> writes N t1 ps cs t')"
| "writes N t ps cs t' \<longleftrightarrow> False"

lemma seal_all_talk:
  "writes (e_snow E) t ps cs t' \<Longrightarrow> \<forall>i. send_at w i = None \<and> opt_at w i = None \<Longrightarrow>
     \<exists>w'. seal_all E ps (talk p c t a) w = (Inr (), talk p c t' a, w') \<and> moves w 0 0 (wires cs p) w'"
proof (induction "e_snow E" t ps cs t' arbitrary: w rule: writes.induct)
  case (2 t pt ps ct cs t')
  then obtain t1 where t1: "ts_write (e_snow E) t pt MAX_DATAGRAM = (Inr ct, t1)" "length ct \<le> 1192" "writes (e_snow E) t1 ps cs t'"
    by auto
  have "seal_data E pt (talk p c t a) w = seal_and_send E pt (talk p c t a) w"
    by (simp add: seal_data_def) (simp add: talk_def)
  then obtain w1 where w1: "seal_data E pt (talk p c t a) w = (Inr (), talk p c t1 a, w1)" "moves w 0 0 (wires [ct] p) w1"
    using seal_talk [OF t1(1,2) "2.prems"(2), of p c a] by auto
  then have "\<forall>i. send_at w1 i = None \<and> opt_at w1 i = None" using "2.prems"(2) by (simp add: moves_def)
  from "2.hyps" [OF t1(3) this] obtain w' where "seal_all E ps (talk p c t1 a) w1 = (Inr (), talk p c t' a, w')"
    "moves w1 0 0 (wires cs p) w'"
    by blast
  then show ?case using w1 moves_trans [OF w1(2)] by fastforce
qed (auto intro: moves_refl)

section \<open>Two transports joined by channels\<close>

text \<open>
  The documented behaviour of two transports a handshake has left, while their counters last: what is written on one
  side, with a tag of 16 bytes at most, is read on the other in the order of writing, and the two directions do
  not interfere.  \<open>linked N n t u fl bl\<close> says this of the next \<open>n\<close> calls, with the ciphertexts \<open>fl\<close> under way
  from \<open>t\<close> to \<open>u\<close> and \<open>bl\<close> from \<open>u\<close> to \<open>t\<close>, each with its plaintext.
\<close>

fun linked :: "('np, 'hs, 'ts) snow \<Rightarrow> nat \<Rightarrow> 'ts \<Rightarrow> 'ts \<Rightarrow> (bytes \<times> bytes) list \<Rightarrow> (bytes \<times> bytes) list \<Rightarrow> bool" where
  "linked N 0 t u fl bl \<longleftrightarrow> True"
| "linked N (Suc n) t u fl bl \<longleftrightarrow>
     (\<forall>pt. length pt \<le> 1100 \<longrightarrow> (\<exists>ct t'. ts_write N t pt MAX_DATAGRAM = (Inr ct, t') \<and> length ct \<le> length pt + 16 \<and>
        linked N n t' u (fl @ [(ct, pt)]) bl)) \<and>
     (\<forall>pt. length pt \<le> 1100 \<longrightarrow> (\<exists>ct u'. ts_write N u pt MAX_DATAGRAM = (Inr ct, u') \<and> length ct \<le> length pt + 16 \<and>
        linked N n t u' fl (bl @ [(ct, pt)]))) \<and>
     (\<forall>ct pt fl'. fl = (ct, pt) # fl' \<longrightarrow> (\<exists>u'. ts_read N u ct (length ct) = (Inr pt, u') \<and> linked N n t u' fl' bl)) \<and>
     (\<forall>ct pt bl'. bl = (ct, pt) # bl' \<longrightarrow> (\<exists>t'. ts_read N t ct (length ct) = (Inr pt, t') \<and> linked N n t' u fl bl'))"

declare linked.simps(2) [simp del]

lemma linked_write:
  "linked N (Suc n) t u fl bl \<Longrightarrow> length pt \<le> 1100 \<Longrightarrow> \<exists>ct t'. ts_write N t pt MAX_DATAGRAM = (Inr ct, t') \<and>
     length ct \<le> length pt + 16 \<and> linked N n t' u (fl @ [(ct, pt)]) bl"
  unfolding linked.simps by blast

lemma linked_read:
  "linked N (Suc n) t u ((ct, pt) # fl) bl \<Longrightarrow> \<exists>u'. ts_read N u ct (length ct) = (Inr pt, u') \<and> linked N n t u' fl bl"
  unfolding linked.simps by blast

lemma linked_write_back:
  "linked N (Suc n) t u fl bl \<Longrightarrow> length pt \<le> 1100 \<Longrightarrow> \<exists>ct u'. ts_write N u pt MAX_DATAGRAM = (Inr ct, u') \<and>
     length ct \<le> length pt + 16 \<and> linked N n t u' fl (bl @ [(ct, pt)])"
  unfolding linked.simps by blast

lemma linked_read_back:
  "linked N (Suc n) t u fl ((ct, pt) # bl) \<Longrightarrow> \<exists>t'. ts_read N t ct (length ct) = (Inr pt, t') \<and> linked N n t' u fl bl"
  unfolding linked.simps by blast

lemma linked_swap: "linked N n t u fl bl \<Longrightarrow> linked N n u t bl fl"
proof (induction n arbitrary: t u fl bl)
  case (Suc n)
  show ?case unfolding linked.simps
    by (intro conjI allI impI; insert Suc.prems [unfolded linked.simps], elim conjE, blast intro: Suc.IH)
qed simp

lemma linked_writes:
  assumes "linked N (length ps + n) t u fl bl" and "\<forall>p \<in> set ps. length p \<le> 1100"
  shows "\<exists>cs t'. writes N t ps cs t' \<and> length cs = length ps \<and> linked N n t' u (fl @ zip cs ps) bl \<and> (\<forall>c \<in> set cs. length c \<le> 1192)"
  using assms
proof (induction ps arbitrary: t fl)
  case Nil
  then show ?case by (intro exI [of _ "[]"] exI [of _ t]) simp
next
  case (Cons p ps)
  from Cons.prems obtain c t1 where c: "ts_write N t p MAX_DATAGRAM = (Inr c, t1)" "length c \<le> length p + 16"
    "linked N (length ps + n) t1 u (fl @ [(c, p)]) bl"
    using linked_write [of N "length ps + n" t u fl bl p] by auto
  obtain cs t' where "writes N t1 ps cs t'" "length cs = length ps" "linked N n t' u ((fl @ [(c, p)]) @ zip cs ps) bl"
    "\<forall>c \<in> set cs. length c \<le> 1192"
    using Cons.IH [OF c(3)] Cons.prems(2) by auto
  then show ?case using c Cons.prems(2) by (intro exI [of _ "c # cs"] exI [of _ t']) auto
qed

section \<open>The dialogue of one message\<close>

text \<open>
  Frames \<open>fr\<close> one way and acknowledgements \<open>ak\<close> the other, from the point where \<open>k\<close> frames are acknowledged, \<open>h\<close>
  sent and the ciphertexts \<open>fl\<close> under way: the sender fills its window, the receiver reads the next frame and answers, the sender
  reads the answer.  Results are the ciphertexts written from here on and the two final transports.
\<close>

inductive dialogue ::
  "('np, 'hs, 'ts) snow \<Rightarrow> bytes list \<Rightarrow> bytes list \<Rightarrow> nat \<Rightarrow> nat \<Rightarrow> bytes list \<Rightarrow> 'ts \<Rightarrow> 'ts \<Rightarrow> bytes list \<Rightarrow> bytes list \<Rightarrow> 'ts \<Rightarrow> 'ts \<Rightarrow> bool"
  for N fr ak where
  over: "dialogue N fr ak (length fr) h [] t u [] [] t u"
| turn: "k < length fr \<Longrightarrow> h' = min (length fr) (k + 32) \<Longrightarrow> writes N t (map ((!) fr) [h..<h']) cs t1 \<Longrightarrow>
     fl @ cs = c # fl' \<Longrightarrow> length c \<le> 1192 \<Longrightarrow> ts_read N u c (length c) = (Inr (fr ! k), u1) \<Longrightarrow>
     ts_write N u1 (ak ! k) MAX_DATAGRAM = (Inr ca, u2) \<Longrightarrow> length ca \<le> 1192 \<Longrightarrow>
     ts_read N t1 ca (length ca) = (Inr (ak ! k), t2) \<Longrightarrow>
     dialogue N fr ak (Suc k) h' fl' t2 u2 outs acks te ue \<Longrightarrow>
     dialogue N fr ak k h fl t u (cs @ outs) (ca # acks) te ue"

lemma dialogue_lengths:
  "dialogue N fr ak k h fl t u cs acks te ue \<Longrightarrow> length fl + length cs = length fr - k \<and> length acks = length fr - k"
proof (induction rule: dialogue.induct)
  case (turn k h' t h cs t1 fl ct fl' u u1 ca u2 t2 outs acks te ue)
  from turn.hyps(4) have "length fl + length cs = Suc (length fl')" by (metis length_Cons length_append)
  then show ?case using turn.IH turn.hyps(1) by auto
qed simp

lemma linked_dialogue:
  assumes "linked N (length fr - h + 3 * (length fr - k) + n) t u (zip cts (map ((!) fr) [k..<h])) []"
    and "k \<le> h" and "h \<le> min (length fr) (k + 32)" and "length cts = h - k" and "\<forall>c \<in> set cts. length c \<le> 1192"
    and "\<forall>p \<in> set fr. length p \<le> 1100" and "\<forall>p \<in> set ak. length p \<le> 1100" and "length ak = length fr"
  shows "\<exists>outs acks te ue. dialogue N fr ak k h cts t u outs acks te ue \<and> linked N n te ue [] []"
  using assms(1-5)
proof (induction "length fr - k" arbitrary: k h cts t u)
  case 0
  then have "k = length fr" "h = k" "cts = []" by auto
  then show ?case using 0 over [of N fr ak h t u] by auto
next
  case (Suc l)
  define h' where "h' = min (length fr) (k + 32)"
  have k: "k < length fr" "k < h'" "h \<le> h'" "h' \<le> length fr" using Suc.hyps(2) Suc.prems(3) by (auto simp: h'_def)
  let ?ps = "map ((!) fr) [h..<h']"
  let ?n = "length fr - h' + 3 * (length fr - Suc k) + n"
  have eq: "length fr - h + 3 * (length fr - k) + n = length ?ps + Suc (Suc (Suc ?n))" using k by simp
  have "\<forall>p \<in> set ?ps. length p \<le> 1100" using assms(6) k(4) by auto
  then obtain cs t1 where w: "writes N t ?ps cs t1" "length cs = h' - h" "\<forall>c \<in> set cs. length c \<le> 1192"
    and l1: "linked N (Suc (Suc (Suc ?n))) t1 u (zip cts (map ((!) fr) [k..<h]) @ zip cs ?ps) []"
    using linked_writes [OF Suc.prems(1) [unfolded eq]] by auto
  have "[k..<h'] = [k..<h] @ [h..<h']" using Suc.prems(2) k(3) by (metis le_add_diff_inverse upt_add_eq_append)
  then have z: "zip cts (map ((!) fr) [k..<h]) @ zip cs ?ps = zip (cts @ cs) (map ((!) fr) [k..<h'])"
    using Suc.prems(4) by simp
  have "length (cts @ cs) = Suc (h' - Suc k)" using Suc.prems(2,4) w(2) k by simp
  then obtain c fl' where c: "cts @ cs = c # fl'" "length fl' = h' - Suc k" by (metis length_Suc_conv)
  have up: "[k..<h'] = k # [Suc k..<h']" using k(2) by (simp add: upt_conv_Cons)
  have l2: "linked N (Suc (Suc (Suc ?n))) t1 u ((c, fr ! k) # zip fl' (map ((!) fr) [Suc k..<h'])) []"
    using l1 unfolding z c(1) up by simp
  then obtain u1 where u1: "ts_read N u c (length c) = (Inr (fr ! k), u1)"
    "linked N (Suc (Suc ?n)) t1 u1 (zip fl' (map ((!) fr) [Suc k..<h'])) []"
    using linked_read [OF l2] by blast
  have ak: "length (ak ! k) \<le> 1100" using assms(7,8) k(1) by auto
  from linked_write_back [OF u1(2) ak] ak obtain ca u2 where u2: "ts_write N u1 (ak ! k) MAX_DATAGRAM = (Inr ca, u2)" "length ca \<le> 1192"
    "linked N (Suc ?n) t1 u2 (zip fl' (map ((!) fr) [Suc k..<h'])) [(ca, ak ! k)]"
    by auto
  then obtain t2 where t2: "ts_read N t1 ca (length ca) = (Inr (ak ! k), t2)"
    "linked N ?n t2 u2 (zip fl' (map ((!) fr) [Suc k..<h'])) []"
    using linked_read_back [OF u2(3)] by blast
  have "l = length fr - Suc k" "Suc k \<le> h'" "h' \<le> min (length fr) (Suc k + 32)" using Suc.hyps(2) k by (auto simp: h'_def)
  moreover have "\<forall>c \<in> set (c # fl'). length c \<le> 1192" using Suc.prems(5) w(3) c(1) by (metis UnE set_append)
  ultimately obtain outs acks te ue where "dialogue N fr ak (Suc k) h' fl' t2 u2 outs acks te ue" "linked N n te ue [] []"
    using Suc.hyps(1) [of "Suc k" h' t2 u2 fl'] t2(2) c(2) by auto
  then show ?case
    using turn [OF k(1) h'_def w(1) c(1) _ u1(1) u2(1,2) t2(1)] \<open>\<forall>c \<in> set (c # fl'). length c \<le> 1192\<close> by fastforce
qed

section \<open>The two waiting loops\<close>

lemma flush_nothing:
  assumes "unacked a = []"
  shows "flush E (talk p c t a) w = Some (Inr (), talk p c t a, tick w)"
proof -
  have "take_new_sends a now = Some ([], a)" "take_retransmits a now = Some (Inr [], a)" for now
    using assms by (cases a; simp add: take_new_sends_def take_retransmits_def)+
  then show ?thesis by (simp add: flush_def now_after)
qed

lemma before_wait_talk:
  "flush E (talk p c t a) w = Some (Inr (), talk p c t' a', w') \<Longrightarrow> before_wait E (talk p c t a) w = Some (Inr (), talk p c t' a', w')"
  by (simp add: before_wait_def)

text \<open>The first flush, and the later ones while all sent frames are recent.\<close>

lemma flush_sender_at:
  assumes "no_wrap a m" and "k \<le> h" and "h \<le> min (nfr m) (k + 32)" and "0 < retx a"
    and "\<forall>i < h. clock_at w (clock_no w) - tm i < retx a" and "\<forall>i. send_at w i = None \<and> opt_at w i = None"
    and "writes (e_snow E) t (map (frame a m) [h..<min (nfr m) (k + 32)]) cs t'"
  shows "\<exists>w'. flush E (talk p c t (sender_at a m tm k h)) w = Some (Inr (), talk p c t'
      (sender_at a m (\<lambda>i. if i < h then tm i else clock_at w (clock_no w)) k (min (nfr m) (k + 32))), w') \<and> moves w 0 1 (wires cs p) w'"
proof -
  let ?now = "clock_at w (clock_no w)"
  let ?s = "sender_at a m (\<lambda>i. if i < h then tm i else ?now) k (min (nfr m) (k + 32))"
  have "\<forall>i. send_at (tick w) i = None \<and> opt_at (tick w) i = None" using assms(6) by (simp add: tick_def)
  from seal_all_talk [OF assms(7) this] obtain w' where w': "seal_all E (map (frame a m) [h..<min (nfr m) (k + 32)]) (talk p c t ?s) (tick w) =
      (Inr (), talk p c t' ?s, w')" "moves (tick w) 0 0 (wires cs p) w'"
    by blast
  have "take_retransmits ?s ?now = Some (Inr [], ?s)" using assms(1,4,5) by (intro retransmits_sender_at) auto
  then show ?thesis
    using w' new_sends_sender_at [OF assms(1-3)] moves_trans [OF moves_tick w'(2)] by (simp add: flush_def now_after)
qed

lemma sender_run:
  assumes "dialogue (e_snow E) fr ak k h fl t u cs acks te ue"
    and fr: "fr = map (frame a m) [0..<nfr m]" "ak = map (frame_ack a) [0..<nfr m]"
    and a: "idle a" "no_wrap a m" "nfr m \<le> 255"
    and "k \<le> h" and "h \<le> min (nfr m) (k + 32)" and "arriving w (map sealed acks) p" and "\<forall>i. send_at w i = None \<and> opt_at w i = None"
    and "clock_no w + 2 * (nfr m - k) \<le> C" and "\<forall>j < C. clock_at w j < D"
    and "k < nfr m \<longrightarrow> h = 0 \<or> (\<forall>i < h. \<exists>j < C. tm i = clock_at w j) \<and> 1 < nfr m"
    and "1 < nfr m \<longrightarrow> (\<forall>j < C. \<forall>l < C. clock_at w j - clock_at w l < retx a)"
  shows "\<exists>w'. wait_loop E D (talk p c t (sender_at a m tm k h)) w = Some (Inr (), talk p c te (sent_msg a m), w') \<and>
    moves w (nfr m - k) (2 * (nfr m - k) + 1) (wires cs p) w'"
  using assms(1,7-)
proof (induction k h fl t u cs acks te ue arbitrary: w tm rule: dialogue.induct)
  case (over h t u)
  have "unacked_len (sent_msg a m) = 0" "unacked (sent_msg a m) = []" using a(1) by (simp_all add: unacked_len_def idle_def sent_msg_def)
  then show ?case
    using a(1) moves_tick [of w] unfolding wait_loop_unfold [of _ _ "talk p c t _"]
    by (simp add: fr(1) sender_at_end before_wait_talk [OF flush_nothing])
next
  case (turn k h' t h cs t1 fl ct fl' u u1 ca u2 t2 outs acks te ue)
  let ?now = "clock_at w (clock_no w)"
  let ?tm = "\<lambda>i. if i < h then tm i else ?now"
  have n: "k < nfr m" "h' = min (nfr m) (k + 32)" "ak ! k = frame_ack a k"
    using turn.hyps(1,2) by (simp_all add: fr)
  have C: "clock_no w + 1 < C" using turn.prems(5) n(1) by simp
  have "map ((!) fr) [h..<h'] = map (frame a m) [h..<h']" unfolding fr(1) n(2) by (rule map_cong) auto
  then have ws: "writes (e_snow E) t (map (frame a m) [h..<min (nfr m) (k + 32)]) cs t1" 
    using turn.hyps(3) unfolding n(2) [symmetric] by (simp only:)
  have recent: "\<forall>i < h. ?now - tm i < retx a" using turn.prems(7,8) C n(1) by fastforce
  obtain w1 where w1: "before_wait E (talk p c t (sender_at a m tm k h)) w = Some (Inr (), talk p c t1 (sender_at a m ?tm k h'), w1)"
    "moves w 0 1 (wires cs p) w1"
    using flush_sender_at [OF a(2) turn.prems(1,2) _ recent turn.prems(4) ws, of p c] a(1) before_wait_talk
    by (fastforce simp: idle_def n(2))
  have m1: "moves w 0 2 (wires cs p) (tick w1)" using moves_trans [OF w1(2) moves_tick] by (simp add: numeral_2_eq_2)
  have m2: "moves w 1 2 (wires cs p) (took (tick w1))" using moves_trans [OF m1 moves_took] by simp
  have "recv_at (tick w1) (recv_no (tick w1)) = Inr (sealed ca, p)"
    using arriving_Cons [of w "sealed ca" "map sealed acks" p] turn.prems(3) m1 by (simp add: moves_def)
  moreover have opt: "opt_at (tick w1) (clock_no (tick w1)) = None" using turn.prems(4) m1 by (simp add: moves_def)
  ultimately have pu: "pump E d (talk p c t1 (sender_at a m ?tm k h')) (tick w1) =
      (Inr (), talk p c t2 (sender_at a m ?tm (Suc k) h'), took (tick w1))" if "0 < d" for d
    using pump_talk [OF _ turn.hyps(8) that _ turn.hyps(9), of "tick w1" p c] n opt ingest_ack_sender_at [OF n(1) a(3)]
    by (simp add: ingest_reply_def)
  have "clock_at w1 (clock_no w1) < D" using w1(2) C turn.prems(6) by (simp add: moves_def)
  then have eq: "wait_loop E D (talk p c t (sender_at a m tm k h)) w = wait_loop E D (talk p c t2 (sender_at a m ?tm (Suc k) h')) (took (tick w1))"
    using n(1) unfolding wait_loop_unfold [of _ _ "talk p c t _"] w1(1)
    by (simp add: unacked_len_def tick_fold pu from_millis_def)
  have st: "\<exists>j < C. ?tm i = clock_at w j" for i
    using turn.prems(7) n(1) C by (cases "i < h") (auto intro: exI [of _ "clock_no w"])
  obtain w' where "wait_loop E D (talk p c t2 (sender_at a m ?tm (Suc k) h')) (took (tick w1)) =
      Some (Inr (), talk p c te (sent_msg a m), w')" "moves (took (tick w1)) (nfr m - Suc k) (2 * (nfr m - Suc k) + 1) (wires outs p) w'"
  proof (atomize_elim, rule turn.IH)
    show "arriving (took (tick w1)) (map sealed acks) p" using turn.prems(3) m2 by (auto intro: arriving_tl)
    show "Suc k < nfr m \<longrightarrow> h' = 0 \<or> (\<forall>i < h'. \<exists>j < C. ?tm i = clock_at (took (tick w1)) j) \<and> 1 < nfr m"
      using st m2 by (simp add: moves_def)
  qed (use turn.prems n m2 in \<open>auto simp: moves_def\<close>)
  then show ?case using eq moves_turn [OF m2 _ n(1), of 1] by auto
qed

text \<open>The receiver with \<open>k\<close> frames, the last one included.\<close>

definition receiver_got :: "arq \<Rightarrow> arq \<Rightarrow> bytes \<Rightarrow> nat \<Rightarrow> arq" where
  "receiver_got a b m k = (if k = nfr m then (received_msg b m)\<lparr>delivered := [m]\<rparr> else receiver_at a b m k)"

lemma receiver_run:
  assumes "dialogue (e_snow E) fr ak k h fl t u cs acks te ue"
    and fr: "fr = map (frame a m) [0..<nfr m]" "ak = map (frame_ack a) [0..<nfr m]"
    and ab: "in_tune a b" "nfr m \<le> 255"
    and "arriving w (map sealed (fl @ cs)) q" and "\<forall>i. send_at w i = None \<and> opt_at w i = None"
    and "clock_no w + 2 * (nfr m - k) \<le> C" and "\<forall>j < C. clock_at w j < D"
  shows "\<exists>w'. recv_loop E D (talk q c u (receiver_got a b m k)) w = Some (Inr m, talk q c ue (received_msg b m), w') \<and>
    moves w (nfr m - k) (2 * (nfr m - k)) (wires acks q) w'"
  using assms(1,6-)
proof (induction k h fl t u cs acks te ue arbitrary: w rule: dialogue.induct)
  case (over h t u)
  have "(received_msg b m)\<lparr>delivered := []\<rparr> = received_msg b m" using ab(1) by (simp add: received_msg_def in_tune_def idle_def)
  then show ?case
    using moves_refl [of w] unfolding recv_loop_unfold [of _ _ "talk q c u _"]
    by (simp add: fr(1) receiver_got_def pop_delivered_def)
next
  case (turn k h' t h cs t1 fl ct fl' u u1 ca u2 t2 outs acks te ue)
  let ?r = "receiver_at a b m k"
  have n: "k < nfr m" "fr ! k = frame a m k" "ak ! k = frame_ack a k" using turn.hyps(1) by (simp_all add: fr)
  have r: "receiver_got a b m k = ?r" "unacked ?r = []" "pop_delivered ?r = (None, ?r)"
    using n(1) ab(1) idle_receiver_at [of b a m k] by (simp_all add: receiver_got_def in_tune_def pop_delivered_def)
  have C: "clock_no w + 1 < C" using turn.prems(3) n(1) by simp
  have m1: "moves w 0 2 [] (tick (tick w))" using moves_trans [OF moves_tick moves_tick] by (simp add: numeral_2_eq_2)
  have m2: "moves w 1 2 [] (took (tick (tick w)))" using moves_trans [OF m1 moves_took] by simp
  have "map sealed (fl @ cs @ outs) = sealed ct # map sealed (fl' @ outs)"
    using turn.hyps(4) by (metis append.assoc append_Cons list.simps(9))
  with turn.prems(1) have arr: "arriving w (sealed ct # map sealed (fl' @ outs)) q" by (simp only:)
  have first: "recv_at (tick (tick w)) (recv_no (tick (tick w))) = Inr (sealed ct, q)"
    using arriving_Cons [OF arr] m1 by (simp add: moves_def)
  have opt: "opt_at (tick (tick w)) (clock_no (tick (tick w))) = None" using turn.prems(2) m1 by (simp add: moves_def)
  have "\<forall>i. send_at (took (tick (tick w))) i = None \<and> opt_at (took (tick (tick w))) i = None" using turn.prems(2) m2 by (simp add: moves_def)
  from seal_talk [OF turn.hyps(7,8) this] obtain w4 where
    w4: "seal_and_send E (frame_ack a k) (talk q c u1 (receiver_got a b m (Suc k))) (took (tick (tick w))) =
      (Inr (), talk q c u2 (receiver_got a b m (Suc k)), w4)" "moves (took (tick (tick w))) 0 0 (wires [ca] q) w4"
    unfolding n(3) by blast
  have m4: "moves w 1 2 (wires [ca] q) w4" using moves_trans [OF m2 w4(2)] by simp
  have pu: "pump E d (talk q c u ?r) (tick (tick w)) = (Inr (), talk q c u2 (receiver_got a b m (Suc k)), w4)" if "0 < d" for d
    using pump_talk [OF first turn.hyps(5) that opt turn.hyps(6)] ingest_frame [OF ab(1) n(1) ab(2)] w4(1)
    by (simp add: ingest_reply_def n(2) receiver_got_def split: if_splits)
  have "clock_at (tick w) (clock_no (tick w)) < D" using C turn.prems(4) by (simp add: tick_def)
  then have eq: "recv_loop E D (talk q c u ?r) w = recv_loop E D (talk q c u2 (receiver_got a b m (Suc k))) w4"
    unfolding recv_loop_unfold [of _ _ "talk q c u _"] talk_simps r(3) before_wait_talk [OF flush_nothing [OF r(2)]] prod.case option.case
    by (simp add: tick_fold pu)
  obtain w' where "recv_loop E D (talk q c u2 (receiver_got a b m (Suc k))) w4 = Some (Inr m, talk q c ue (received_msg b m), w')"
    "moves w4 (nfr m - Suc k) (2 * (nfr m - Suc k) + 0) (wires acks q) w'"
  proof (atomize_elim, unfold add_0_right, rule turn.IH)
    show "arriving w4 (map sealed (fl' @ outs)) q" using arriving_tl [OF arr] m4 by simp
  qed (use turn.prems m4 n(1) in \<open>auto simp: moves_def\<close>)
  then show ?case using eq r(1) moves_turn [OF m4 _ n(1), of 0] by auto
qed

section \<open>One message\<close>

text \<open>
  The two calls, each over any world that has the other's datagrams to offer.  The sender makes \<open>2 * nfr m + 2\<close> readings of
  the clock, the receiver \<open>2 * nfr m + 1\<close>; the last of the sender's does not matter.
\<close>

definition sends :: "('np, 'hs, 'ts, 'sk, 'pk) env \<Rightarrow> socket_addr \<Rightarrow> 'ts \<Rightarrow> arq \<Rightarrow> bytes \<Rightarrow> bytes list \<Rightarrow> bytes list \<Rightarrow> 'ts \<Rightarrow> arq \<Rightarrow> bool" where
  "sends E p t a m cs acks t' a' \<longleftrightarrow> (\<forall>w T c. calm (clock_no w + 2 * nfr m + 1) T w \<and>
     (1 < nfr m \<longrightarrow> calm (clock_no w + 2 * nfr m + 1) (retx a) w) \<and> arriving w (map sealed acks) p \<longrightarrow>
     (\<exists>w'. send_timeout E m T (talk p c t a) w = Some (Inr (), talk p c t' a', w') \<and>
       moves w (nfr m) (2 * nfr m + 2) (wires cs p) w'))"

definition receives :: "('np, 'hs, 'ts, 'sk, 'pk) env \<Rightarrow> socket_addr \<Rightarrow> 'ts \<Rightarrow> arq \<Rightarrow> bytes \<Rightarrow> bytes list \<Rightarrow> bytes list \<Rightarrow> 'ts \<Rightarrow> arq \<Rightarrow> bool" where
  "receives E q u b m cs acks u' b' \<longleftrightarrow> (\<forall>w T c. calm (clock_no w + 2 * nfr m + 1) T w \<and> arriving w (map sealed cs) q \<longrightarrow>
     (\<exists>w'. session_recv E T (talk q c u b) w = Some (Inr m, talk q c u' b', w') \<and>
       moves w (nfr m) (2 * nfr m + 1) (wires acks q) w'))"

lemma calm_less: "calm C d w \<Longrightarrow> j < C \<Longrightarrow> l < C \<Longrightarrow> clock_at w j < clock_at w l + d"
  by (simp add: calm_def)

lemma dialogue_sends:
  assumes d: "dialogue (e_snow E) (map (frame a m) [0..<nfr m]) (map (frame_ack a) [0..<nfr m]) 0 0 [] t u cs acks t' u'"
    and a: "idle a" "no_wrap a m" "nfr m \<le> 255"
  shows "sends E p t a m cs acks t' (sent_msg a m)"
proof (unfold sends_def, intro allI impI, elim conjE)
  fix w :: world and T c
  let ?C = "clock_no w + 2 * nfr m + 1" and ?w = "tick w" and ?D = "clock_at w (clock_no w) + T"
  assume calm: "calm ?C T w" "1 < nfr m \<longrightarrow> calm ?C (retx a) w" and arr: "arriving w (map sealed acks) p"
  have spread: "1 < nfr m \<longrightarrow> (\<forall>j < ?C. \<forall>l < ?C. clock_at ?w j - clock_at ?w l < retx a)"
  proof (intro impI allI)
    fix j l assume "1 < nfr m" "j < ?C" "l < ?C"
    then have "clock_at w j < clock_at w l + retx a" using calm(2) calm_less by blast
    then show "clock_at ?w j - clock_at ?w l < retx a" using a(1) by (simp add: tick_def idle_def) linarith
  qed
  have "arriving ?w (map sealed acks) p" "\<forall>i. send_at ?w i = None \<and> opt_at ?w i = None" "clock_no ?w + 2 * (nfr m - 0) \<le> ?C"
    "\<forall>j < ?C. clock_at ?w j < ?D"
    using arr calm(1) by (auto simp: tick_def arriving_def calm_def)
  from sender_run [OF d refl refl a _ _ this _ spread] obtain w' where
    w': "wait_loop E ?D (talk p c t (sender_at a m (\<lambda>_. 0) 0 0)) ?w = Some (Inr (), talk p c t' (sent_msg a m), w')"
    "moves ?w (nfr m) (2 * nfr m + 1) (wires cs p) w'"
    by fastforce
  then show "\<exists>w'. send_timeout E m T (talk p c t a) w = Some (Inr (), talk p c t' (sent_msg a m), w') \<and>
      moves w (nfr m) (2 * nfr m + 2) (wires cs p) w'"
    using moves_trans [OF moves_tick w'(2)] by (auto simp: send_timeout_def enqueue_sender_at [OF a, of "\<lambda>_. 0"] wait_acked_def now_after)
qed

lemma dialogue_receives:
  assumes d: "dialogue (e_snow E) (map (frame a m) [0..<nfr m]) (map (frame_ack a) [0..<nfr m]) 0 0 [] t u cs acks t' u'"
    and "in_tune a b" and "nfr m \<le> 255"
  shows "receives E q u b m cs acks u' (received_msg b m)"
proof (unfold receives_def, intro allI impI, elim conjE)
  fix w :: world and T c
  let ?C = "clock_no w + 2 * nfr m + 1" and ?w = "tick w" and ?D = "clock_at w (clock_no w) + T"
  assume calm: "calm ?C T w" and arr: "arriving w (map sealed cs) q"
  have "arriving ?w (map sealed ([] @ cs)) q" "\<forall>i. send_at ?w i = None \<and> opt_at ?w i = None" "clock_no ?w + 2 * (nfr m - 0) \<le> ?C"
    "\<forall>j < ?C. clock_at ?w j < ?D"
    using arr calm by (auto simp: tick_def arriving_def calm_def)
  from receiver_run [OF d refl refl assms(2,3) this] obtain w' where
    "recv_loop E ?D (talk q c u (receiver_got a b m 0)) ?w = Some (Inr m, talk q c u' (received_msg b m), w')"
    "moves ?w (nfr m) (2 * nfr m) (wires acks q) w'"
    by fastforce
  moreover have "receiver_got a b m 0 = b" using assms(2) nfr_pos [of m] by (simp add: receiver_got_def in_tune_def receiver_at_0)
  ultimately show "\<exists>w'. session_recv E T (talk q c u b) w = Some (Inr m, talk q c u' (received_msg b m), w') \<and>
      moves w (nfr m) (2 * nfr m + 1) (wires acks q) w'"
    using moves_trans [OF moves_tick] by (fastforce simp: session_recv_def now_after)
qed

lemma nfr_le: "length m \<le> 255 * MAX_PAYLOAD \<Longrightarrow> nfr m \<le> 255"
  by (simp add: pieces_def length_chunks_le_iff)

lemma frame_lengths:
  "i < nfr m \<Longrightarrow> length (frame a m i) \<le> 1100" "length (frame_ack a i) \<le> 1100"
proof -
  have "length (pieces m ! i) \<le> MAX_PAYLOAD" if "i < nfr m"
    using chunk_sizes [of MAX_PAYLOAD "pieces m ! i" m] that by (auto simp: pieces_def split: if_splits)
  then show "i < nfr m \<Longrightarrow> length (frame a m i) \<le> 1100" by (simp add: frame_def DATA_HDR_LEN_def MAX_PAYLOAD_def)
qed (simp add: frame_ack_def ACK_LEN_def)

lemma message_transfer:
  assumes "linked (e_snow E) (4 * nfr m + n) t u [] []" and "in_tune a b" and "no_wrap a m" and "length m \<le> 255 * MAX_PAYLOAD"
  obtains cs acks t' u' where "sends E p t a m cs acks t' (sent_msg a m)" "receives E q u b m cs acks u' (received_msg b m)"
    "linked (e_snow E) n t' u' [] []" "length cs = nfr m" "length acks = nfr m"
proof -
  let ?fr = "map (frame a m) [0..<nfr m]" and ?ak = "map (frame_ack a) [0..<nfr m]"
  have "linked (e_snow E) (length ?fr - 0 + 3 * (length ?fr - 0) + n) t u (zip [] (map ((!) ?fr) [0..<0])) []"
    using assms(1) by (simp add: numeral_eq_Suc add.assoc)
  then have "\<exists>cs acks t' u'. dialogue (e_snow E) ?fr ?ak 0 0 [] t u cs acks t' u' \<and> linked (e_snow E) n t' u' [] []"
    by (rule linked_dialogue) (auto simp: frame_lengths)
  then obtain cs acks t' u' where d: "dialogue (e_snow E) ?fr ?ak 0 0 [] t u cs acks t' u'" "linked (e_snow E) n t' u' [] []" by blast
  show thesis
  proof (rule that)
    show "sends E p t a m cs acks t' (sent_msg a m)"
      using dialogue_sends [OF d(1) _ assms(3) nfr_le [OF assms(4)]] assms(2) by (simp add: in_tune_def)
    show "receives E q u b m cs acks u' (received_msg b m)" by (rule dialogue_receives [OF d(1) assms(2) nfr_le [OF assms(4)]])
  qed (use d dialogue_lengths [OF d(1)] in simp_all)
qed

section \<open>An instance\<close>

text \<open>In the model library a ciphertext is its plaintext behind the nonce.\<close>

fun numbered :: "nat \<Rightarrow> (bytes \<times> bytes) list \<Rightarrow> bool" where
  "numbered n [] \<longleftrightarrow> True"
| "numbered n ((c, p) # fl) \<longleftrightarrow> c = model_nonce n @ p \<and> numbered (Suc n) fl"

lemma numbered_snoc: "numbered n (fl @ [(c, p)]) \<longleftrightarrow> numbered n fl \<and> c = model_nonce (n + length fl) @ p"
  by (induction n fl rule: numbered.induct) auto

lemma model_linked:
  assumes "numbered (mt_rn u) fl" and "mt_sn t = mt_rn u + length fl" and "numbered (mt_rn t) bl" and "mt_sn u = mt_rn t + length bl"
    and "mt_sn t + n < 2 ^ 64 - 1" and "mt_sn u + n < 2 ^ 64 - 1"
  shows "linked model_snow n t u fl bl"
  using assms
proof (induction n arbitrary: t u fl bl)
  case (Suc n)
  have w: "ts_write model_snow v pt MAX_DATAGRAM = (Inr (model_nonce (mt_sn v) @ pt), v\<lparr>mt_sn := Suc (mt_sn v)\<rparr>)"
    if "length pt \<le> 1100" "mt_sn v + Suc n < 2 ^ 64 - 1" for v pt
    using that by (simp add: model_snow_def const_defs)
  have r: "ts_read model_snow v (model_nonce (mt_rn v) @ pt) k = (Inr pt, v\<lparr>mt_rn := Suc (mt_rn v)\<rparr>)"
    if "mt_rn v < 2 ^ 64 - 1" "length pt \<le> k" for v pt k
    using that by (simp add: model_snow_def)
  show ?case
    unfolding linked.simps
  proof (intro conjI allI impI, goal_cases)
    case (1 pt)
    show ?case unfolding w [OF 1 Suc.prems(5)] using Suc.prems by (auto simp: numbered_snoc intro!: Suc.IH)
  next
    case (2 pt)
    show ?case unfolding w [OF 2 Suc.prems(6)] using Suc.prems by (auto simp: numbered_snoc intro!: Suc.IH)
  next
    case (3 ct pt fl')
    then have "ct = model_nonce (mt_rn u) @ pt" "mt_rn u < 2 ^ 64 - 1" using Suc.prems(1,2,5) by auto
    then show ?case using r [of u pt "length ct"] 3 Suc.prems by (auto intro!: Suc.IH)
  next
    case (4 ct pt bl')
    then have "ct = model_nonce (mt_rn t) @ pt" "mt_rn t < 2 ^ 64 - 1" using Suc.prems(3,4,6) by auto
    then show ?case using r [of t pt "length ct"] 4 Suc.prems by (auto intro!: Suc.IH)
  qed
qed simp

end
