(* ===== verification/Ppose_Cli_Talk.thy ===== *)
theory Ppose_Cli_Talk
  imports Ppose_Cli_Run Ppose_Conversation
begin

text \<open>
  The commands \<open>listen\<close> and \<open>connect\<close> in conversation: with each other, over a network that
  delivers in order, both hold the whole exchange and print what the other has sent.
\<close>

section \<open>Steps of a command\<close>

lemma cmd_on_world:
  "f (pr_world p) = (Inr a, w) \<Longrightarrow> cmd_bind (on_world conv f) g p = g a (p\<lparr>pr_world := w\<rparr>)"
  by (simp add: cmd_bind_def on_world_def)

lemma cmd_on_session:
  "f (pr_world p) = Some (Inr a, s, w) \<Longrightarrow> cmd_bind (on_session f) g p = g (a, s) (p\<lparr>pr_world := w\<rparr>)"
  by (simp add: cmd_bind_def on_session_def)

abbreviation shake :: "bytes \<Rightarrow> bytes" where
  "shake m \<equiv> encode_outer Handshake 0 @ m"

lemma printed_words: "from_utf8_lossy (string_bytes ''ack'') = ''ack''" "from_utf8_lossy (string_bytes ''hello'') = ''hello''"
  by (simp_all add: from_utf8_lossy_def string_bytes_def utf8_lossy_ascii text_of_def char_of_eq_iff)

lemma words:
  "nfr (string_bytes ''hello'') = 1" "nfr (string_bytes ''ack'') = 1"
  "length (string_bytes ''hello'') \<le> 255 * MAX_PAYLOAD" "length (string_bytes ''ack'') \<le> 255 * MAX_PAYLOAD"
  by (simp_all add: string_bytes_def pieces_def chunks_nonempty MAX_PAYLOAD_def)

text \<open>The conversation: a greeting with its acknowledgement, and the answer with its own.\<close>

lemma two_messages:
  assumes "linked (e_snow E) 8 t u [] []"
  obtains c1 k1 c2 k2 tA tB uA uB aA aB bA bB
  where "sends E p t arq_new (string_bytes ''hello'') [c1] [k1] tA aA" "receives E q u arq_new (string_bytes ''hello'') [c1] [k1] uA bA"
    "sends E q uA bA (string_bytes ''ack'') [c2] [k2] uB bB" "receives E p tA aA (string_bytes ''ack'') [c2] [k2] tB aB"
proof -
  let ?h = "string_bytes ''hello''" and ?a = "string_bytes ''ack''"
  have 8: "linked (e_snow E) (4 * nfr ?h + 4) t u [] []" using assms by (simp add: words)
  have "no_wrap arq_new ?h" by (simp add: no_wrap_def words arq_new_def)
  from message_transfer [OF 8 in_tune_new this words(3)] obtain cs ks tA uA where
    1: "sends E p t arq_new ?h cs ks tA (sent_msg arq_new ?h)" "receives E q u arq_new ?h cs ks uA (received_msg arq_new ?h)"
    "linked (e_snow E) 4 tA uA [] []" "length cs = nfr ?h" "length ks = nfr ?h"
    by metis
  have 4: "linked (e_snow E) (4 * nfr ?a + 0) uA tA [] []" using linked_swap [OF 1(3)] by (simp add: words)
  have "in_tune (received_msg arq_new ?h) (sent_msg arq_new ?h)" using in_tune_msg [OF in_tune_new] in_tune_sym by blast
  moreover have "no_wrap (received_msg arq_new ?h) ?a" by (simp add: no_wrap_def words arq_new_def received_msg_def)
  ultimately obtain cs' ks' tB uB where
    2: "sends E q uA (received_msg arq_new ?h) ?a cs' ks' uB (sent_msg (received_msg arq_new ?h) ?a)"
    "receives E p tA (sent_msg arq_new ?h) ?a cs' ks' tB (received_msg (sent_msg arq_new ?h) ?a)"
    "length cs' = nfr ?a" "length ks' = nfr ?a"
    using message_transfer [OF 4 _ _ words(4)] by metis
  obtain c1 k1 c2 k2 where "cs = [c1]" "ks = [k1]" "cs' = [c2]" "ks' = [k2]"
    using 1(4,5) 2(3,4) by (auto simp: words length_Suc_conv)
  then show thesis using that 1(1,2) 2(1,2) by blast
qed

section \<open>The two ends\<close>

lemma connect_talk:
  assumes "xx_exchange (e_snow E) (e_prims E) ski skr params x" and "xx_msgs x = (m1, m2, m3)" and "calm n d w"
    and "recv_at w (recv_no w) = Inr (shake m2, b)"
  shows "\<exists>w'. connect_initiator E ski (Direct b) w = (Inr (talk b (clock_at w (clock_no w)) (fst (xx_ts x)) arq_new), w') \<and>
    moves w 1 1 [(shake m1, b), (shake m3, b)] w'"
  using xx_initiator [OF assms(1,2), of None w b] assms(3,4)
  by (simp add: connect_initiator_def calm_def expects_def talk_def moves_def)

lemma accept_talk:
  assumes "xx_exchange (e_snow E) (e_prims E) ski skr params x" and "xx_msgs x = (m1, m2, m3)" and "calm n d w"
    and "recv_at w (recv_no w) = Inr (shake m1, a)" and "recv_at w (Suc (recv_no w)) = Inr (shake m3, a)"
  shows "\<exists>w'. accept_responder E skr None w = (Inr (talk a (clock_at w (clock_no w)) (snd (xx_ts x)) arq_new), w') \<and>
    moves w 2 1 [(shake m2, a)] w'"
  using xx_responder [OF assms(1,2), of None w a] assms(3-)
  by (simp add: accept_responder_def accept_responder_pinned_def calm_def expects_def talk_def moves_def numeral_2_eq_2)

lemma from_secs_mono: "m \<le> n \<Longrightarrow> from_secs m \<le> from_secs n"
  by (simp add: from_secs_def)

text \<open>One call of the conversation, in a world that is calm up to the reading \<open>n\<close>.\<close>

lemma sends_one:
  assumes "sends E p t a m [ct] [k] t' a'" and "nfr m = 1" and "calm n (from_secs 5) w" and "clock_no w + 3 \<le> n"
    and "recv_at w (recv_no w) = Inr (sealed k, p)"
  shows "\<exists>w'. session_send E m (talk p c t a) w = Some (Inr (), talk p c t' a', w') \<and> moves w 1 4 [(sealed ct, p)] w'"
proof -
  have "calm (clock_no w + 2 * nfr m + 1) (from_secs 5) w" using assms(2-4) by (simp add: calm_def)
  moreover have "arriving w (map sealed [k]) p" using assms(5) by (simp add: arriving_def)
  ultimately show ?thesis using assms(1,2) unfolding sends_def session_send_def by fastforce
qed

lemma receives_one:
  assumes "receives E p t a m [ct] [k] t' a'" and "nfr m = 1" and "calm n (from_secs 5) w" and "clock_no w + 3 \<le> n" and "5 \<le> T"
    and "recv_at w (recv_no w) = Inr (sealed ct, p)"
  shows "\<exists>w'. session_recv E (from_secs T) (talk p c t a) w = Some (Inr m, talk p c t' a', w') \<and> moves w 1 3 [(sealed k, p)] w'"
proof -
  have "calm (clock_no w + 2 * nfr m + 1) (from_secs T) w"
    using calm_mono [OF assms(3) from_secs_mono [OF assms(5)]] assms(2,4) by (simp add: calm_def)
  moreover have "arriving w (map sealed [ct]) p" using assms(6) by (simp add: arriving_def)
  ultimately show ?thesis using assms(1,2) unfolding receives_def by fastforce
qed

section \<open>The commands\<close>

lemma run_peers:
  "run C [''connect'', a] = finishing (cmd_connect C [a])" "run C [''listen'', a] = finishing (cmd_listen C [a])"
  by (simp_all add: run_def next_or_def Let_def)

abbreviation own_identity :: "('np, 'hs, 'ts, 'sk, 'pk) cli_env \<Rightarrow> 'sk identity_secret" where
  "own_identity C \<equiv> identity_generate (c_random C)"

lemma connect_command:
  assumes xx: "xx_exchange (e_snow (c_env C)) (e_prims (c_env C)) (own_identity C) skr params x" "xx_msgs x = (m1, m2, m3)"
    and s: "sends (c_env C) b (fst (xx_ts x)) arq_new (string_bytes ''hello'') [c1] [k1] tA aA"
    and r: "receives (c_env C) b tA aA (string_bytes ''ack'') [c2] [k2] tB aB"
    and "bind_loopback C = Inr la" and "printable b" and calm: "calm (clock_no (pr_world p) + 8) (from_secs 5) (pr_world p)"
    and rc: "arriving (pr_world p) [shake m2, sealed k1, sealed c2] b"
  shows "\<exists>p'. cli_main C [''connect'', show_socket_addr b] p = Some (0, p') \<and>
    sent (pr_world p') = sent (pr_world p) @ [(shake m1, b), (shake m3, b), (sealed c1, b), (sealed k2, b)] \<and>
    pr_out p' = pr_out p @ [Stdout (''local '' @ show_socket_addr la), Stdout ''recv ack'']"
proof -
  let ?w = "pr_world p" and ?E = "c_env C"
  let ?c = "clock_at ?w (clock_no ?w)"
  have at: "recv_at ?w (recv_no ?w) = Inr (shake m2, b)" "recv_at ?w (Suc (recv_no ?w)) = Inr (sealed k1, b)"
    "recv_at ?w (Suc (Suc (recv_no ?w))) = Inr (sealed c2, b)"
    using rc by (auto simp: arriving_def All_less_Suc)
  obtain w1 where 1: "connect_initiator ?E (own_identity C) (Direct b) ?w = (Inr (talk b ?c (fst (xx_ts x)) arq_new), w1)"
    "moves ?w 1 1 [(shake m1, b), (shake m3, b)] w1"
    using connect_talk [OF xx calm at(1)] by blast
  obtain w2 where 2: "session_send ?E (string_bytes ''hello'') (talk b ?c (fst (xx_ts x)) arq_new) w1 = Some (Inr (), talk b ?c tA aA, w2)"
    "moves w1 1 4 [(sealed c1, b)] w2"
    using sends_one [OF s words(1), of "clock_no ?w + 8" w1 ?c] calm at(2) 1(2) calm_moves [OF 1(2)] by (auto simp: moves_def)
  obtain w3 where 3: "session_recv ?E (from_secs 10) (talk b ?c tA aA) w2 = Some (Inr (string_bytes ''ack''), talk b ?c tB aB, w3)"
    "moves w2 1 3 [(sealed k2, b)] w3"
    using receives_one [OF r words(2), of "clock_no ?w + 8" w2 10 ?c] calm at(3) 1(2) 2(2) calm_moves [OF 1(2)] calm_moves [OF 2(2)]
    by (auto simp: moves_def)
  have "\<exists>p'. cmd_connect C [show_socket_addr b] p = Some (Inr (), p') \<and> sent (pr_world p') = sent w3 \<and>
      pr_out p' = pr_out p @ [Stdout (''local '' @ show_socket_addr la), Stdout ''recv ack'']"
    using assms(5,6) 1(1) 2(1) 3(1)
    by (simp add: cmd_connect_def connect_session_def addr_arg_show Let_def cmd_on_world cmd_on_session println_def printed_words)
  then show ?thesis using finishing_main [OF run_peers(1)] 1(2) 2(2) 3(2) by (fastforce simp: moves_def)
qed

lemma listen_command:
  assumes xx: "xx_exchange (e_snow (c_env C)) (e_prims (c_env C)) ski (own_identity C) params x" "xx_msgs x = (m1, m2, m3)"
    and r: "receives (c_env C) a (snd (xx_ts x)) arq_new (string_bytes ''hello'') [c1] [k1] uA bA"
    and s: "sends (c_env C) a uA bA (string_bytes ''ack'') [c2] [k2] uB bB"
    and "c_bind C bnd = Inr ()" and "c_option C bnd = None" and "c_local_addr C bnd = Inr b" and calm: "calm (clock_no (pr_world p) + 8) (from_secs 5) (pr_world p)"
    and rc: "arriving (pr_world p) [shake m1, shake m3, sealed c1, sealed k2] a"
  shows "\<exists>p'. cli_main C [''listen'', bnd] p = Some (0, p') \<and>
    sent (pr_world p') = sent (pr_world p) @ [(shake m2, a), (sealed k1, a), (sealed c2, a)] \<and>
    pr_out p' = pr_out p @ [Stdout (''listen '' @ show_socket_addr b),
      Stdout (''fp '' @ hex (fingerprint (e_prims (c_env C)) (public (e_prims (c_env C)) (own_identity C)))), Stdout ''recv hello'']"
proof -
  let ?w = "pr_world p" and ?E = "c_env C"
  let ?c = "clock_at ?w (clock_no ?w)"
  have at: "recv_at ?w (recv_no ?w) = Inr (shake m1, a)" "recv_at ?w (Suc (recv_no ?w)) = Inr (shake m3, a)"
    "recv_at ?w (Suc (Suc (recv_no ?w))) = Inr (sealed c1, a)" "recv_at ?w (Suc (Suc (Suc (recv_no ?w)))) = Inr (sealed k2, a)"
    using rc by (auto simp: arriving_def All_less_Suc)
  obtain w1 where 1: "accept_responder ?E (own_identity C) None ?w = (Inr (talk a ?c (snd (xx_ts x)) arq_new), w1)"
    "moves ?w 2 1 [(shake m2, a)] w1"
    using accept_talk [OF xx calm at(1,2)] by blast
  obtain w2 where 2: "session_recv ?E (from_secs 30) (talk a ?c (snd (xx_ts x)) arq_new) w1 = Some (Inr (string_bytes ''hello''), talk a ?c uA bA, w2)"
    "moves w1 1 3 [(sealed k1, a)] w2"
    using receives_one [OF r words(1), of "clock_no ?w + 8" w1 30 ?c] calm at(3) 1(2) calm_moves [OF 1(2)] by (auto simp: moves_def)
  obtain w3 where 3: "session_send ?E (string_bytes ''ack'') (talk a ?c uA bA) w2 = Some (Inr (), talk a ?c uB bB, w3)"
    "moves w2 1 4 [(sealed c2, a)] w3"
    using sends_one [OF s words(2), of "clock_no ?w + 8" w2 ?c] calm at(4) 1(2) 2(2) calm_moves [OF 1(2)] calm_moves [OF 2(2)]
    by (auto simp: moves_def)
  have "\<exists>p'. cmd_listen C [bnd] p = Some (Inr (), p') \<and> sent (pr_world p') = sent w3 \<and>
      pr_out p' = pr_out p @ [Stdout (''listen '' @ show_socket_addr b),
        Stdout (''fp '' @ hex (fingerprint (e_prims (c_env C)) (public (e_prims (c_env C)) (own_identity C)))), Stdout ''recv hello'']"
    using assms(5-7) 1(1) 2(1) 3(1)
    by (simp add: cmd_listen_def listen_session_def next_or_def Let_def cmd_on_world cmd_on_session println_def cmd_result_def
        printed_words)
  then show ?thesis using finishing_main [OF run_peers(2)] 1(2) 2(2) 3(2) by (fastforce simp: moves_def)
qed

text \<open>
  Run against the datagrams \<open>ins\<close> from \<open>peer\<close>, over a network that is calm for the eight readings it makes of the clock, the program exits with 0,
  has sent exactly \<open>outs\<close> to \<open>peer\<close> and has printed the lines \<open>ls\<close>.
\<close>

definition exchanges ::
  "('np, 'hs, 'ts, 'sk, 'pk) cli_env \<Rightarrow> string list \<Rightarrow> socket_addr \<Rightarrow> bytes list \<Rightarrow> bytes list \<Rightarrow> string list \<Rightarrow> bool" where
  "exchanges C argv peer ins outs ls \<longleftrightarrow> (\<forall>p. calm (clock_no (pr_world p) + 8) (from_secs 5) (pr_world p) \<and> arriving (pr_world p) ins peer \<longrightarrow>
     (\<exists>p'. cli_main C argv p = Some (0, p') \<and> sent (pr_world p') = sent (pr_world p) @ map (\<lambda>d. (d, peer)) outs \<and>
        pr_out p' = pr_out p @ map Stdout ls))"

section \<open>Properties\<close>

text \<open>
  C8: the two commands hold their conversation.  Let the Noise exchange of their two identities be one that
  works, with transports linked for eight calls.  Then there are datagrams such that \<^verbatim>\<open>connect\<close>, given the
  address the listener printed and receiving the listener's datagrams, sends its own there, prints
  the answer and exits with 0; and \<^verbatim>\<open>listen\<close>, receiving those of \<^verbatim>\<open>connect\<close>, sends the former, prints the greeting and
  exits with 0 as well.  The network only has to deliver in order, with no two of the eight readings of the clock that each program makes
  five seconds apart.
\<close>
theorem commands_converse:
  assumes "c_env B = c_env A" and "xx_exchange (e_snow (c_env A)) (e_prims (c_env A)) (own_identity A) (own_identity B) params x"
    and "linked (e_snow (c_env A)) 8 (fst (xx_ts x)) (snd (xx_ts x)) [] []"
    and "bind_loopback A = Inr la" and "c_bind B bnd = Inr ()" and "c_option B bnd = None" and "c_local_addr B bnd = Inr b" and "printable b"
  shows "\<exists>fromA fromB.
    exchanges A [''connect'', show_socket_addr b] b fromB fromA [''local '' @ show_socket_addr la, ''recv ack''] \<and>
    exchanges B [''listen'', bnd] a fromA fromB [''listen '' @ show_socket_addr b,
      ''fp '' @ hex (fingerprint (e_prims (c_env B)) (public (e_prims (c_env B)) (own_identity B))), ''recv hello'']"
proof -
  obtain m1 m2 m3 where m: "xx_msgs x = (m1, m2, m3)" by (metis prod_cases3)
  obtain c1 k1 c2 k2 tA tB uA uB aA aB bA bB where
    c: "sends (c_env A) b (fst (xx_ts x)) arq_new (string_bytes ''hello'') [c1] [k1] tA aA"
    "receives (c_env A) a (snd (xx_ts x)) arq_new (string_bytes ''hello'') [c1] [k1] uA bA"
    "sends (c_env A) a uA bA (string_bytes ''ack'') [c2] [k2] uB bB" "receives (c_env A) b tA aA (string_bytes ''ack'') [c2] [k2] tB aB"
    using two_messages [OF assms(3)] by metis
  let ?A = "[shake m1, shake m3, sealed c1, sealed k2]" and ?B = "[shake m2, sealed k1, sealed c2]"
  have "exchanges A [''connect'', show_socket_addr b] b ?B ?A [''local '' @ show_socket_addr la, ''recv ack'']"
    unfolding exchanges_def using connect_command [OF assms(2) m c(1,4) assms(4,8)] by simp
  moreover have "exchanges B [''listen'', bnd] a ?A ?B [''listen '' @ show_socket_addr b,
      ''fp '' @ hex (fingerprint (e_prims (c_env B)) (public (e_prims (c_env B)) (own_identity B))), ''recv hello'']"
    unfolding exchanges_def
    using listen_command [OF assms(2) [folded assms(1)] m c(2,3) [folded assms(1)] assms(5-7)] by simp
  ultimately show ?thesis by blast
qed

text \<open>The processes of the witness: a clock that stands still, and the other side's datagrams to receive.\<close>

definition hearing :: "bytes list \<Rightarrow> socket_addr \<Rightarrow> process" where
  "hearing ds from = demo_process\<lparr>pr_world := quiet_world\<lparr>clock_at := \<lambda>_. 0,
     recv_at := \<lambda>i. if i < length ds then Inr (ds ! i, from) else Inl TimedOut\<rparr>\<rparr>"

lemma hearing_exchange:
  assumes "exchanges C argv peer ins outs ls"
  shows "\<exists>p'. cli_main C argv (hearing ins peer) = Some (0, p') \<and> map fst (sent (pr_world p')) = outs \<and> pr_out p' = map Stdout ls"
proof -
  have "calm n (from_secs 5) (pr_world (hearing ins peer))" for n
    by (simp add: hearing_def calm_def demo_process_def quiet_world_def from_secs_def)
  moreover have "arriving (pr_world (hearing ins peer)) ins peer"
    "sent (pr_world (hearing ins peer)) = []" "pr_out (hearing ins peer) = []"
    by (simp_all add: hearing_def calm_def arriving_def demo_process_def quiet_world_def from_secs_def)
  ultimately show ?thesis using assms unfolding exchanges_def by (fastforce simp: comp_def)
qed

definition demo_listener :: "(unit, bool \<times> model_hs, model_ts, 256 word, 256 word) cli_env" where
  "demo_listener = demo_cli\<lparr>c_random := 6, c_local_addr := \<lambda>_. Inr demo_peer\<rparr>"

theorem commands_converse_witness:
  "\<exists>fromA fromB pA pB. cli_main demo_cli [''connect'', show_socket_addr demo_peer] (hearing fromB demo_peer) = Some (0, pA) \<and>
     cli_main demo_listener [''listen'', ''x''] (hearing fromA demo_peer) = Some (0, pB) \<and>
     map fst (sent (pr_world pA)) = fromA \<and> map fst (sent (pr_world pB)) = fromB \<and>
     last (pr_out pA) = Stdout ''recv ack'' \<and> last (pr_out pB) = Stdout ''recv hello''"
proof -
  have e: "c_env demo_listener = c_env demo_cli" "e_snow (c_env demo_cli) = model_snow" "e_prims (c_env demo_cli) = model_primitives"
    "own_identity demo_cli = IdentitySecret 5" "own_identity demo_listener = IdentitySecret 6"
    "c_bind demo_listener ''x'' = Inr ()" "c_option demo_listener ''x'' = None" "c_local_addr demo_listener ''x'' = Inr demo_peer"
    by (simp_all add: demo_listener_def demo_cli_def demo_env identity_generate_def)
  have "linked (e_snow (c_env demo_cli)) 8 (fst (xx_ts demo_xx)) (snd (xx_ts demo_xx)) [] []"
    unfolding e by (rule model_linked) (simp_all add: demo_xx_def Let_def)
  moreover have "bind_loopback demo_cli = Inr (V4 (Ipv4Addr 127 0 0 1) 4000)"
    by (simp add: bind_loopback_def demo_cli_def)
  ultimately obtain fromA fromB l1 l2 l3 where
    x: "exchanges demo_cli [''connect'', show_socket_addr demo_peer] demo_peer fromB fromA [l1, ''recv ack'']"
    "exchanges demo_listener [''listen'', ''x''] demo_peer fromA fromB [l2, l3, ''recv hello'']"
    using commands_converse [OF e(1) demo_xx_exchange [folded e(2-5)] _ _ e(6-8), of _ demo_peer] by auto
  obtain pA where "cli_main demo_cli [''connect'', show_socket_addr demo_peer] (hearing fromB demo_peer) = Some (0, pA)"
    "map fst (sent (pr_world pA)) = fromA" "last (pr_out pA) = Stdout ''recv ack''"
    using hearing_exchange [OF x(1)] by force
  moreover obtain pB where "cli_main demo_listener [''listen'', ''x''] (hearing fromA demo_peer) = Some (0, pB)"
    "map fst (sent (pr_world pB)) = fromB" "last (pr_out pB) = Stdout ''recv hello''"
    using hearing_exchange [OF x(2)] by force
  ultimately show ?thesis by (intro exI conjI)
qed

end
