(* ===== verification/Ppose_Session_Talk.thy ===== *)
theory Ppose_Session_Talk
  imports Ppose_Conversation Ppose_Session_Setup Ppose_Rendezvous
begin

text \<open>
  Whole conversations: two applications that hold any agreed sequence of messages in both
  directions, by calls of \<open>send_timeout\<close> and \<open>session_recv\<close>, over sessions joined by a network that delivers
  in order and in time.
\<close>

section \<open>The two applications\<close>

text \<open>
  A script lists the messages with their speaker.  Party \<open>x\<close> sends what is its own and receives what is not; the
  run ends early when a call fails, and yields what was received.
\<close>

fun converse ::
  "('np, 'hs, 'ts, 'sk, 'pk) env \<Rightarrow> duration \<Rightarrow> bool \<Rightarrow> (bool \<times> bytes) list \<Rightarrow> ('hs, 'ts, 'pk) udp_session \<Rightarrow> world
     \<Rightarrow> (bytes list \<times> ('hs, 'ts, 'pk) udp_session \<times> world) option" where
  "converse E T x [] s w = Some ([], s, w)"
| "converse E T x ((y, m) # ms) s w =
     (if y = x then (case send_timeout E m T s w of
          Some (Inr _, s1, w1) \<Rightarrow> converse E T x ms s1 w1
        | _ \<Rightarrow> None)
      else (case session_recv E T s w of
          Some (Inr m', s1, w1) \<Rightarrow> map_option (apfst ((#) m')) (converse E T x ms s1 w1)
        | _ \<Rightarrow> None))"

definition said :: "bool \<Rightarrow> (bool \<times> bytes) list \<Rightarrow> bytes list" where
  "said x ms = map snd (filter (\<lambda>(y, m). y = x) ms)"

definition total_frames :: "bytes list \<Rightarrow> nat" where
  "total_frames ms = sum_list (map nfr ms)"

definition readings :: "(bool \<times> bytes) list \<Rightarrow> nat" where
  "readings ms = sum_list (map (\<lambda>(x, m). 2 * nfr m + 2) ms)"

text \<open>
  Party \<open>x\<close> holds its side of the script: over any world in which the datagrams \<open>ins\<close> arrive and the clock stays within
  the timeout and the retransmission time, all its calls succeed, it hears what the other party says, and it
  sends \<open>outs\<close>.
\<close>

definition holds ::
  "('np, 'hs, 'ts, 'sk, 'pk) env \<Rightarrow> bool \<Rightarrow> (bool \<times> bytes) list \<Rightarrow> socket_addr \<Rightarrow> 'ts \<Rightarrow> arq \<Rightarrow> bytes list \<Rightarrow> bytes list \<Rightarrow> bool" where
  "holds E x ms p t a outs ins \<longleftrightarrow> (\<forall>w T d c. d \<le> T \<and> d \<le> retx a \<and> calm (clock_no w + readings ms) d w \<and> arriving w ins p \<longrightarrow>
     (\<exists>s' w'. converse E T x ms (talk p c t a) w = Some (said (\<not> x) ms, s', w') \<and> sent w' = sent w @ map (\<lambda>d. (d, p)) outs))"

lemma holds_Nil: "holds E x [] p t a [] []"
  by (simp add: holds_def said_def)

lemma calm_le: "calm n d w \<Longrightarrow> k \<le> n \<Longrightarrow> calm k d w"
  by (simp add: calm_def)

lemma calm_readings:
  assumes "calm (clock_no w + readings ((y, m) # ms)) d w"
  shows "calm (clock_no w + 2 * nfr m + 1) d w"
    and "moves w r k out w' \<Longrightarrow> k \<le> 2 * nfr m + 2 \<Longrightarrow> calm (clock_no w' + readings ms) d w'"
proof -
  have r: "readings ((y, m) # ms) = 2 * nfr m + 2 + readings ms" by (simp add: readings_def)
  show "calm (clock_no w + 2 * nfr m + 1) d w" using calm_le [OF assms] by (simp add: r)
  show "calm (clock_no w' + readings ms) d w'" if "moves w r k out w'" "k \<le> 2 * nfr m + 2"
    using calm_le [OF assms, of "clock_no w' + readings ms"] that by (simp add: r calm_moves [OF that(1)]) (simp add: moves_def)
qed

lemma arriving_split:
  "arriving w (ds @ es) p \<Longrightarrow> arriving w ds p"
  "arriving w (ds @ es) p \<Longrightarrow> moves w (length ds) k out w' \<Longrightarrow> arriving w' es p"
  by (simp add: arriving_def nth_append) (rule arriving_moves)

lemma holds_send:
  assumes s: "sends E p t a m cs acks t' a'" and "length acks = nfr m" and "retx a' = retx a" and h: "holds E x ms p t' a' outs ins"
  shows "holds E x ((x, m) # ms) p t a (map sealed cs @ outs) (map sealed acks @ ins)"
proof (unfold holds_def, intro allI impI, elim conjE)
  fix w :: world and T d c
  assume d: "d \<le> T" "d \<le> retx a" and calm: "calm (clock_no w + readings ((x, m) # ms)) d w" and arr: "arriving w (map sealed acks @ ins) p"
  note c1 = calm_readings(1) [OF calm]
  obtain w1 where w1: "send_timeout E m T (talk p c t a) w = Some (Inr (), talk p c t' a', w1)" "moves w (nfr m) (2 * nfr m + 2) (wires cs p) w1"
    using s calm_mono [OF c1 d(1)] calm_mono [OF c1 d(2)] arriving_split(1) [OF arr] unfolding sends_def by blast
  have "arriving w1 ins p" "calm (clock_no w1 + readings ms) d w1"
    using arriving_split(2) [OF arr] calm_readings(2) [OF calm] w1(2) assms(2) by simp_all
  then obtain s' w' where "converse E T x ms (talk p c t' a') w1 = Some (said (\<not> x) ms, s', w')" "sent w' = sent w1 @ map (\<lambda>d. (d, p)) outs"
    using h d assms(3) unfolding holds_def by metis
  then show "\<exists>s' w'. converse E T x ((x, m) # ms) (talk p c t a) w = Some (said (\<not> x) ((x, m) # ms), s', w') \<and>
      sent w' = sent w @ map (\<lambda>d. (d, p)) (map sealed cs @ outs)"
    using w1 by (simp add: said_def moves_def)
qed

lemma holds_recv:
  assumes s: "receives E p t a m cs acks t' a'" and "length cs = nfr m" and "retx a' = retx a" and h: "holds E x ms p t' a' outs ins"
  shows "holds E x ((\<not> x, m) # ms) p t a (map sealed acks @ outs) (map sealed cs @ ins)"
proof (unfold holds_def, intro allI impI, elim conjE)
  fix w :: world and T d c
  assume d: "d \<le> T" "d \<le> retx a" and calm: "calm (clock_no w + readings ((\<not> x, m) # ms)) d w" and arr: "arriving w (map sealed cs @ ins) p"
  note c1 = calm_readings(1) [OF calm]
  obtain w1 where w1: "session_recv E T (talk p c t a) w = Some (Inr m, talk p c t' a', w1)" "moves w (nfr m) (2 * nfr m + 1) (wires acks p) w1"
    using s calm_mono [OF c1 d(1)] arriving_split(1) [OF arr] unfolding receives_def by blast
  have "arriving w1 ins p" "calm (clock_no w1 + readings ms) d w1"
    using arriving_split(2) [OF arr] calm_readings(2) [OF calm] w1(2) assms(2) by simp_all
  then obtain s' w' where "converse E T x ms (talk p c t' a') w1 = Some (said (\<not> x) ms, s', w')" "sent w' = sent w1 @ map (\<lambda>d. (d, p)) outs"
    using h d assms(3) unfolding holds_def by metis
  then show "\<exists>s' w'. converse E T x ((\<not> x, m) # ms) (talk p c t a) w = Some (said (\<not> x) ((\<not> x, m) # ms), s', w') \<and>
      sent w' = sent w @ map (\<lambda>d. (d, p)) (map sealed acks @ outs)"
    using w1 by (simp add: said_def moves_def)
qed

text \<open>Nothing in the script is too long, and no sequence number wraps.\<close>

definition script_ok :: "arq \<Rightarrow> arq \<Rightarrow> (bool \<times> bytes) list \<Rightarrow> bool" where
  "script_ok a b ms \<longleftrightarrow> (\<forall>(x, m) \<in> set ms. length m \<le> 255 * MAX_PAYLOAD) \<and>
     unat (next_seq a) + total_frames (said True ms) < 2 ^ 32 \<and> unat (next_seq b) + total_frames (said False ms) < 2 ^ 32"

lemma msg_frame [simp]:
  "retx (sent_msg a m) = retx a" "retx (received_msg b m) = retx b" "next_seq (received_msg b m) = next_seq b"
  by (simp_all add: sent_msg_def received_msg_def)

lemma unat_sent: "no_wrap a m \<Longrightarrow> unat (next_seq (sent_msg a m)) = unat (next_seq a) + nfr m"
  using unat_add_lem [of "next_seq a" "of_nat (nfr m)"] by (simp add: sent_msg_def unat_of_nat no_wrap_def)

lemma script_ok_Cons:
  assumes "script_ok a b ((x, m) # ms)"
  shows "length m \<le> 255 * MAX_PAYLOAD"
    and "x \<Longrightarrow> no_wrap a m \<and> script_ok (sent_msg a m) (received_msg b m) ms"
    and "\<not> x \<Longrightarrow> no_wrap b m \<and> script_ok (received_msg a m) (sent_msg b m) ms"
proof -
  show "length m \<le> 255 * MAX_PAYLOAD" using assms by (simp add: script_ok_def)
  show "no_wrap a m \<and> script_ok (sent_msg a m) (received_msg b m) ms" if x
  proof -
    have "no_wrap a m" using assms that by (simp add: script_ok_def said_def total_frames_def no_wrap_def)
    then show ?thesis using assms that unat_sent by (simp add: script_ok_def said_def total_frames_def)
  qed
  show "no_wrap b m \<and> script_ok (received_msg a m) (sent_msg b m) ms" if "\<not> x"
  proof -
    have "no_wrap b m" using assms that by (simp add: script_ok_def said_def total_frames_def no_wrap_def)
    then show ?thesis using assms that unat_sent by (simp add: script_ok_def said_def total_frames_def)
  qed
qed

lemma conversation_held:
  assumes "linked (e_snow E) (4 * total_frames (map snd ms)) t u [] []" and "in_tune a b" and "script_ok a b ms"
  shows "\<exists>outA outB. holds E True ms p t a outA outB \<and> holds E False ms q u b outB outA"
  using assms
proof (induction ms arbitrary: t u a b)
  case Nil
  show ?case by (intro exI [of _ "[]"] conjI holds_Nil)
next
  case (Cons xm ms)
  obtain x m where xm: "xm = (x, m)" by (cases xm)
  have l: "linked (e_snow E) (4 * nfr m + 4 * total_frames (map snd ms)) t u [] []"
    using Cons.prems(1) by (simp add: xm total_frames_def algebra_simps)
  note ok = script_ok_Cons [OF Cons.prems(3) [unfolded xm]]
  show ?case
  proof (cases x)
    case True
    obtain cs acks t' u' where m: "sends E p t a m cs acks t' (sent_msg a m)" "receives E q u b m cs acks u' (received_msg b m)"
      "linked (e_snow E) (4 * total_frames (map snd ms)) t' u' [] []" "length cs = nfr m" "length acks = nfr m"
      using message_transfer [OF l Cons.prems(2) _ ok(1)] ok(2) True by metis
    obtain outA outB where "holds E True ms p t' (sent_msg a m) outA outB" "holds E False ms q u' (received_msg b m) outB outA"
      using Cons.IH [OF m(3) in_tune_msg [OF Cons.prems(2)]] ok(2) True by blast
    then have "holds E True (xm # ms) p t a (map sealed cs @ outA) (map sealed acks @ outB)"
      "holds E False (xm # ms) q u b (map sealed acks @ outB) (map sealed cs @ outA)"
      using holds_send [OF m(1,5)] holds_recv [OF m(2,4), of False] True by (simp_all add: xm)
    then show ?thesis by (intro exI conjI)
  next
    case False
    obtain cs acks t' u' where m: "sends E q u b m cs acks u' (sent_msg b m)" "receives E p t a m cs acks t' (received_msg a m)"
      "linked (e_snow E) (4 * total_frames (map snd ms)) u' t' [] []" "length cs = nfr m" "length acks = nfr m"
      using message_transfer [OF linked_swap [OF l] _ _ ok(1)] ok(3) False Cons.prems(2) in_tune_sym by metis
    obtain outA outB where "holds E True ms p t' (received_msg a m) outA outB" "holds E False ms q u' (sent_msg b m) outB outA"
      using Cons.IH [OF linked_swap [OF m(3)]] ok(3) False in_tune_msg [of b a] Cons.prems(2) in_tune_sym by metis
    then have "holds E True (xm # ms) p t a (map sealed acks @ outA) (map sealed cs @ outB)"
      "holds E False (xm # ms) q u b (map sealed cs @ outB) (map sealed acks @ outA)"
      using holds_send [OF m(1,5)] holds_recv [OF m(2,4), of True] False by (simp_all add: xm)
    then show ?thesis by (intro exI conjI)
  qed
qed

section \<open>Properties\<close>

text \<open>
  C7: conversations on direct paths complete.  Let two established sessions be on direct paths (no relay, no onion route) with cover traffic off
  and no frames to be dropped (\<open>talk\<close>), at rest and in tune, their transports
  joined by channels for as many calls as the script needs, no message longer than the ARQ accepts
  (255 fragments) and no sequence number wrapping.  Then there are two lists of datagrams such that each party,
  receiving the other's list in order, has every call of its side of the script succeed, hears exactly what the other
  says, and sends exactly its own list, provided that the operating system reports no error and that all clock readings of the whole
  script lie within less than both the timeout and one retransmission interval, so that nothing is sent twice.
\<close>
theorem conversation_completes:
  assumes "linked (e_snow E) (4 * total_frames (map snd ms)) t u [] []" and "in_tune a b" and "script_ok a b ms"
  shows "\<exists>outA outB. holds E True ms p t a outA outB \<and> holds E False ms q u b outB outA"
  by (rule conversation_held [OF assms])

text \<open>Two fragments one way, two bytes the other.\<close>

definition demo_large :: bytes where
  "demo_large = replicate 2000 0x5a"

definition demo_reply :: bytes where
  "demo_reply = [111, 107]"

definition demo_script :: "(bool \<times> bytes) list" where
  "demo_script = [(True, demo_large), (False, demo_reply)]"

definition demo_ts :: model_ts where
  "demo_ts = \<lparr>mt_sn = 0, mt_rn = 0, mt_remote = []\<rparr>"

definition offering :: "bytes list \<Rightarrow> socket_addr \<Rightarrow> world" where
  "offering ds p = quiet_world\<lparr>clock_at := \<lambda>_. 0, recv_at := \<lambda>i. if i < length ds then Inr (ds ! i, p) else Inl TimedOut\<rparr>"

lemma offering_ok: "0 < d \<Longrightarrow> calm n d (offering ds p)" "arriving (offering ds p) ds p" "sent (offering ds p) = []"
  by (simp_all add: offering_def calm_def arriving_def quiet_world_def)

lemma holds_offering:
  assumes "holds E x ms p t a outs ins" and "0 < T" and "0 < retx a"
  shows "\<exists>s' w'. converse E T x ms (talk p c t a) (offering ins p) = Some (said (\<not> x) ms, s', w') \<and> map fst (sent w') = outs"
proof -
  have "min T (retx a) \<le> T \<and> min T (retx a) \<le> retx a \<and>
      calm (clock_no (offering ins p) + readings ms) (min T (retx a)) (offering ins p) \<and> arriving (offering ins p) ins p"
    using assms(2,3) offering_ok by simp
  from assms(1) [unfolded holds_def, rule_format, OF this, of c] show ?thesis by (auto simp: offering_ok(3) comp_def)
qed

theorem conversation_completes_witness:
  "\<exists>outA outB sA wA sB wB.
     converse model_env (from_secs 5) True demo_script (talk demo_peer 0 demo_ts arq_new) (offering outB demo_peer) = Some ([demo_reply], sA, wA) \<and>
     converse model_env (from_secs 5) False demo_script (talk demo_peer 0 demo_ts arq_new) (offering outA demo_peer) = Some ([demo_large], sB, wB) \<and>
     map fst (sent wA) = outA \<and> map fst (sent wB) = outB"
proof -
  have lens: "length m \<le> 255 * MAX_PAYLOAD" if "(x, m) \<in> set demo_script" for x m
    using that by (auto simp: demo_script_def demo_large_def demo_reply_def MAX_PAYLOAD_def)
  have n: "nfr demo_large \<le> 255" "nfr demo_reply \<le> 255"
    using lens by (auto intro!: nfr_le simp: demo_script_def)
  then have "script_ok arq_new arq_new demo_script"
    using lens by (auto simp: script_ok_def demo_script_def said_def total_frames_def arq_new_def)
  moreover have "linked (e_snow model_env) (4 * total_frames (map snd demo_script)) demo_ts demo_ts [] []"
    using n unfolding demo_env by (intro model_linked) (simp_all add: demo_ts_def demo_script_def total_frames_def)
  ultimately obtain outA outB where h: "holds model_env True demo_script demo_peer demo_ts arq_new outA outB"
    "holds model_env False demo_script demo_peer demo_ts arq_new outB outA"
    using conversation_completes [OF _ in_tune_new] by metis
  have d: "(0 :: duration) < from_secs 5" "0 < retx arq_new" "said False demo_script = [demo_reply]" "said True demo_script = [demo_large]"
    by (simp_all add: from_secs_def arq_new_def DEFAULT_RETX_def from_millis_def said_def demo_script_def)
  obtain sA wA where "converse model_env (from_secs 5) True demo_script (talk demo_peer 0 demo_ts arq_new) (offering outB demo_peer) =
      Some ([demo_reply], sA, wA)" "map fst (sent wA) = outA"
    using holds_offering [OF h(1) d(1,2), of 0] by (auto simp: d(3))
  moreover obtain sB wB where "converse model_env (from_secs 5) False demo_script (talk demo_peer 0 demo_ts arq_new) (offering outA demo_peer) =
      Some ([demo_large], sB, wB)" "map fst (sent wB) = outB"
    using holds_offering [OF h(2) d(1,2), of 0] by (auto simp: d(4))
  ultimately show ?thesis by (intro exI conjI)
qed

end
