(* ===== verification/Ppose_Unit_Tests.thy ===== *)
theory Ppose_Unit_Tests
  imports Ppose_Arq_Transfer Ppose_Admission Ppose_Onion Ppose_Cover Ppose_Text
begin

text \<open>
  The unit tests the source files carry, run on the model.  Each test is the conjunction of its
  assertions; a failing \<^verbatim>\<open>unwrap\<close> makes it false.  Readings of the clock and the drawn keys are arguments, and
  tests that rest on a library hold for every one with its documented behaviour.  Left out are the tests
  whose outcome is the strength of a primitive (forged signatures, wrong associated data, the
  fingerprint of one key) and the handshake test, whose steps are those of \<open>xx_exchange\<close>.
\<close>

section \<open>lib, config, packet, forward, frame\<close>

definition test_constants_match_spec :: bool where
  "test_constants_match_spec \<longleftrightarrow> PROTOCOL_VERSION = 0x03 \<and> MAGIC = [0x4A, 0x7F] \<and> OUTER_HEADER_LEN = 8 \<and> NOISE_PARAMS \<noteq> []"

definition test_defaults :: bool where
  "test_defaults \<longleftrightarrow> (let c = config_default in mtu c = 1200 \<and> cfg_cover c = Off)"

definition test_encode_decode_roundtrip :: bool where
  "test_encode_decode_roundtrip \<longleftrightarrow> (let hdr = encode_outer Data 0
     in length hdr = 8 \<and>
        (case decode_outer hdr of
           Inl _ \<Rightarrow> False
         | Inr (ty, flags, body) \<Rightarrow> ty = Data \<and> flags = 0 \<and> body = []))"

definition test_rejects_bad_magic :: bool where
  "test_rejects_bad_magic \<longleftrightarrow> (let hdr = encode_outer Handshake 0; hdr = hdr[0 := xor (hdr ! 0) 0xff] in decode_outer hdr = Inl BadMagic)"

definition test_forward_type_roundtrip :: bool where
  "test_forward_type_roundtrip \<longleftrightarrow> from_u8 4 = Some Forward \<and> from_u8 0 = None"

definition test_wrap_unwrap :: bool where
  "test_wrap_unwrap \<longleftrightarrow>
     (case parse_socket_addr ''127.0.0.1:9000'' of
        None \<Rightarrow> False
      | Some dest \<Rightarrow>
          let inner = [0x4a, 0x7f] @ string_bytes ''hello''
          in case res_bind (encode_forward_body dest inner) decode_forward_body of
               Inl _ \<Rightarrow> False
             | Inr (d, rest) \<Rightarrow> d = dest \<and> rest = inner)"

definition test_data_roundtrip :: bool where
  "test_data_roundtrip \<longleftrightarrow>
     (case decode_inner (encode_data 7 3 0 2 (string_bytes ''ab'')) of
        Inr (DataFrame seq frag_id index tot payload) \<Rightarrow> seq = 7 \<and> frag_id = 3 \<and> index = 0 \<and> tot = 2 \<and> payload = string_bytes ''ab''
      | _ \<Rightarrow> False)"

definition test_ack_roundtrip :: bool where
  "test_ack_roundtrip \<longleftrightarrow>
     (case decode_inner (encode_ack 10 0b1011) of
        Inr (AckFrame base bitmap) \<Rightarrow> base = 10 \<and> bitmap = 0b1011
      | _ \<Rightarrow> False)"

lemma codec_tests:
  "test_constants_match_spec" "test_defaults" "test_encode_decode_roundtrip" "test_rejects_bad_magic" "test_forward_type_roundtrip"
  "test_data_roundtrip" "test_ack_roundtrip"
  by (simp_all add: test_constants_match_spec_def test_defaults_def test_encode_decode_roundtrip_def test_rejects_bad_magic_def
      test_forward_type_roundtrip_def test_data_roundtrip_def test_ack_roundtrip_def config_default_def const_defs NOISE_PARAMS_def
      encode_outer_def decode_outer_def from_u8_def Let_def decode_encode_data decode_encode_ack [where rest = "[]", simplified])

lemma forward_test: "test_wrap_unwrap"
proof -
  have "show_socket_addr (V4 (Ipv4Addr 127 0 0 1) 9000) = ''127.0.0.1:9000''"
    by (simp add: show_base.simps digit_char_def char_of_eq_iff)
  then have "parse_socket_addr ''127.0.0.1:9000'' = Some (V4 (Ipv4Addr 127 0 0 1) 9000)"
    using parse_show_socket_addr [of "V4 (Ipv4Addr 127 0 0 1) 9000"] by simp
  moreover have "encode_forward_body (V4 ip port) ([0x4a, 0x7f] @ string_bytes ''hello'') = Inr (addr_bytes ip port @ [0x4a, 0x7f] @ string_bytes ''hello'')" for ip port
    by (simp add: encode_forward_body_Inr_iff string_bytes_def)
  ultimately show ?thesis by (simp add: test_wrap_unwrap_def Let_def decode_forward_addr del: append_Cons)
qed

section \<open>reliability/arq\<close>

text \<open>The loop of two tests: hand each frame over, and its acknowledgement back.\<close>

fun exchange_loop :: "bytes list \<Rightarrow> arq \<Rightarrow> arq \<Rightarrow> (arq \<times> arq) option" where
  "exchange_loop [] a b = Some (a, b)"
| "exchange_loop (pt # pts) a b =
     (case ingest b pt of
        (Inl _, _) \<Rightarrow> None
      | (Inr None, b1) \<Rightarrow> exchange_loop pts a b1
      | (Inr (Some ack), b1) \<Rightarrow>
          (case ingest a ack of
             (Inl _, _) \<Rightarrow> None
           | (Inr _, a1) \<Rightarrow> exchange_loop pts a1 b1))"

definition test_in_order_delivery :: "instant \<Rightarrow> bool" where
  "test_in_order_delivery now \<longleftrightarrow>
     (case enqueue arq_new (string_bytes ''hello'') of
        (Inl _, _) \<Rightarrow> False
      | (Inr _, a) \<Rightarrow>
          (case take_new_sends a now of
             None \<Rightarrow> False
           | Some (pts, a1) \<Rightarrow>
               (case exchange_loop pts a1 arq_new of
                  None \<Rightarrow> False
                | Some (a2, b) \<Rightarrow> fst (pop_delivered b) = Some (string_bytes ''hello'') \<and> unacked_len a2 = 0)))"

definition test_recovers_from_loss :: "instant \<Rightarrow> bool" where
  "test_recovers_from_loss t0 \<longleftrightarrow>
     (let a = set_retx arq_new (from_millis 1)
      in case enqueue a (string_bytes ''one'') of (Inl _, _) \<Rightarrow> False | (Inr _, a1) \<Rightarrow>
         case enqueue a1 (string_bytes ''two'') of (Inl _, _) \<Rightarrow> False | (Inr _, a2) \<Rightarrow>
         case take_new_sends a2 t0 of None \<Rightarrow> False | Some (pts, a3) \<Rightarrow>
         length pts = 2 \<and>
         (case ingest arq_new (pts ! 1) of (Inr (Some ack), b1) \<Rightarrow>
            (case ingest a3 ack of (Inl _, _) \<Rightarrow> False | (Inr _, a4) \<Rightarrow>
             case pop_delivered b1 of (m, b2) \<Rightarrow>
             m = Some (string_bytes ''two'') \<and>
             (case take_retransmits a4 (t0 + from_millis 5) of Some (Inr retrx, a5) \<Rightarrow>
                length retrx = 1 \<and>
                (case ingest b2 (retrx ! 0) of (Inr (Some ack2), b3) \<Rightarrow>
                   (case ingest a5 ack2 of (Inl _, _) \<Rightarrow> False | (Inr _, a6) \<Rightarrow>
                    fst (pop_delivered b3) = Some (string_bytes ''one'') \<and> unacked_len a6 = 0)
                 | _ \<Rightarrow> False)
              | _ \<Rightarrow> False))
          | _ \<Rightarrow> False))"

definition test_fragments_reassemble :: "instant \<Rightarrow> bool" where
  "test_fragments_reassemble now \<longleftrightarrow>
     (let big = replicate (MAX_PAYLOAD + 50) 7
      in case enqueue arq_new big of
           (Inl _, _) \<Rightarrow> False
         | (Inr _, a) \<Rightarrow>
             (case take_new_sends a now of
                None \<Rightarrow> False
              | Some (pts, a1) \<Rightarrow>
                  (case exchange_loop pts a1 arq_new of
                     None \<Rightarrow> False
                   | Some (a2, b) \<Rightarrow> fst (pop_delivered b) = Some big)))"

text \<open>What the loop does for any message whose frames fit into the window.\<close>

lemma exchange_loop_frames:
  assumes "in_tune a b" and "nfr m \<le> 255" and "k < nfr m"
  shows "exchange_loop (map (frame a m) [k..<nfr m]) (sender_at a m tm k h) (receiver_at a b m k) =
    Some (sent_msg a m, (received_msg b m)\<lparr>delivered := [m]\<rparr>)"
  using assms(3)
proof (induction "nfr m - k" arbitrary: k)
  case (Suc l)
  have up: "[k..<nfr m] = k # [Suc k..<nfr m]" using Suc.prems by (simp add: upt_conv_Cons)
  have step: "exchange_loop (map (frame a m) [k..<nfr m]) (sender_at a m tm k h) (receiver_at a b m k) =
      exchange_loop (map (frame a m) [Suc k..<nfr m]) (sender_at a m tm (Suc k) h)
        (if Suc k = nfr m then (received_msg b m)\<lparr>delivered := [m]\<rparr> else receiver_at a b m (Suc k))"
    using ingest_frame [OF assms(1) Suc.prems assms(2)] ingest_ack_sender_at [OF Suc.prems assms(2)]
    by (simp add: up del: upt_Suc)
  show ?case
  proof (cases "Suc k = nfr m")
    case True
    then show ?thesis using step sender_at_end [of a m tm h] assms(1) by (simp add: in_tune_def)
  next
    case False
    then show ?thesis using step Suc.hyps(1) [of "Suc k"] Suc.hyps(2) Suc.prems by simp
  qed
qed simp

lemma transfer_test:
  assumes "nfr m \<le> 32"
  shows "\<exists>a pts a1. enqueue arq_new m = (Inr (), a) \<and> take_new_sends a now = Some (pts, a1) \<and>
    exchange_loop pts a1 arq_new = Some (sent_msg arq_new m, (received_msg arq_new m)\<lparr>delivered := [m]\<rparr>)"
proof -
  have i: "idle arq_new" "in_tune arq_new arq_new" "no_wrap arq_new m"
    using in_tune_new assms by (simp_all add: in_tune_def no_wrap_def arq_new_def)
  let ?tm = "\<lambda>_. 0 :: instant"
  have "enqueue arq_new m = (Inr (), sender_at arq_new m ?tm 0 0)" using enqueue_sender_at [OF i(1,3)] assms by simp
  moreover have "take_new_sends (sender_at arq_new m ?tm 0 0) now =
      Some (map (frame arq_new m) [0..<nfr m], sender_at arq_new m (\<lambda>i. if i < 0 then ?tm i else now) 0 (nfr m))"
    using new_sends_sender_at [OF i(3), of 0 0 ?tm now] assms by (simp add: min_def)
  ultimately show ?thesis
    using exchange_loop_frames [OF i(2), of m 0] assms receiver_at_0 [OF i(1)] nfr_pos [of m] by auto
qed

lemma arq_tests: "test_in_order_delivery now" "test_fragments_reassemble now"
proof -
  have n: "nfr m \<le> 32" if "length m \<le> 32 * MAX_PAYLOAD" for m using that by (simp add: pieces_def length_chunks_le_iff)
  have "length (string_bytes ''hello'') \<le> 32 * MAX_PAYLOAD" "length (replicate (MAX_PAYLOAD + 50) (7 :: u8)) \<le> 32 * MAX_PAYLOAD"
    by (simp_all add: string_bytes_def MAX_PAYLOAD_def)
  then show "test_in_order_delivery now" "test_fragments_reassemble now"
    using transfer_test [OF n, of "string_bytes ''hello''" now] transfer_test [OF n, of "replicate (MAX_PAYLOAD + 50) 7" now]
    by (auto simp: test_in_order_delivery_def test_fragments_reassemble_def Let_def pop_delivered_def unacked_len_def sent_msg_def arq_new_def)
qed

text \<open>The lost frame: the second message overtakes the first.\<close>

lemma loss_test: "test_recovers_from_loss t0"
proof -
  let ?f = "\<lambda>q id m. encode_data q id 0 1 (string_bytes m)"
  let ?o = "\<lambda>q id m t n. (q, \<lparr>og_plaintext = ?f q id m, og_last_sent = t, og_attempts = n\<rparr>)"
  let ?a = "arq_new\<lparr>retx := from_millis 1, next_seq := 2, next_frag_id := 3\<rparr>"
  let ?b = "arq_new\<lparr>recv_bits := 2, pending_ack := True\<rparr>"
  have len: "string_bytes ''one'' \<noteq> []" "string_bytes ''two'' \<noteq> []" "chunks MAX_PAYLOAD (string_bytes ''one'') = [string_bytes ''one'']"
    "chunks MAX_PAYLOAD (string_bytes ''two'') = [string_bytes ''two'']"
    by (simp_all add: string_bytes_def chunks_nonempty MAX_PAYLOAD_def)
  have e1: "enqueue (set_retx arq_new (from_millis 1)) (string_bytes ''one'') =
      (Inr (), arq_new\<lparr>retx := from_millis 1, next_seq := 1, next_frag_id := 2, unacked := [?o 0 1 ''one'' None 0]\<rparr>)"
    by (simp add: enqueue_def len bump_frag_id_def set_retx_def Let_def arq_new_def)
  have e2: "enqueue (arq_new\<lparr>retx := from_millis 1, next_seq := 1, next_frag_id := 2, unacked := [?o 0 1 ''one'' None 0]\<rparr>) (string_bytes ''two'') =
      (Inr (), ?a\<lparr>unacked := [?o 0 1 ''one'' None 0, ?o 1 2 ''two'' None 0]\<rparr>)"
    by (simp add: enqueue_def len bump_frag_id_def Let_def arq_new_def)
  have s: "take_new_sends (?a\<lparr>unacked := [?o 0 1 ''one'' None 0, ?o 1 2 ''two'' None 0]\<rparr>) t0 =
      Some ([?f 0 1 ''one'', ?f 1 2 ''two''], ?a\<lparr>unacked := [?o 0 1 ''one'' (Some t0) 1, ?o 1 2 ''two'' (Some t0) 1]\<rparr>)"
    by (simp add: take_new_sends_def in_flight_sent_def WINDOW_SIZE_def word_le_nat_alt)
  have "advance 0 2 = (0, 2)" "advance 0 3 = (2, 0)"
    by (simp_all add: advance.simps [of 0 2] advance.simps [of 0 3] advance.simps [of 1 1] advance.simps [of 2 0] drop_bit_eq_div)
  then have i: "ingest arq_new (?f 1 2 ''two'') = (Inr (Some (encode_ack 0 2)), ?b\<lparr>delivered := [string_bytes ''two'']\<rparr>)"
    "ingest ?b (?f 0 1 ''one'') = (Inr (Some (encode_ack 2 0)), arq_new\<lparr>recv_base := 2, pending_ack := True, delivered := [string_bytes ''one'']\<rparr>)"
    by (simp_all add: ingest_def decode_encode_data on_data_def mark_received_def Let_def arq_new_def push_bit_eq_mult word_le_nat_alt)
  have k1: "ingest (?a\<lparr>unacked := [?o 0 1 ''one'' (Some t0) 1, ?o 1 2 ''two'' (Some t0) 1]\<rparr>) (encode_ack 0 2) =
      (Inr None, ?a\<lparr>unacked := [?o 0 1 ''one'' (Some t0) 1]\<rparr>)"
    by (simp add: ingest_def decode_encode_ack [where rest = "[]", simplified] on_ack_def acked_def bt_remove_def Let_def drop_bit_eq_div)
  have r: "take_retransmits (?a\<lparr>unacked := [?o 0 1 ''one'' (Some t0) 1]\<rparr>) (t0 + from_millis 5) =
      Some (Inr [?f 0 1 ''one''], ?a\<lparr>unacked := [?o 0 1 ''one'' (Some (t0 + from_millis 5)) 2]\<rparr>)"
    by (simp add: take_retransmits_def arq_new_def from_millis_def DEFAULT_MAX_ATTEMPTS_def word_le_nat_alt)
  have k2: "ingest (?a\<lparr>unacked := [?o 0 1 ''one'' (Some (t0 + from_millis 5)) 2]\<rparr>) (encode_ack 2 0) = (Inr None, ?a\<lparr>unacked := []\<rparr>)"
    by (simp add: ingest_def decode_encode_ack [where rest = "[]", simplified] on_ack_def acked_def bt_remove_def Let_def)
  have p: "pop_delivered (?b\<lparr>delivered := [m]\<rparr>) = (Some m, ?b)" for m by (simp add: pop_delivered_def arq_new_def)
  show ?thesis
    unfolding test_recovers_from_loss_def Let_def e1 prod.case sum.case e2 s option.case
    by (simp add: i k1 p r k2 nth_Cons' del: One_nat_def) (simp add: pop_delivered_def unacked_len_def)
qed

section \<open>network/replay\<close>

definition test_rejects_duplicate :: "(bytes \<Rightarrow> bytes) \<Rightarrow> instant \<Rightarrow> bool" where
  "test_rejects_duplicate hash now \<longleftrightarrow>
     (let c = with_bounds (from_secs 10) 8
      in case accept hash c (string_bytes ''pkt'') now of (r1, c1) \<Rightarrow>
         case accept hash c1 (string_bytes ''pkt'') now of (r2, c2) \<Rightarrow>
         r1 \<and> \<not> r2 \<and> fst (accept hash c2 (string_bytes ''other'') now))"

definition test_ttl_expires :: "(bytes \<Rightarrow> bytes) \<Rightarrow> instant \<Rightarrow> bool" where
  "test_ttl_expires hash t0 \<longleftrightarrow>
     (let c = with_bounds (from_millis 5) 8
      in case accept hash c (string_bytes ''pkt'') t0 of (r1, c1) \<Rightarrow>
         case accept hash c1 (string_bytes ''pkt'') (t0 + from_millis 1) of (r2, c2) \<Rightarrow>
         r1 \<and> \<not> r2 \<and> fst (accept hash c2 (string_bytes ''pkt'') (t0 + from_millis 10)))"

lemma replay_tests:
  "replay_key hash (string_bytes ''pkt'') \<noteq> replay_key hash (string_bytes ''other'') \<Longrightarrow> test_rejects_duplicate hash now"
  "test_ttl_expires hash t0"
  by (simp_all add: test_rejects_duplicate_def test_ttl_expires_def accept_def with_bounds_def replay_expire_def hm_retain_def hm_insert_def
      Let_def from_secs_def from_millis_def)

section \<open>crypto/aead, onion\<close>

definition test_aead_roundtrip :: "('sk, 'pk) primitives \<Rightarrow> bool" where
  "test_aead_roundtrip P \<longleftrightarrow>
     (let aead = aead_new (replicate 32 9); nonce = replicate 24 1; aad = string_bytes ''header''
      in res_bind (aead_seal P aead nonce aad (string_bytes ''hello'')) (aead_open P aead nonce aad) = Inr (string_bytes ''hello''))"

lemma aead_test: "primitives_ok P \<Longrightarrow> test_aead_roundtrip P"
  using encrypt_total [of P "string_bytes ''hello''" "replicate 32 9" "replicate 24 1" "string_bytes ''header''"]
  by (auto simp: test_aead_roundtrip_def Let_def aead_new_def aead_seal_def aead_open_def string_bytes_def)

text \<open>\<open>eph\<close> and \<open>nonce\<close> are what the wrapping draws.\<close>

definition test_wrap_peel_one_hop :: "('sk, 'pk) primitives \<Rightarrow> 'sk \<Rightarrow> 'sk \<Rightarrow> bytes \<Rightarrow> bool" where
  "test_wrap_peel_one_hop P drawn eph nonce \<longleftrightarrow>
     (let hop = IdentitySecret drawn
      in case (parse_socket_addr ''127.0.0.1:9'', parse_socket_addr ''127.0.0.1:8'', encode_datagram Data (string_bytes ''xyz'')) of
           (Some dest, Some addr, Inr inner) \<Rightarrow>
             (case wrap_route P (\<lambda>_. (eph, nonce)) [\<lparr>hop_addr = addr, hop_pk = public P hop\<rparr>] dest inner of
                Inl _ \<Rightarrow> False
              | Inr wire' \<Rightarrow>
                  (case decode_outer wire' of
                     Inl _ \<Rightarrow> False
                   | Inr (ty, _, body) \<Rightarrow>
                       ty = Onion \<and>
                       (case peel_layer P hop body of
                          Inl _ \<Rightarrow> False
                        | Inr pl \<Rightarrow> peeled_next pl = dest \<and> peeled_payload pl = inner)))
         | _ \<Rightarrow> False)"

lemma onion_test:
  assumes "primitives_ok P" and "length nonce = 24"
  shows "test_wrap_peel_one_hop P drawn eph nonce"
proof -
  let ?inner = "encode_outer Data 0 @ string_bytes ''xyz''" and ?d = "V4 (Ipv4Addr 127 0 0 1) 9"
  have "show_socket_addr ?d = ''127.0.0.1:9''" "show_socket_addr (V4 (Ipv4Addr 127 0 0 1) 8) = ''127.0.0.1:8''"
    by (simp_all add: show_base.simps digit_char_def char_of_eq_iff)
  then have a: "parse_socket_addr ''127.0.0.1:9'' = Some ?d" "parse_socket_addr ''127.0.0.1:8'' = Some (V4 (Ipv4Addr 127 0 0 1) 8)"
    using parse_show_socket_addr [of ?d] parse_show_socket_addr [of "V4 (Ipv4Addr 127 0 0 1) 8"] by simp_all
  have e: "encode_datagram Data (string_bytes ''xyz'') = Inr ?inner" "length ?inner < 60000"
    by (simp_all add: encode_datagram_def string_bytes_def const_defs)
  obtain body where b: "wrap_layer P eph nonce (public P (IdentitySecret drawn)) ?d ?inner = Inr body"
    using wrap_layer_V4 [OF assms e(2)] by blast
  note p = peel_wrap [OF assms e(2) b]
  then have "encode_datagram Onion body = Inr (encode_outer Onion 0 @ body)"
    by (simp add: encode_datagram_def string_bytes_def LAYER_OVERHEAD_def const_defs)
  then show ?thesis
    using b p by (simp add: test_wrap_peel_one_hop_def Let_def a e(1) wrap_route_def res_bind_def)
qed

section \<open>admission\<close>

definition test_identity :: "('sk, 'pk) primitives \<Rightarrow> u8 \<Rightarrow> 'pk public_identity" where
  "test_identity P seed = public P (secret_from_bytes P (replicate 32 seed))"

definition test_root :: "('sgk, 'vk) signatures \<Rightarrow> 'sgk invite_signing_key" where
  "test_root S = signing_from_bytes S (replicate 32 1)"

definition test_issue_and_verify_within_window :: "('sgk, 'vk) signatures \<Rightarrow> ('sk, 'pk) primitives \<Rightarrow> bool" where
  "test_issue_and_verify_within_window S P \<longleftrightarrow>
     (let invite = issue S P (test_root S) (test_identity P 2) 1000 100
      in verify S invite 999 = Inl NotYetValid \<and> verify S invite 1000 = Inr () \<and> verify S invite 1050 = Inr () \<and>
         verify S invite 1100 = Inl Expired)"

definition test_wire_roundtrip :: "('sgk, 'vk) signatures \<Rightarrow> ('sk, 'pk) primitives \<Rightarrow> bool" where
  "test_wire_roundtrip S P \<longleftrightarrow>
     (let subject = test_identity P 2; invite = issue S P (test_root S) subject 1000 100; encoded = encode_invitation S invite
      in length encoded = INVITATION_LEN \<and>
         (case decode_invitation S encoded of
            Inl _ \<Rightarrow> False
          | Inr decoded \<Rightarrow> verify S decoded 1050 = Inr () \<and> inv_subject decoded = as_bytes P subject \<and>
              inv_issuer decoded = invite_public S (test_root S)))"

definition test_decode_rejects_wrong_length :: "('sgk, 'vk) signatures \<Rightarrow> bool" where
  "test_decode_rejects_wrong_length S \<longleftrightarrow> decode_invitation S (replicate 10 0) = Inl BadEncoding"

definition test_direct_root_is_admitted_at_depth_zero :: "('sgk, 'vk) signatures \<Rightarrow> bool" where
  "test_direct_root_is_admitted_at_depth_zero S \<longleftrightarrow>
     (let store = add_root S trust_store_new (invite_public S (test_root S))
      in trust_depth S store (verifying_as_bytes S (invite_public S (test_root S))) 5 1000 = Some 0)"

definition test_chain_admitted_within_depth_not_beyond :: "('sgk, 'vk) signatures \<Rightarrow> ('sk, 'pk) primitives \<Rightarrow> bool" where
  "test_chain_admitted_within_depth_not_beyond S P \<longleftrightarrow>
     (let alice = signing_from_bytes S (replicate 32 2);
          bob = test_identity P 3;
          store0 = add_root S trust_store_new (invite_public S (test_root S));
          alice_as_subject = public_from_bytes P (verifying_as_bytes S (invite_public S alice))
      in case ts_ingest S store0 (issue S P (test_root S) alice_as_subject 1000 1000) 1000 of (Inl _, _) \<Rightarrow> False | (Inr _, store1) \<Rightarrow>
         case ts_ingest S store1 (issue S P alice bob 1000 1000) 1000 of (Inl _, _) \<Rightarrow> False | (Inr _, store) \<Rightarrow>
           trust_depth S store (as_bytes P bob) 1 1000 = None \<and> trust_depth S store (as_bytes P bob) 2 1000 = Some 2 \<and>
           is_admitted S store (as_bytes P bob) 2 1000)"

definition test_expired_edge_stops_admitting_new_queries :: "('sgk, 'vk) signatures \<Rightarrow> ('sk, 'pk) primitives \<Rightarrow> bool" where
  "test_expired_edge_stops_admitting_new_queries S P \<longleftrightarrow>
     (let subject = test_identity P 2;
          store0 = add_root S trust_store_new (invite_public S (test_root S))
      in case ts_ingest S store0 (issue S P (test_root S) subject 1000 50) 1000 of (Inl _, _) \<Rightarrow> False | (Inr _, store) \<Rightarrow>
           is_admitted S store (as_bytes P subject) 1 1020 \<and> \<not> is_admitted S store (as_bytes P subject) 1 1060)"

definition test_issuer_cap_limits_distinct_subjects :: "('sgk, 'vk) signatures \<Rightarrow> ('sk, 'pk) primitives \<Rightarrow> bool" where
  "test_issuer_cap_limits_distinct_subjects S P \<longleftrightarrow>
     (let root = test_root S;
          store0 = set_max_invitees_per_issuer (add_root S trust_store_new (invite_public S root)) 1
      in case ts_ingest S store0 (issue S P root (test_identity P 2) 1000 100) 1000 of (Inl _, _) \<Rightarrow> False | (Inr _, store1) \<Rightarrow>
         case ts_ingest S store1 (issue S P root (test_identity P 3) 1000 100) 1000 of (err, store2) \<Rightarrow>
           err = Inl IssuerCapReached \<and>
           \<not> isl (fst (ts_ingest S store2 (issue S P root (test_identity P 2) 1000 200) 1000)))"

lemma issued [simp]:
  "inv_issuer (issue S P k subject t d) = invite_public S k" "inv_subject (issue S P k subject t d) = as_bytes P subject"
  by (simp_all add: issue_def Let_def)

lemma invitation_tests:
  assumes "signatures_ok S" and "primitives_ok P"
  shows "test_issue_and_verify_within_window S P" "test_wire_roundtrip S P" "test_decode_rejects_wrong_length S"
    "test_direct_root_is_admitted_at_depth_zero S"
proof -
  let ?i = "issue S P (test_root S) (test_identity P 2) 1000 100"
  have "invitation_ok ?i"
    using assms by (simp add: invitation_ok_def as_bytes_def length_pk_bytes) (simp add: issue_def Let_def signatures_ok_def)
  then have "decode_invitation S (encode_invitation S ?i) = Inr ?i" "length (encode_invitation S ?i) = INVITATION_LEN"
    using strict_codec.dec_iff [OF invitation_codec [OF assms(1)]] assms(1)
    by (auto simp: encode_invitation_def invitation_ok_def INVITATION_LEN_def verifying_as_bytes_def signatures_ok_def)
  then show "test_wire_roundtrip S P"
    using assms(1) by (simp add: test_wire_roundtrip_def Let_def issue_verify_window)
  show "test_issue_and_verify_within_window S P"
    using assms(1) by (simp add: test_issue_and_verify_within_window_def Let_def issue_verify_window)
qed (simp_all add: test_decode_rejects_wrong_length_def decode_invitation_def INVITATION_LEN_def
      test_direct_root_is_admitted_at_depth_zero_def Let_def trust_depth_def add_root_def)

lemma trust_tests:
  assumes "signatures_ok S" and "\<forall>b. length b = 32 \<longrightarrow> pk_bytes P (pk_from P b) = b"
    and "distinct [verifying_as_bytes S (invite_public S (test_root S)),
      verifying_as_bytes S (invite_public S (signing_from_bytes S (replicate 32 2))), as_bytes P (test_identity P 2), as_bytes P (test_identity P 3)]"
  shows "test_chain_admitted_within_depth_not_beyond S P" "test_expired_edge_stops_admitting_new_queries S P"
    "test_issuer_cap_limits_distinct_subjects S P"
proof -
  have alice: "as_bytes P (public_from_bytes P (verifying_as_bytes S v)) = verifying_as_bytes S v" for v
    using assms(1,2) by (simp add: as_bytes_def public_from_bytes_def verifying_as_bytes_def signatures_ok_def)
  have up: "[Suc 0..<2] = [1]" "[Suc 0..<3] = [1, 2]" by (simp_all add: upt_rec)
  note d = assms(3) and v = issue_verify_window [OF assms(1)]
  show "test_expired_edge_stops_admitting_new_queries S P"
    using d unfolding test_expired_edge_stops_admitting_new_queries_def Let_def
    by (auto simp: ts_ingest_def add_root_def trust_store_new_def hm_insert_def v is_admitted_def trust_depth_def up Let_def usize_max_def)
  show "test_issuer_cap_limits_distinct_subjects S P"
    using d unfolding test_issuer_cap_limits_distinct_subjects_def Let_def
    by (auto simp: ts_ingest_def add_root_def set_max_invitees_per_issuer_def trust_store_new_def hm_insert_def v Let_def)
  show "test_chain_admitted_within_depth_not_beyond S P"
    using d unfolding test_chain_admitted_within_depth_not_beyond_def Let_def
    by (auto simp: ts_ingest_def add_root_def trust_store_new_def hm_insert_def v is_admitted_def trust_depth_def up alice Let_def usize_max_def)
qed

end
