(* ===== verification/Spec2Isabelle.thy ===== *)
theory Spec2Isabelle
  imports Ppose_Session_Path Ppose_Session_Order Ppose_Session_System Ppose_Session_Redirect Ppose_Examples Ppose_Cli_Talk Ppose_Session_Talk Ppose_Unit_Tests
begin

text \<open>
  A verification library for the Rust crate \<^verbatim>\<open>ppose\<close>, a peer-to-peer messaging prototype over
  UDP.  Paths below are relative to the crate's \<^verbatim>\<open>src/\<close> directory.

  \<^bold>\<open>The program.\<close>  A peer session (\<^verbatim>\<open>session.rs\<close>) runs a Noise XX handshake
  (\<^verbatim>\<open>crypto/noise.rs\<close>) and then a selective-repeat ARQ (\<^verbatim>\<open>reliability/arq.rs\<close>) whose frames
  (\<^verbatim>\<open>reliability/frame.rs\<close>) are sealed by the Noise transport, packed into datagrams of at most
  1200 bytes (\<^verbatim>\<open>network/packet.rs\<close>) and sent directly, through a relay (\<^verbatim>\<open>relay.rs\<close>,
  \<^verbatim>\<open>network/forward.rs\<close>) or through onion hops (\<^verbatim>\<open>onion.rs\<close>).  Relays suppress duplicates
  with a replay cache (\<^verbatim>\<open>network/replay.rs\<close>).  Peers find each other at a rendezvous service
  (\<^verbatim>\<open>rendezvous.rs\<close>), and a trust store (\<^verbatim>\<open>admission.rs\<close>) decides who is admitted by chains
  of signed invitations.  The command line program (\<^verbatim>\<open>bin/ppose.rs\<close>) and four examples start the
  services and sessions, and print what they return.

  \<^bold>\<open>How the code is represented.\<close>  Structures are records, enums datatypes, machine integers
  words of their width with wrap-around, byte strings lists of bytes, and instants and
  durations natural numbers of nanoseconds.  A method on \<^verbatim>\<open>&mut self\<close> returns its result
  paired with the new state; \<^verbatim>\<open>Result\<close> is a sum with the error on the left.  \<^verbatim>\<open>BTreeMap\<close> is an
  association list sorted by key, \<^verbatim>\<open>HashMap\<close> one with distinct keys whose order carries no
  meaning.  A panic, and a loop that does not return, is the value \<open>None\<close> of an option.  The
  operating system is a \<open>world\<close>: it fixes what each successive receive, clock, send and socket option call
  returns and logs what was sent, and the theorems hold for every world.  Loops are recursive
  functions; those that may run forever are partial functions into option, and that they
  return is proved.  No fuel is used.  Programs run on a \<open>process\<close>, a world with the lines
  printed so far; strings are the lists of their UTF-8 bytes.

  \<^bold>\<open>Parameters.\<close>  The crates for BLAKE3, X25519, XChaCha20-Poly1305, Ed25519 and \<^verbatim>\<open>snow\<close> are not
  part of the repository.  The functions the code calls are arguments (\<open>hash\<close>, the records
  \<open>primitives\<close> and \<open>snow\<close>, the signature functions of \<open>Ppose_Admission\<close>), random bytes are
  functions of the send call they are drawn for (a wrap that fails before the call draws the same bytes as the next one), and what theorems rely on is named:
  \<open>primitives_ok\<close> (key agreement, serialisation, AEAD round trip), \<open>counter_nonces\<close> and
  \<open>xx_exchange\<close> (the transport and the handshake of snow), \<open>authentic\<close> (what opens on one side was
  sealed on the other), \<open>unforged\<close> (no forgery among the invitations presented to a store).  What the operating system answers when a
  socket is bound, and the text of its errors, are fields of \<open>cli_env\<close>.
  Each has a concrete instance on which the theorems are evaluated.

  \<^bold>\<open>The theories.\<close>
  \<^item> \<open>Ppose_Prelude\<close>, \<open>Ppose_Containers\<close>: results, byte order, addresses, the locales
    \<open>wire_codec\<close> and \<open>strict_codec\<close> for encoders with their decoders, \<open>step_invariant\<close> for
    state machines, and the two map types.
  \<^item> \<open>Ppose_Packet\<close>, \<open>Ppose_Frame\<close>, \<open>Ppose_Forward\<close>: the three wire formats, round trips and the
    exact set of accepted byte strings.
  \<^item> \<open>Ppose_Arq\<close> (the endpoint and its operations), \<open>Ppose_Arq_Window\<close> (one endpoint: the step
    relation \<open>arq_step\<close>, the invariant of its reachable states, send window, retransmission,
    and the receive bitmap as a refinement of a set of numbers), \<open>Ppose_Arq_System\<close> (two
    endpoints over a network that loses, reorders and duplicates: every message is delivered
    at most once, and exactly once when nothing is left unacknowledged).  The latter holds
    while \<open>bounded\<close> messages are queued: fewer frames than sequence numbers, and fewer
    fragmented messages than fragment ids, before either wraps.
  \<^item> \<open>Ppose_Replay\<close>: the cache; locale \<open>duplicate_filter\<close> for what a forwarder needs of it, the room for later packets included.
  \<^item> \<open>Ppose_Udp\<close>: worlds, the framing helpers, and the locale \<open>datagram_service\<close> (one datagram
    in, at most one out, no failure but those of the operating system).
  \<^item> \<open>Ppose_Relay\<close>, \<open>Ppose_Onion\<close>, \<open>Ppose_Rendezvous\<close>: the three services.  Relay and onion relay
    are instances of the locale \<open>forwarder\<close>, which extends \<open>datagram_service\<close> and \<open>duplicate_filter\<close>; all three services
    are instances of \<open>datagram_service\<close>.
    \<open>Ppose_Onion\<close> also has route wrapping and its exact size limit; its theorems ask for
    payloads below 60000 bytes, far above a datagram, where the AEAD is total.
  \<^item> \<open>Ppose_Crypto\<close>: identity keys and the AEAD wrapper.  \<open>Ppose_Admission\<close>: invitations, their
    codec, and the trust store, whose breadth-first search finds the shortest chain; its histories are lists of the three
    operations that change it (\<open>store_run\<close>), over which the cap, the slots and the origin of invitations are proved.
  \<^item> \<open>Ppose_Cover\<close>: cover policy and configuration values.  \<open>Ppose_Noise\<close>: the Noise session as a
    machine with two modes.
  \<^item> \<open>Ppose_Session\<close>: the session and every operation of \<^verbatim>\<open>UdpSession\<close>.  \<open>Ppose_Session_Run\<close>: sending
    and receiving return, what they emit, and what an \<open>Ok\<close> of a send means; the locales
    \<open>action_contract\<close> and \<open>loop_contract\<close> carry a relation between states from the single
    operations to the two waiting loops.  \<open>Ppose_Session_Setup\<close>: handshakes and pinning.
    \<open>Ppose_Session_Path\<close>: capacity of the paths, two sessions and a relay.  \<open>Ppose_Session_Order\<close>: sealed datagrams in and out of order.
  \<^item> \<open>Ppose_Session_System\<close>: two sessions with their worlds.  The calls of a session are sequences of
    actions (\<open>calls_are_actions\<close>, by a third instance of \<open>loop_contract\<close>), and every action of the pair is
    matched by steps of the two abstract endpoints of \<open>Ppose_Arq_System\<close>; so what applications
    receive is what the other one sent (\<open>session_delivery\<close>).  Authenticity of the transport is the
    guard of a step: a datagram that opens does so to a frame the other side handed over for sealing.
    \<open>Ppose_Session_Redirect\<close>: what an unauthenticated datagram does to the destination of everything sent after it, by another
    instance of \<open>action_contract\<close>.
  \<^item> \<open>Ppose_Text\<close>: numbers, lossy decoding of UTF-8, printing and parsing of socket addresses as in the standard
    library; a printed address parses to itself.  \<open>Ppose_Display\<close>: the texts of all errors, which
    determine the error.
  \<^item> \<open>Ppose_Cli\<close>: every command of the program.  \<open>Ppose_Cli_Run\<close>: which commands end and how, by the
    total-correctness triple \<open>finishes\<close>; that no datagram ends a daemon; the two rendezvous commands with the
    service between them.  \<open>Ppose_Examples\<close>: the example programs.
  \<^item> \<open>Ppose_Arq_Transfer\<close>: the transfer of one message in closed form, sender and receiver.
    \<open>Ppose_Conversation\<close>: the same for two sessions over a network that delivers in order and within one retransmission interval, on direct paths; the inductive
    predicate \<open>dialogue\<close> is the common run of which each waiting loop sees one half.  \<open>Ppose_Session_Talk\<close>: scripts of any number of
    messages both ways (\<open>conversation_completes\<close>).  \<open>Ppose_Cli_Talk\<close>: with the handshake these make up
    the whole run of \<^verbatim>\<open>listen\<close> against \<^verbatim>\<open>connect\<close> (\<open>commands_converse\<close>).  What is asked of the
    Noise library is \<open>xx_exchange\<close>, one working handshake, and \<open>linked\<close>: two transports are the ends of two
    channels that keep the order, for a given number of calls.
  \<^item> \<open>Ppose_Unit_Tests\<close>: the tests inside the source files, run on the model.

  \<^bold>\<open>What does not hold.\<close>  Four theorems state behaviour the code does not intend: one lost
  datagram silences a session for good (\<open>one_loss_is_final\<close>: the exactly-once theorem about
  the ARQ speaks of frames that reach it, and the Noise transport below it stops handing
  them over), an unauthenticated datagram redirects a relayed session
  (\<open>unauthenticated_redirect\<close>), a request for a refused destination ends the relay daemon
  (\<open>relay_request_kills\<close>), and expired invitations keep their slots
  (\<open>expired_invitation_holds_slot\<close>).  \<open>path_capacity\<close> shows that full fragments do not pass two
  onion hops.

  \<^bold>\<open>Not modelled.\<close>  How a socket is bound: the answer is a parameter; arguments that are not Unicode: the
  programs start from the strings \<^verbatim>\<open>env::args\<close> yields, which panics on others; the text and backtrace of a
  panic; a standard output that is closed, and the mixing of the lines of two threads;
  zeroising of secrets and constant-time comparison, which have no observable
  result; the overflow of an instant by a timeout of centuries; the tests under
  \<^verbatim>\<open>tests/\<close>, and the unit tests whose outcome is the strength of a primitive.  Secrecy and
  traffic analysis are not functional properties and are not stated.
\<close>

section \<open>Properties across the services\<close>

text \<open>
  None of the services amplifies: in any run, over any world, the relay, the onion relay and
  the rendezvous service send at most as many datagrams as they receive.
\<close>
lemma services_no_amplification:
  "service_run (relay_step hash) n r w = (r', w') \<Longrightarrow>
     \<exists>out. sent w' = sent w @ out \<and> length out \<le> arrivals (recv_at w) (recv_no w) n"
  "service_run (onion_step P) n orl w = (orl', w') \<Longrightarrow>
     \<exists>out. sent w' = sent w @ out \<and> length out \<le> arrivals (recv_at w) (recv_no w) n"
  "service_run rendezvous_step n rs w = (rs', w') \<Longrightarrow>
     \<exists>out. sent w' = sent w @ out \<and> length out \<le> arrivals (recv_at w) (recv_no w) n"
  using relay_service.run_sends onion_service.run_sends rendezvous.run_sends by blast+

end
